(* ===== verification/Redis_Prelude.thy ===== *)
theory Redis_Prelude
  imports Main "HOL-Library.Word" "HOL-Library.Monad_Syntax"
begin

text \<open>
  Shared base of the development: the machine types of the C sources, checked access to a
  block of memory, the allocator's view of a block, fixed-width little-endian integers and
  the generic list lemmas the components share.

  Conventions used by every component.
  \<^item> A byte (\<open>char\<close>, \<open>uint8_t\<close>) is an \<open>8 word\<close>. Plain \<open>char\<close> is signed on the targets
    Redis supports, so where the source compares characters as integers the model reads
    them with \<open>sint\<close>.
  \<^item> A block of memory is the list of its bytes. Every read or write the source performs on
    it goes through \<open>mem_get\<close>, \<open>mem_set\<close>, \<open>mem_read\<close> or \<open>mem_write\<close>, whose result is
    \<open>None\<close> when the access leaves the block. An operation that returns \<open>Some\<close> has
    therefore made no access out of bounds.
  \<^item> The allocator never returns NULL (\<open>zmalloc.c\<close> aborts the process when memory is
    exhausted). The bytes of fresh memory are not specified: they are given by an argument
    \<open>junk\<close>, over which every theorem is quantified.
  \<^item> C integers that can wrap around are reduced with \<open>u32\<close>, \<open>u64\<close> or \<open>s64\<close> at the
    point where the source stores them.
\<close>

unbundle bit_operations_syntax

named_theorems mem_simps \<open>checked memory accesses that stay in bounds\<close>

type_synonym byte = "8 word"
type_synonym bytes = "byte list"

section \<open>Machine integers\<close>

abbreviation LLONG_MIN :: int where
  "LLONG_MIN \<equiv> - 9223372036854775808"

abbreviation LLONG_MAX :: int where
  "LLONG_MAX \<equiv> 9223372036854775807"

abbreviation ULLONG_MAX :: nat where
  "ULLONG_MAX \<equiv> 18446744073709551615"

definition u32 :: "nat \<Rightarrow> nat" where
  "u32 n = n mod 2 ^ 32"

definition u64 :: "nat \<Rightarrow> nat" where
  "u64 n = n mod 2 ^ 64"

definition u32_sub :: "nat \<Rightarrow> nat \<Rightarrow> nat" where
  "u32_sub a b = nat ((int a - int b) mod 2 ^ 32)"

definition u64_sub :: "nat \<Rightarrow> nat \<Rightarrow> nat" where
  "u64_sub a b = nat ((int a - int b) mod 2 ^ 64)"

text \<open>The conversion of an unsigned number to \<open>int\<close>.\<close>

definition s32 :: "nat \<Rightarrow> int" where
  "s32 n = signed_take_bit 31 (int n)"

definition s64 :: "int \<Rightarrow> int" where
  "s64 i = signed_take_bit 63 i"

definition int64_range :: "int \<Rightarrow> bool" where
  "int64_range v \<longleftrightarrow> LLONG_MIN \<le> v \<and> v \<le> LLONG_MAX"

section \<open>Checked access to a block of memory\<close>

definition mem_get :: "'a list \<Rightarrow> nat \<Rightarrow> 'a option" where
  "mem_get m i = (if i < length m then Some (m ! i) else None)"

definition mem_set :: "'a list \<Rightarrow> nat \<Rightarrow> 'a \<Rightarrow> 'a list option" where
  "mem_set m i v = (if i < length m then Some (m[i := v]) else None)"

definition mem_read :: "'a list \<Rightarrow> nat \<Rightarrow> nat \<Rightarrow> 'a list option" where
  "mem_read m off n = (if off + n \<le> length m then Some (take n (drop off m)) else None)"

definition mem_write :: "'a list \<Rightarrow> nat \<Rightarrow> 'a list \<Rightarrow> 'a list option" where
  "mem_write m off bs =
     (if off + length bs \<le> length m
      then Some (take off m @ bs @ drop (off + length bs) m) else None)"

definition mem_move :: "'a list \<Rightarrow> nat \<Rightarrow> nat \<Rightarrow> nat \<Rightarrow> 'a list option" where
  "mem_move m dst src n =
     (case mem_read m src n of None \<Rightarrow> None | Some bs \<Rightarrow> mem_write m dst bs)"

text \<open>A block of \<open>n\<close> fresh bytes, and a block resized to \<open>n\<close> bytes.\<close>

definition fresh_block :: "(nat \<Rightarrow> 'a) \<Rightarrow> nat \<Rightarrow> 'a list" where
  "fresh_block junk n = map junk [0..<n]"

definition resize_block :: "(nat \<Rightarrow> 'a) \<Rightarrow> 'a list \<Rightarrow> nat \<Rightarrow> 'a list" where
  "resize_block junk m n = take n m @ map junk [length m..<n]"

section \<open>Little-endian integers\<close>

fun le_bytes :: "nat \<Rightarrow> int \<Rightarrow> bytes" where
  "le_bytes 0 v = []"
| "le_bytes (Suc n) v = word_of_int v # le_bytes n (v div 256)"

fun le_uint :: "bytes \<Rightarrow> int" where
  "le_uint [] = 0"
| "le_uint (b # bs) = uint b + 256 * le_uint bs"

definition le_sint :: "nat \<Rightarrow> bytes \<Rightarrow> int" where
  "le_sint n bs = signed_take_bit (8 * n - 1) (le_uint bs)"

section \<open>Lemmas on machine integers\<close>

lemma u32_id: "n < 2 ^ 32 \<Longrightarrow> u32 n = n"
  by (simp add: u32_def)

lemma u64_id: "n < 2 ^ 64 \<Longrightarrow> u64 n = n"
  by (simp add: u64_def)

lemma u32_less: "u32 n < 2 ^ 32"
  by (simp add: u32_def)

lemma u64_less: "u64 n < 2 ^ 64"
  by (simp add: u64_def)

lemma u32_sub_id: "b \<le> a \<Longrightarrow> a < 2 ^ 32 \<Longrightarrow> u32_sub a b = a - b"
  by (simp add: u32_sub_def nat_diff_distrib' mod_pos_pos_trivial)

lemma u64_sub_id: "b \<le> a \<Longrightarrow> a < 2 ^ 64 \<Longrightarrow> u64_sub a b = a - b"
  by (simp add: u64_sub_def nat_diff_distrib' mod_pos_pos_trivial)

lemma s32_id: "n < 2 ^ 31 \<Longrightarrow> s32 n = int n"
  unfolding s32_def by (rule signed_take_bit_int_eq_self) simp_all

lemma s64_id: "int64_range v \<Longrightarrow> s64 v = v"
  unfolding s64_def int64_range_def
  by (rule signed_take_bit_int_eq_self) simp_all

section \<open>Lemmas on memory\<close>

lemma mem_get_in [mem_simps]: "i < length m \<Longrightarrow> mem_get m i = Some (m ! i)"
  by (simp add: mem_get_def)

lemma mem_set_in [mem_simps]: "i < length m \<Longrightarrow> mem_set m i v = Some (m[i := v])"
  by (simp add: mem_set_def)

lemma mem_read_in [mem_simps]:
  "off + n \<le> length m \<Longrightarrow> mem_read m off n = Some (take n (drop off m))"
  by (simp add: mem_read_def)

lemma mem_write_in [mem_simps]:
  "off + length bs \<le> length m \<Longrightarrow>
   mem_write m off bs = Some (take off m @ bs @ drop (off + length bs) m)"
  by (simp add: mem_write_def)

lemma mem_move_in [mem_simps]:
  "src + n \<le> length m \<Longrightarrow> dst + n \<le> length m \<Longrightarrow>
   mem_move m dst src n =
     Some (take dst m @ take n (drop src m) @ drop (dst + n) m)"
  by (simp add: mem_move_def mem_read_def mem_write_def)

lemma mem_write_length: "mem_write m off bs = Some m' \<Longrightarrow> length m' = length m"
  by (auto simp: mem_write_def split: if_splits)

lemma mem_set_length: "mem_set m i v = Some m' \<Longrightarrow> length m' = length m"
  by (auto simp: mem_set_def split: if_splits)

lemma length_fresh_block [simp]: "length (fresh_block junk n) = n"
  by (simp add: fresh_block_def)

lemma length_resize_block [simp]: "length (resize_block junk m n) = n"
  by (simp add: resize_block_def)

lemma take_resize_block:
  "k \<le> length m \<Longrightarrow> k \<le> n \<Longrightarrow> take k (resize_block junk m n) = take k m"
  by (simp add: resize_block_def min_def)

section \<open>Lemmas on little-endian integers\<close>

lemma length_le_bytes [simp]: "length (le_bytes n v) = n"
  by (induction n arbitrary: v) auto

lemma le_uint_le_bytes: "le_uint (le_bytes n v) = v mod 256 ^ n"
proof (induction n arbitrary: v)
  case 0
  then show ?case by simp
next
  case (Suc n)
  have "le_uint (le_bytes (Suc n) v) = v mod 256 + 256 * (v div 256 mod 256 ^ n)"
    by (simp add: Suc.IH uint_word_of_int)
  also have "\<dots> = v mod (256 * 256 ^ n)"
    by (simp add: mod_mult2_eq' zmod_zmult2_eq)
  finally show ?case by simp
qed

lemma le_sint_le_bytes:
  assumes "0 < n" and "- (2 ^ (8 * n - 1)) \<le> v" and "v < 2 ^ (8 * n - 1)"
  shows "le_sint n (le_bytes n v) = v"
proof -
  have "(256::int) ^ n = 2 ^ (8 * n)"
    by (simp add: power_mult)
  then have "le_sint n (le_bytes n v) = signed_take_bit (8 * n - 1) (take_bit (8 * n) v)"
    by (simp add: le_sint_def le_uint_le_bytes take_bit_eq_mod)
  also have "\<dots> = signed_take_bit (8 * n - 1) v"
  proof -
    have "\<not> 8 * n \<le> 8 * n - 1"
      using assms(1) by simp
    then show ?thesis by (simp only: signed_take_bit_take_bit if_False)
  qed
  also have "\<dots> = v"
    using assms(2,3) by (rule signed_take_bit_int_eq_self)
  finally show ?thesis .
qed

section \<open>Lemmas on lists\<close>

lemma take_append_length [simp]: "length xs = n \<Longrightarrow> take n (xs @ ys) = xs"
  by simp

lemma drop_append_length [simp]: "length xs = n \<Longrightarrow> drop n (xs @ ys) = ys"
  by simp

lemma drop_update_same: "n < length xs \<Longrightarrow> drop n (xs[n := a]) = a # drop (Suc n) xs"
  by (simp add: Cons_nth_drop_Suc [symmetric])

lemma update_first: "xs \<noteq> [] \<Longrightarrow> (take (Suc 0) xs @ ys)[0 := a] = a # ys"
  by (cases xs) simp_all

lemma list_update2_split:
  "Suc n < length xs \<Longrightarrow> xs[Suc n := a, n := b] = take n xs @ [b, a] @ drop (Suc (Suc n)) xs"
proof (induction xs arbitrary: n)
  case (Cons x xs)
  then show ?case by (cases n; cases xs) auto
qed simp

section \<open>Blocks made of chunks of one width\<close>

lemma length_concat_chunks: "\<forall>b \<in> set bss. length b = w \<Longrightarrow> length (concat bss) = length bss * w"
  by (induction bss) auto

lemma take_concat_chunks:
  "\<forall>b \<in> set bss. length b = w \<Longrightarrow> take (i * w) (concat bss) = concat (take i bss)"
  by (induction bss arbitrary: i) (auto simp: take_Cons split: nat.split)

lemma drop_concat_chunks:
  "\<forall>b \<in> set bss. length b = w \<Longrightarrow> drop (i * w) (concat bss) = concat (drop i bss)"
  by (induction bss arbitrary: i) (auto simp: drop_Cons split: nat.split)

lemma chunk_concat_chunks:
  assumes "\<forall>b \<in> set bss. length b = w" and "i < length bss"
  shows "take w (drop (i * w) (concat bss)) = bss ! i"
proof -
  have "drop i bss = bss ! i # drop (Suc i) bss"
    using assms(2) by (simp add: Cons_nth_drop_Suc)
  then show ?thesis
    using assms by (simp add: drop_concat_chunks)
qed

lemma mem_read_chunks:
  assumes "\<forall>b \<in> set bss. length b = w" and "i < length bss"
  shows "mem_read (concat bss) (i * w) w = Some (bss ! i)"
proof -
  have "i * w + w \<le> length bss * w"
    using assms(2) by (metis Suc_leI add.commute mult_Suc mult_le_mono1)
  then show ?thesis
    using assms by (simp add: mem_read_def length_concat_chunks [OF assms(1)] chunk_concat_chunks)
qed

lemma mem_write_chunks:
  assumes "\<forall>b \<in> set bss. length b = w" and "i < length bss" and "length c = w"
  shows "mem_write (concat bss) (i * w) c = Some (concat (bss[i := c]))"
proof -
  have i: "i * w + w = Suc i * w" by simp
  moreover have "Suc i * w \<le> length bss * w"
    using assms(2) by (intro mult_le_mono1) simp
  moreover have "drop (Suc i * w) (concat bss) = concat (drop (Suc i) bss)"
    using assms(1) by (rule drop_concat_chunks)
  ultimately show ?thesis
    unfolding mem_write_def assms(3) i length_concat_chunks [OF assms(1)]
    using assms by (simp add: take_concat_chunks upd_conv_take_nth_drop)
qed

lemma mem_move_chunks:
  assumes "\<forall>b \<in> set bss. length b = w" and "src + n \<le> length bss" and "dst + n \<le> length bss"
  shows "mem_move (concat bss) (dst * w) (src * w) (n * w) =
           Some (concat (take dst bss @ take n (drop src bss) @ drop (dst + n) bss))"
proof -
  have d: "\<forall>b \<in> set (drop src bss). length b = w"
    using assms(1) by (meson in_set_dropD)
  have "src * w + n * w \<le> length bss * w" "dst * w + n * w \<le> length bss * w"
    using assms(2,3) by (simp_all flip: add_mult_distrib add: mult_le_mono1)
  moreover have "take (n * w) (drop (src * w) (concat bss)) = concat (take n (drop src bss))"
    using assms(1) d by (simp add: drop_concat_chunks take_concat_chunks)
  moreover have "drop (dst * w + n * w) (concat bss) = concat (drop (dst + n) bss)"
    using assms(1) by (simp flip: add_mult_distrib add: drop_concat_chunks)
  ultimately show ?thesis
    using assms(1) 
    by (simp add: mem_move_in length_concat_chunks [OF assms(1)] take_concat_chunks)
qed

end
