(* ===== verification/Util_Num.thy ===== *)
theory Util_Num
  imports Redis_Prelude
begin

text \<open>
  Integer and string conversion, from \<open>redis-6.0.10/src/util.c\<close>: \<open>digits10\<close>, \<open>sdigits10\<close>,
  \<open>ll2string\<close>, \<open>string2ll\<close> and \<open>string2l\<close>.

  \<open>ll2string\<close> writes into a caller's buffer; the model returns \<open>None\<close> when a write leaves
  the buffer and otherwise the returned length with the new buffer. \<open>string2ll\<close> reads the
  \<open>slen\<close> bytes of its argument from left to right; the model takes exactly those bytes, its
  pointer \<open>p\<close> is the suffix not read yet, and a 0 return value is \<open>None\<close>.

  The reference is \<open>dec_string\<close>, the decimal notation of an integer.
\<close>

section \<open>Definitions\<close>

fun digits10 :: "nat \<Rightarrow> nat" where
  "digits10 v =
     (if v < 10 then 1
      else if v < 100 then 2
      else if v < 1000 then 3
      else if v < 1000000000000 then
        (if v < 100000000 then
           (if v < 1000000 then
              (if v < 10000 then 4 else 5 + of_bool (v \<ge> 100000))
            else 7 + of_bool (v \<ge> 10000000))
         else if v < 10000000000 then 9 + of_bool (v \<ge> 1000000000)
         else 11 + of_bool (v \<ge> 100000000000))
      else 12 + digits10 (v div 1000000000000))"

declare digits10.simps [simp del]

definition sdigits10 :: "int \<Rightarrow> nat" where
  "sdigits10 v =
     (if v < 0 then
        (let uv = (if v \<noteq> LLONG_MIN then nat (- v) else nat LLONG_MAX + 1)
         in digits10 uv + 1)
      else digits10 (nat v))"

text \<open>The table \<open>digits\<close> of \<open>ll2string\<close>: the two digits of every number below 100.\<close>

definition digit_table :: bytes where
  "digit_table = map of_char
     (''0001020304050607080910111213141516171819'' @
      ''2021222324252627282930313233343536373839'' @
      ''4041424344454647484950515253545556575859'' @
      ''6061626364656667686970717273747576777879'' @
      ''8081828384858687888990919293949596979899'')"

text \<open>The loop that stores two digits per round, then the last one or two digits.\<close>

fun ll2string_loop :: "bytes \<Rightarrow> nat \<Rightarrow> nat \<Rightarrow> (bytes \<times> nat \<times> nat) option" where
  "ll2string_loop dst nxt v =
     (if v \<ge> 100 then
        (let i = (v mod 100) * 2 in
         do { dst \<leftarrow> mem_set dst nxt (digit_table ! (i + 1));
              dst \<leftarrow> mem_set dst (u32_sub nxt 1) (digit_table ! i);
              ll2string_loop dst (u32_sub nxt 2) (v div 100) })
      else Some (dst, nxt, v))"

declare ll2string_loop.simps [simp del]

definition ll2string_last :: "bytes \<Rightarrow> nat \<Rightarrow> nat \<Rightarrow> bytes option" where
  "ll2string_last dst nxt v =
     (if v < 10 then mem_set dst nxt (48 + of_nat v)
      else (let i = v * 2 in
        do { dst \<leftarrow> mem_set dst nxt (digit_table ! (i + 1));
             mem_set dst (u32_sub nxt 1) (digit_table ! i) }))"

definition ll2string :: "bytes \<Rightarrow> nat \<Rightarrow> int \<Rightarrow> (nat \<times> bytes) option" where
  "ll2string dst dstlen svalue =
     (let (v, negative) =
        (if svalue < 0 then
           ((if svalue \<noteq> LLONG_MIN then nat (- svalue) else nat LLONG_MAX + 1), True)
         else (nat svalue, False));
        len = digits10 v + of_bool negative
      in if len \<ge> dstlen then Some (0, dst)
         else do { dst \<leftarrow> mem_set dst len 0;
                   (dst, nxt, v) \<leftarrow> ll2string_loop dst (u32_sub len 1) v;
                   dst \<leftarrow> ll2string_last dst nxt v;
                   dst \<leftarrow> (if negative then mem_set dst 0 45 else Some dst);
                   Some (len, dst) })"

text \<open>\<open>string2ll\<close>: the loop over the digits after the first, then the whole function.\<close>

fun string2ll_digits :: "nat \<Rightarrow> bytes \<Rightarrow> (nat \<times> bytes) option" where
  "string2ll_digits v [] = Some (v, [])"
| "string2ll_digits v (c # p) =
     (if 48 \<le> sint c \<and> sint c \<le> 57 then
        (if v > ULLONG_MAX div 10 then None
         else let v = u64 (v * 10) in
           if v > ULLONG_MAX - nat (sint c - 48) then None
           else string2ll_digits (u64 (v + nat (sint c - 48))) p)
      else Some (v, c # p))"

definition string2ll :: "bytes \<Rightarrow> int option" where
  "string2ll s =
     (case s of [] \<Rightarrow> None
      | c # cs \<Rightarrow>
        if length s = 1 \<and> c = 48 then Some 0
        else (let (negative, p) = (if c = 45 then (True, cs) else (False, s)) in
          case p of [] \<Rightarrow> None
          | d # q \<Rightarrow>
            if 49 \<le> sint d \<and> sint d \<le> 57 then
              (case string2ll_digits (nat (sint d - 48)) q of
                 None \<Rightarrow> None
               | Some (v, rest) \<Rightarrow>
                 if rest \<noteq> [] then None
                 else if negative then
                   (if v > nat (- (LLONG_MIN + 1)) + 1 then None else Some (s64 (- int v)))
                 else (if v > nat LLONG_MAX then None else Some (s64 (int v))))
            else None))"

definition string2l :: "bytes \<Rightarrow> int option" where
  "string2l s =
     (case string2ll s of
        None \<Rightarrow> None
      | Some llval \<Rightarrow>
        if llval < LLONG_MIN \<or> llval > LLONG_MAX then None else Some llval)"

section \<open>The decimal notation\<close>

fun dec_digits :: "nat \<Rightarrow> bytes" where
  "dec_digits n =
     (if n < 10 then [48 + of_nat n] else dec_digits (n div 10) @ [48 + of_nat (n mod 10)])"

declare dec_digits.simps [simp del]

definition dec_string :: "int \<Rightarrow> bytes" where
  "dec_string v = (if v < 0 then 45 # dec_digits (nat (- v)) else dec_digits (nat v))"

lemma dec_digits_small: "n < 10 \<Longrightarrow> dec_digits n = [48 + of_nat n]"
  by (simp add: dec_digits.simps)

lemma dec_digits_step:
  "10 \<le> n \<Longrightarrow> dec_digits n = dec_digits (n div 10) @ [48 + of_nat (n mod 10)]"
  by (subst dec_digits.simps) simp

lemma dec_digits_nonempty [simp]: "dec_digits n \<noteq> []"
  by (subst dec_digits.simps) simp

lemma length_dec_digits_div:
  "10 ^ k \<le> n \<Longrightarrow> length (dec_digits n) = k + length (dec_digits (n div 10 ^ k))"
proof (induction k)
  case 0
  then show ?case by simp
next
  case (Suc k)
  have le: "10 ^ k \<le> n" using Suc.prems by simp
  have "10 \<le> n div 10 ^ k"
    using div_le_mono [OF Suc.prems, of "10 ^ k"] by simp
  then have "length (dec_digits (n div 10 ^ k)) =
      Suc (length (dec_digits (n div 10 ^ k div 10)))"
    by (subst dec_digits_step) simp_all
  moreover have "n div 10 ^ k div 10 = n div 10 ^ Suc k"
    by (simp flip: div_mult2_eq add: mult.commute)
  ultimately show ?case
    using Suc.IH [OF le] by simp
qed

lemma length_dec_digits:
  assumes "10 ^ k \<le> n" and "n < 10 ^ Suc k"
  shows "length (dec_digits n) = Suc k"
proof -
  have "n div 10 ^ k < 10"
    using assms(2) by (simp add: less_mult_imp_div_less)
  then show ?thesis
    using length_dec_digits_div [OF assms(1)] by (simp add: dec_digits_small)
qed

lemma digits10_length: "digits10 v = length (dec_digits v)"
proof (induction v rule: digits10.induct)
  case (1 v)
  have L: "\<And>k. 10 ^ k \<le> v \<Longrightarrow> v < 10 ^ Suc k \<Longrightarrow> length (dec_digits v) = Suc k"
    by (rule length_dec_digits)
  show ?case
  proof (cases "v < 1000000000000")
    case True
    then show ?thesis
      using L [of 0] L [of 1] L [of 2] L [of 3] L [of 4] L [of 5] L [of 6] L [of 7]
        L [of 8] L [of 9] L [of 10] L [of 11]
      by (subst digits10.simps) (auto simp: dec_digits_small)
  next
    case False
    then have "length (dec_digits v) = 12 + length (dec_digits (v div 10 ^ 12))"
      by (intro length_dec_digits_div) simp
    then show ?thesis
      using False 1 by (subst digits10.simps) simp
  qed
qed

section \<open>Rendering\<close>

lemma digit_table_concat:
  "digit_table = concat (map (\<lambda>i. [48 + of_nat (i div 10), 48 + of_nat (i mod 10)]) [0..<100])"
  by (simp add: digit_table_def upt_conv_Cons)

lemma nth_concat_pairs:
  "i < n \<Longrightarrow> concat (map (\<lambda>i. [f i, g i]) [0..<n]) ! (i * 2) = f i \<and>
             concat (map (\<lambda>i. [f i, g i]) [0..<n]) ! (i * 2 + 1) = g i"
proof (induction n)
  case 0
  then show ?case by simp
next
  case (Suc n)
  have len: "length (concat (map (\<lambda>i. [f i, g i]) [0..<n])) = n * 2"
    by (induction n) auto
  show ?case
    using Suc by (cases "i = n") (auto simp: nth_append len less_Suc_eq)
qed


lemma digit_table_nth:
  assumes "i < 100"
  shows "digit_table ! (i * 2) = 48 + of_nat (i div 10)"
    and "digit_table ! (i * 2 + 1) = 48 + of_nat (i mod 10)"
  using nth_concat_pairs [OF assms, of "\<lambda>i. 48 + of_nat (i div 10) :: byte" "\<lambda>i. 48 + of_nat (i mod 10)"]
  unfolding digit_table_concat by simp_all

lemma dec_digits_step2:
  assumes "100 \<le> n"
  shows "dec_digits n = dec_digits (n div 100) @
           [48 + of_nat (n mod 100 div 10), 48 + of_nat (n mod 100 mod 10)]"
proof -
  have 1: "n div 10 div 10 = n div 100" "n div 10 mod 10 = n mod 100 div 10"
      "n mod 10 = n mod 100 mod 10"
    using mod_mult2_eq [of n 10 10] by (simp_all flip: div_mult2_eq)
  have "dec_digits n = dec_digits (n div 10) @ [48 + of_nat (n mod 10)]"
    using assms by (intro dec_digits_step) simp
  also have "dec_digits (n div 10) = dec_digits (n div 100) @ [48 + of_nat (n mod 100 div 10)]"
    using assms dec_digits_step [of "n div 10"] unfolding 1 by simp
  finally show ?thesis unfolding 1 by simp
qed

lemma dec_digits_two:
  assumes "10 \<le> n" "n < 100"
  shows "dec_digits n = [48 + of_nat (n div 10), 48 + of_nat (n mod 10)]"
  using assms by (simp add: dec_digits_step dec_digits_small)

definition ll2string_render :: "bytes \<Rightarrow> nat \<Rightarrow> nat \<Rightarrow> bytes option" where
  "ll2string_render dst nxt v =
     do { (dst, nxt, v) \<leftarrow> ll2string_loop dst nxt v; ll2string_last dst nxt v }"

lemma ll2string_render_last:
  assumes "v < 100" and "Suc nxt = off + length (dec_digits v)" and "nxt < length dst"
    and "nxt < 2 ^ 32"
  shows "ll2string_render dst nxt v =
           Some (take off dst @ dec_digits v @ drop (Suc nxt) dst)"
proof -
  have r: "ll2string_render dst nxt v = ll2string_last dst nxt v"
    unfolding ll2string_render_def using assms(1) by (subst ll2string_loop.simps) simp
  show ?thesis
  proof (cases "v < 10")
    case True
    then show ?thesis
      using assms r by (simp add: ll2string_last_def dec_digits_small mem_simps upd_conv_take_nth_drop)
  next
    case False
    then have d: "dec_digits v = [48 + of_nat (v div 10), 48 + of_nat (v mod 10)]"
      using assms(1) by (simp add: dec_digits_two)
    then have n: "nxt = Suc off" using assms(2) by simp
    then have "u32_sub nxt 1 = off" using assms(4) by (simp add: u32_sub_id)
    then show ?thesis
      using False assms n r d digit_table_nth [OF assms(1)]
      by (simp add: ll2string_last_def mem_simps list_update2_split)
  qed
qed

lemma ll2string_render_step:
  assumes "100 \<le> v" and "nxt = Suc (Suc k)" and "nxt < length dst" and "nxt < 2 ^ 32"
  shows "ll2string_render dst nxt v =
     ll2string_render
       (take (Suc k) dst @ [48 + of_nat (v mod 100 div 10), 48 + of_nat (v mod 100 mod 10)] @
        drop (Suc nxt) dst) k (v div 100)"
proof -
  have i: "v mod 100 < 100" by simp
  have sub: "u32_sub nxt 1 = Suc k" "u32_sub nxt 2 = k"
    using assms(2,4) by (simp_all add: u32_sub_id)
  show ?thesis
    unfolding ll2string_render_def
    using assms sub digit_table_nth [OF i]
    by (subst ll2string_loop.simps) (simp add: mem_simps Let_def list_update2_split)
qed

lemma ll2string_render_eq:
  assumes "Suc nxt = off + length (dec_digits v)" and "nxt < length dst" and "nxt < 2 ^ 32"
  shows "ll2string_render dst nxt v =
           Some (take off dst @ dec_digits v @ drop (Suc nxt) dst)"
  using assms
proof (induction v arbitrary: dst nxt rule: less_induct)
  case (less v)
  show ?case
  proof (cases "v \<ge> 100")
    case True
    have len: "length (dec_digits v) = length (dec_digits (v div 100)) + 2"
      using True by (simp add: dec_digits_step2)
    obtain k where k: "nxt = Suc (Suc k)" "Suc k = off + length (dec_digits (v div 100))"
    proof -
      have "0 < length (dec_digits (v div 100))" by simp
      then show ?thesis
        using that [of "nxt - 2"] less.prems(1) len by linarith
    qed
    let ?d = "take (Suc k) dst @ [48 + of_nat (v mod 100 div 10), 48 + of_nat (v mod 100 mod 10)] @
        drop (Suc nxt) dst"
    have "ll2string_render dst nxt v = ll2string_render ?d k (v div 100)"
      using True k(1) less.prems(2,3) by (rule ll2string_render_step)
    also have "\<dots> = Some (take off ?d @ dec_digits (v div 100) @ drop (Suc k) ?d)"
      using True k less.prems(2,3) by (intro less.IH) auto
    also have "\<dots> = Some (take off dst @ dec_digits v @ drop (Suc nxt) dst)"
      using True k less.prems(2) by (simp add: dec_digits_step2)
    finally show ?thesis .
  next
    case False
    then show ?thesis
      using less.prems by (intro ll2string_render_last) simp_all
  qed
qed

lemma ll2string_abs:
  assumes "int64_range v"
  shows "(if v < 0 then ((if v \<noteq> LLONG_MIN then nat (- v) else nat LLONG_MAX + 1), True)
          else (nat v, False)) = (nat \<bar>v\<bar>, v < 0)"
  using assms by (auto simp: int64_range_def)

lemma dec_string_abs:
  "dec_string v = (if v < 0 then [45] else []) @ dec_digits (nat \<bar>v\<bar>)"
  by (simp add: dec_string_def)

lemma length_dec_digits_le: "n < 10 ^ Suc k \<Longrightarrow> length (dec_digits n) \<le> Suc k"
proof (induction k arbitrary: n)
  case 0
  then show ?case by (simp add: dec_digits_small)
next
  case (Suc k)
  show ?case
  proof (cases "n < 10")
    case True
    then show ?thesis by (simp add: dec_digits_small)
  next
    case False
    have "n div 10 < 10 ^ Suc k" using Suc.prems by (simp add: less_mult_imp_div_less)
    then show ?thesis
      using Suc.IH [of "n div 10"] False by (simp add: dec_digits_step)
  qed
qed

lemma length_dec_string_le:
  assumes "int64_range v"
  shows "length (dec_string v) \<le> 20"
proof -
  have "\<bar>v\<bar> < 10 ^ Suc 18" using assms by (auto simp: int64_range_def abs_if)
  then have "nat \<bar>v\<bar> < 10 ^ Suc 18" by simp
  then have "length (dec_digits (nat \<bar>v\<bar>)) \<le> 19"
    using length_dec_digits_le by fastforce
  then show ?thesis by (auto simp: dec_string_abs abs_if split: if_splits)
qed

lemma ll2string_eq:
  assumes "int64_range v" and "dstlen \<le> length dst"
  shows "ll2string dst dstlen v =
     (if length (dec_string v) < dstlen
      then Some (length (dec_string v),
                 dec_string v @ [0] @ drop (Suc (length (dec_string v))) dst)
      else Some (0, dst))"
proof -
  let ?n = "nat \<bar>v\<bar>" and ?len = "length (dec_string v)"
  let ?neg = "v < 0"
  have len: "digits10 ?n + of_bool ?neg = ?len"
    by (simp add: digits10_length dec_string_abs)
  let ?o = "of_bool ?neg :: nat"
  have pos: "0 < ?len" by (simp add: dec_string_def)
  show ?thesis
  proof (cases "?len < dstlen")
    case False
    then show ?thesis
      unfolding ll2string_def ll2string_abs [OF assms(1)] by (simp add: len Let_def)
  next
    case True
    let ?d = "dst[?len := 0]"
    have "dst \<noteq> []" using True assms(2) by auto
    have nxt: "u32_sub ?len 1 = ?len - 1" 
      using pos length_dec_string_le [OF assms(1)] by (intro u32_sub_id) (simp_all add: Suc_le_eq)
    have r: "ll2string_render ?d (?len - 1) ?n =
        Some (take ?o ?d @ dec_digits ?n @ drop ?len ?d)"
    proof -
      have "Suc (?len - 1) = ?o + length (dec_digits ?n)"
        using len pos by (simp add: digits10_length)
      moreover have "?len - 1 < length ?d" "?len - 1 < 2 ^ 32"
        using True assms(2) length_dec_string_le [OF assms(1)] by simp_all
      ultimately show ?thesis
        using ll2string_render_eq [of "?len - 1" ?o ?n ?d] pos by simp
    qed
    have "ll2string dst dstlen v =
        do { d \<leftarrow> ll2string_render ?d (?len - 1) ?n;
             d \<leftarrow> (if ?neg then mem_set d 0 45 else Some d);
             Some (?len, d) }"
      unfolding ll2string_def ll2string_abs [OF assms(1)] ll2string_render_def
      using True assms(2) nxt
      by (simp add: len Let_def mem_simps split_def)
    also have "\<dots> = Some (?len, dec_string v @ [0] @ drop (Suc ?len) dst)"
      unfolding r
      using True assms(2) \<open>dst \<noteq> []\<close>
      by (auto simp: mem_set_def dec_string_abs drop_update_same update_first)
    finally show ?thesis using True by simp
  qed
qed

section \<open>Parsing\<close>

definition is_digit :: "byte \<Rightarrow> bool" where
  "is_digit c \<longleftrightarrow> 48 \<le> sint c \<and> sint c \<le> 57"

definition digit_val :: "byte \<Rightarrow> nat" where
  "digit_val c = nat (sint c - 48)"

definition dec_value :: "nat \<Rightarrow> bytes \<Rightarrow> nat" where
  "dec_value v cs = foldl (\<lambda>a c. a * 10 + digit_val c) v cs"

lemma sint_digit: "d < 10 \<Longrightarrow> sint (48 + of_nat d :: byte) = 48 + int d"
proof -
  assume d: "d < 10"
  have "(48 + of_nat d :: byte) = word_of_int (48 + int d)" by simp
  then show ?thesis
    using d by (simp only: sint_sbintrunc') (simp add: signed_take_bit_int_eq_self)
qed

lemma digit_of_nat [simp]:
  "d < 10 \<Longrightarrow> is_digit (48 + of_nat d)" "d < 10 \<Longrightarrow> digit_val (48 + of_nat d) = d"
  by (simp_all add: is_digit_def digit_val_def sint_digit)

lemma digit_val_less: "is_digit c \<Longrightarrow> digit_val c < 10"
  by (auto simp: is_digit_def digit_val_def nat_less_iff)

lemma digit_of_val: "is_digit c \<Longrightarrow> 48 + of_nat (digit_val c) = c"
proof -
  assume "is_digit c"
  then have "sint (48 + of_nat (digit_val c) :: byte) = sint c"
    by (simp add: sint_digit digit_val_less) (simp add: is_digit_def digit_val_def)
  then show ?thesis by (rule signed_word_eqI)
qed

lemma dec_value_append: "dec_value v (cs @ ds) = dec_value (dec_value v cs) ds"
  by (simp add: dec_value_def)

lemma dec_value_mono: "v \<le> dec_value v cs"
proof (induction cs rule: rev_induct)
  case Nil
  then show ?case by (simp add: dec_value_def)
next
  case (snoc c cs)
  then show ?case by (simp add: dec_value_append) (simp add: dec_value_def)
qed

lemma string2ll_digits_Cons:
  "is_digit c \<Longrightarrow> v \<le> ULLONG_MAX \<Longrightarrow>
   string2ll_digits v (c # p) =
     (if v * 10 + digit_val c \<le> ULLONG_MAX
      then string2ll_digits (v * 10 + digit_val c) p else None)"
  using digit_val_less [of c]
  by (auto simp: is_digit_def digit_val_def u64_def Let_def)

lemma string2ll_digits_all:
  "list_all is_digit cs \<Longrightarrow> v \<le> ULLONG_MAX \<Longrightarrow>
   string2ll_digits v cs =
     (if dec_value v cs \<le> ULLONG_MAX then Some (dec_value v cs, []) else None)"
proof (induction cs arbitrary: v)
  case Nil
  then show ?case by (simp add: dec_value_def)
next
  case (Cons c cs)
  let ?w = "v * 10 + digit_val c"
  have w: "dec_value v (c # cs) = dec_value ?w cs"
    by (simp add: dec_value_def)
  show ?case
  proof (cases "?w \<le> ULLONG_MAX")
    case True
    then show ?thesis
      using Cons w by (simp add: string2ll_digits_Cons del: string2ll_digits.simps)
  next
    case False
    then show ?thesis
      using Cons w dec_value_mono [of ?w cs]
      by (simp add: string2ll_digits_Cons del: string2ll_digits.simps)
  qed
qed

lemma string2ll_digits_end:
  "string2ll_digits v cs = Some (w, []) \<Longrightarrow> list_all is_digit cs"
  by (induction cs arbitrary: v) (auto simp: is_digit_def Let_def split: if_splits)

lemma dec_digits_all: "list_all is_digit (dec_digits n)"
proof (induction n rule: dec_digits.induct)
  case (1 n)
  then show ?case by (subst dec_digits.simps) simp
qed

lemma dec_value_digits: "dec_value 0 (dec_digits n) = n"
proof (induction n rule: dec_digits.induct)
  case (1 n)
  then show ?case
    by (subst dec_digits.simps) (auto simp: dec_value_append, auto simp: dec_value_def)
qed

lemma dec_digits_hd:
  "0 < n \<Longrightarrow> \<exists>d q. dec_digits n = d # q \<and> is_digit d \<and> 0 < digit_val d"
proof (induction n rule: dec_digits.induct)
  case (1 n)
  show ?case
  proof (cases "n < 10")
    case True
    then show ?thesis using 1 by (simp add: dec_digits_small)
  next
    case False
    then have "0 < n div 10" by (simp add: div_greater_zero_iff)
    then obtain d q where "dec_digits (n div 10) = d # q" "is_digit d" "0 < digit_val d"
      using 1 False by blast
    then show ?thesis using False by (simp add: dec_digits_step)
  qed
qed

lemma dec_digits_value:
  "list_all is_digit q \<Longrightarrow> is_digit d \<Longrightarrow> 0 < digit_val d \<Longrightarrow>
   dec_digits (dec_value (digit_val d) q) = d # q"
proof (induction q rule: rev_induct)
  case Nil
  then show ?case
    by (simp add: dec_value_def dec_digits_small digit_val_less digit_of_val)
next
  case (snoc c q)
  let ?m = "dec_value (digit_val d) q"
  have c: "is_digit c" "list_all is_digit q" using snoc.prems(1) by simp_all
  have m: "0 < ?m" using snoc.prems(3) dec_value_mono [of "digit_val d" q] by simp
  have "dec_value (digit_val d) (q @ [c]) = ?m * 10 + digit_val c"
    by (simp add: dec_value_append) (simp add: dec_value_def)
  moreover have "dec_digits (?m * 10 + digit_val c) = dec_digits ?m @ [c]"
    using m digit_val_less [OF c(1)] digit_of_val [OF c(1)] by (simp add: dec_digits_step)
  ultimately show ?case using snoc c by simp
qed

lemma first_digit_iff: "49 \<le> sint d \<and> sint d \<le> 57 \<longleftrightarrow> is_digit d \<and> 0 < digit_val d"
  by (auto simp: is_digit_def digit_val_def)

lemma string2ll_num:
  assumes "is_digit d" and "0 < digit_val d" and "list_all is_digit q"
  shows "string2ll_digits (nat (sint d - 48)) q =
     (if dec_value (digit_val d) q \<le> ULLONG_MAX
      then Some (dec_value (digit_val d) q, []) else None)"
  using assms string2ll_digits_all [of q "digit_val d"] digit_val_less [of d]
  by (simp add: digit_val_def)

lemma is_digit_not_minus: "is_digit d \<Longrightarrow> d \<noteq> 45"
  by (auto simp: is_digit_def)

lemma digit_val_48 [simp]: "digit_val 48 = 0"
  by (simp add: digit_val_def)

lemma string2ll_complete:
  assumes "int64_range v"
  shows "string2ll (dec_string v) = Some v"
proof (cases "v = 0")
  case True
  then show ?thesis by (simp add: string2ll_def dec_string_def dec_digits_small)
next
  case False
  let ?n = "nat \<bar>v\<bar>"
  have n: "0 < ?n" using False by simp
  then obtain d q where dq: "dec_digits ?n = d # q" "is_digit d" "0 < digit_val d"
    using dec_digits_hd by blast
  have q: "list_all is_digit q" using dec_digits_all [of ?n] dq(1) by simp
  have val: "dec_value (digit_val d) q = ?n"
    using dec_value_digits [of ?n] dq(1) by (simp add: dec_value_def)
  have le: "?n \<le> ULLONG_MAX"
    using assms by (auto simp: int64_range_def nat_le_iff abs_le_iff)
  have num: "string2ll_digits (nat (sint d - 48)) q = Some (?n, [])"
    using string2ll_num [OF dq(2,3) q] val le by simp
  have d: "49 \<le> sint d \<and> sint d \<le> 57" using dq(2,3) first_digit_iff by blast
  have ne: "d \<noteq> 45" "d \<noteq> 48" using dq(2,3) by (auto dest: is_digit_not_minus)
  show ?thesis
  proof (cases "v < 0")
    case True
    have "?n \<le> nat (- (LLONG_MIN + 1)) + 1" "s64 (- int ?n) = v"
      using assms True by (simp_all add: int64_range_def s64_id)
    then show ?thesis
      using True dq(1) d num by (simp add: string2ll_def dec_string_abs)
  next
    case False
    have "?n \<le> nat LLONG_MAX" "s64 (int ?n) = v"
      using assms False by (simp_all add: int64_range_def s64_id)
    then show ?thesis
      using False dq(1) d num ne by (simp add: string2ll_def dec_string_abs)
  qed
qed

lemma string2ll_num_inv:
  assumes "string2ll_digits (nat (sint d - 48)) q = Some (w, [])"
    and "49 \<le> sint d \<and> sint d \<le> 57"
  shows "dec_digits w = d # q" and "0 < w"
proof -
  have d: "is_digit d" "0 < digit_val d" using assms(2) first_digit_iff by blast+
  have q: "list_all is_digit q" using assms(1) by (rule string2ll_digits_end)
  have w: "w = dec_value (digit_val d) q"
    using string2ll_num [OF d q] assms(1) by (simp split: if_splits)
  show "dec_digits w = d # q" using dec_digits_value [OF q d] w by simp
  show "0 < w" using dec_value_mono [of "digit_val d" q] d(2) w by simp
qed

lemma string2ll_sound:
  assumes "string2ll s = Some v"
  shows "int64_range v \<and> s = dec_string v"
proof -
  obtain c cs where s: "s = c # cs" using assms by (cases s) (auto simp: string2ll_def)
  show ?thesis
  proof (cases "cs = [] \<and> c = 48")
    case True
    then show ?thesis
      using assms s by (simp add: string2ll_def int64_range_def dec_string_def dec_digits_small)
  next
    case False
    obtain d q w where p: "(if c = 45 then cs else s) = d # q"
      and d: "49 \<le> sint d \<and> sint d \<le> 57"
      and w: "string2ll_digits (nat (sint d - 48)) q = Some (w, [])"
      and v: "(if c = 45 then w \<le> nat (- (LLONG_MIN + 1)) + 1 \<and> v = s64 (- int w)
               else w \<le> nat LLONG_MAX \<and> v = s64 (int w))"
      using assms s False
      by (auto simp: string2ll_def split: if_splits list.splits option.splits prod.splits)
    note inv = string2ll_num_inv [OF w d]
    show ?thesis
    proof (cases "c = 45")
      case True
      have r: "int64_range (- int w)" using v True by (auto simp: int64_range_def)
      then have "v = - int w" using v True s64_id by simp
      then show ?thesis using r p s True inv by (simp add: dec_string_def)
    next
      case False
      have r: "int64_range (int w)" using v False by (auto simp: int64_range_def)
      then have "v = int w" using v False s64_id by simp
      then show ?thesis using r p False inv by (simp add: dec_string_def)
    qed
  qed
qed

section \<open>Properties\<close>

text \<open>\<open>ll2string\<close> stores exactly the decimal notation of any 64 bit integer, NUL
  terminated and without leaving the buffer, or leaves the buffer alone and returns 0 when
  it is too small.\<close>

theorem ll2string_correct:
  assumes "int64_range v" and "dstlen \<le> length dst"
  shows "ll2string dst dstlen v =
     (if length (dec_string v) < dstlen
      then Some (length (dec_string v),
                 dec_string v @ [0] @ drop (Suc (length (dec_string v))) dst)
      else Some (0, dst))"
  using assms by (rule ll2string_eq)

theorem ll2string_correct_witness:
  "ll2string (replicate 6 7) 6 (- 120) = Some (4, [45, 49, 50, 48, 0, 7])"
proof -
  have "int64_range (- 120)" by (simp add: int64_range_def)
  moreover have "dec_string (- 120) = [45, 49, 50, 48]"
    by (simp add: dec_string_def dec_digits.simps)
  ultimately show ?thesis
    using ll2string_correct [of "- 120" 6 "replicate 6 7"] by (simp add: numeral_eq_Suc)
qed

text \<open>C24: a string is accepted by \<open>string2ll\<close> exactly when it is the canonical decimal
  notation of a 64 bit integer, and then that integer is the result.\<close>

theorem string2ll_iff: "string2ll s = Some v \<longleftrightarrow> int64_range v \<and> s = dec_string v"
  using string2ll_sound string2ll_complete by blast

text \<open>C25: what \<open>ll2string\<close> prints into a buffer of at least 21 bytes, \<open>string2ll\<close> reads
  back.\<close>

theorem ll2string_string2ll:
  assumes "int64_range v" and "21 \<le> dstlen" and "dstlen \<le> length dst"
  shows "\<exists>n dst'. ll2string dst dstlen v = Some (n, dst') \<and> 0 < n \<and>
           string2ll (take n dst') = Some v"
proof -
  have "length (dec_string v) < dstlen"
    using length_dec_string_le [OF assms(1)] assms(2) by simp
  moreover have "dec_string v \<noteq> []" by (simp add: dec_string_def)
  ultimately show ?thesis
    using ll2string_eq [OF assms(1,3)] string2ll_complete [OF assms(1)] by simp
qed

theorem ll2string_string2ll_witness:
  "\<exists>n dst'. ll2string (replicate 21 0) 21 LLONG_MIN = Some (n, dst') \<and> 0 < n \<and>
     string2ll (take n dst') = Some LLONG_MIN"
  by (rule ll2string_string2ll) (simp_all add: int64_range_def)

text \<open>\<open>sdigits10\<close> is the length of the decimal notation.\<close>

theorem sdigits10_length:
  assumes "int64_range v"
  shows "sdigits10 v = length (dec_string v)"
  using assms by (auto simp: sdigits10_def dec_string_def digits10_length int64_range_def)

theorem sdigits10_length_witness: "sdigits10 (- 100000) = 7"
proof -
  have "dec_string (- 100000) = [45, 49, 48, 48, 48, 48, 48]"
    by (simp add: dec_string_def dec_digits.simps)
  then show ?thesis
    using sdigits10_length [of "- 100000"] by (simp add: int64_range_def)
qed

end
