(* ===== verification/Glob_Match.thy ===== *)
theory Glob_Match
  imports Redis_Prelude
begin

text \<open>
  Glob-style pattern matching, from \<open>redis-6.0.10/src/util.c\<close>: \<open>stringmatchlen\<close> and
  \<open>stringmatch\<close>.

  The pointer \<open>pattern\<close> is the suffix of the pattern's buffer that starts there, terminator
  included, and \<open>patternLen\<close> is a separate integer, as in the source, which reads
  \<open>pattern[0]\<close>, \<open>pattern[1]\<close> and \<open>pattern[2]\<close> and moves the pointer back by one. A read
  past the end of the buffer makes the result \<open>None\<close>. \<open>string\<close> with \<open>stringLen\<close> is the
  list of the \<open>stringLen\<close> bytes not matched yet. \<open>tolower\<close> is that of the C locale.

  The reference is the match of a list of tokens \<open>gtok\<close> (\<open>gmatch\<close>), to which \<open>parse_glob\<close>
  translates a pattern.
\<close>

section \<open>Definitions\<close>

definition tolower :: "int \<Rightarrow> int" where
  "tolower i = (if 65 \<le> i \<and> i \<le> 90 then i + 32 else i)"

text \<open>\<open>while (patternLen && pattern[1] == '*')\<close>\<close>

fun skip_stars :: "bytes \<Rightarrow> int \<Rightarrow> (bytes \<times> int) option" where
  "skip_stars (x # y # pat) plen =
     (if plen \<noteq> 0 then
        (if y = 42 then skip_stars (y # pat) (plen - 1) else Some (x # y # pat, plen))
      else Some (x # y # pat, plen))"
| "skip_stars pat plen = (if plen \<noteq> 0 then None else Some (pat, plen))"

text \<open>The final \<open>while (*pattern == '*')\<close>, with the remaining \<open>patternLen\<close> as its result.\<close>

fun skip_final :: "bytes \<Rightarrow> int \<Rightarrow> int option" where
  "skip_final [] plen = None"
| "skip_final (x # pat) plen = (if x = 42 then skip_final pat (plen - 1) else Some plen)"

definition in_range :: "bool \<Rightarrow> byte \<Rightarrow> byte \<Rightarrow> byte \<Rightarrow> bool" where
  "in_range nocase x z ch =
     (let (lo, hi) = (if sint x > sint z then (sint z, sint x) else (sint x, sint z));
          lo' = (if nocase then tolower lo else lo);
          hi' = (if nocase then tolower hi else hi);
          c = (if nocase then tolower (sint ch) else sint ch)
      in c \<ge> lo' \<and> c \<le> hi')"

definition same_char :: "bool \<Rightarrow> byte \<Rightarrow> byte \<Rightarrow> bool" where
  "same_char nocase x ch =
     (if \<not> nocase then x = ch else tolower (sint x) = tolower (sint ch))"

text \<open>
  The loop over a character class. Its state is the pattern before the last \<open>pattern++\<close>
  (\<open>prev\<close>), the pattern, \<open>patternLen\<close> and \<open>match\<close>; \<open>ch\<close> is \<open>string[0]\<close>.
\<close>

fun class_loop ::
    "bool \<Rightarrow> byte \<Rightarrow> bytes \<Rightarrow> bytes \<Rightarrow> int \<Rightarrow> bool \<Rightarrow> (bytes \<times> int \<times> bool) option" where
  "class_loop nocase ch prev [] plen m = None"
| "class_loop nocase ch prev (x # pat) plen m =
     (if x = 92 \<and> plen \<ge> 2 then
        (case pat of [] \<Rightarrow> None
         | y # pat' \<Rightarrow> class_loop nocase ch (y # pat') pat' (plen - 2) (m \<or> y = ch))
      else if x = 93 then Some (x # pat, plen, m)
      else if plen = 0 then Some (prev, plen + 1, m)
      else if plen \<ge> 3 then
        (case pat of [] \<Rightarrow> None
         | y # pat' \<Rightarrow>
           if y = 45 then
             (case pat' of [] \<Rightarrow> None
              | z # pat'' \<Rightarrow>
                class_loop nocase ch (z # pat'') pat'' (plen - 3) (m \<or> in_range nocase x z ch))
           else class_loop nocase ch (x # pat) pat (plen - 1) (m \<or> same_char nocase x ch))
      else class_loop nocase ch (x # pat) pat (plen - 1) (m \<or> same_char nocase x ch))"

text \<open>
  The cases of the switch that consume one character of the string, with the final
  \<open>pattern++; patternLen--\<close>: \<open>Some None\<close> is a mismatch (\<open>return 0\<close>), \<open>Some (Some p)\<close> the
  pattern and \<open>patternLen\<close> to go on with.
\<close>

definition glob_elem ::
    "bool \<Rightarrow> byte \<Rightarrow> bytes \<Rightarrow> int \<Rightarrow> byte \<Rightarrow> (bytes \<times> int) option option" where
  "glob_elem nocase x pat plen ch =
     (if x = 63 then Some (Some (pat, plen - 1))
      else if x = 91 then
        (case pat of [] \<Rightarrow> None
         | y # pat' \<Rightarrow>
           (case (if y = 94 then class_loop nocase ch pat pat' (plen - 2) False
                  else class_loop nocase ch (x # pat) pat (plen - 1) False) of
              None \<Rightarrow> None
            | Some (p, pl, m) \<Rightarrow>
              if (if y = 94 then \<not> m else m) then
                (if p = [] then None else Some (Some (tl p, pl - 1)))
              else Some None))
      else if x = 92 \<and> plen \<ge> 2 then
        (case pat of [] \<Rightarrow> None
         | y # pat' \<Rightarrow>
           if same_char nocase y ch then Some (Some (pat', plen - 2)) else Some None)
      else if same_char nocase x ch then Some (Some (pat, plen - 1)) else Some None)"

declare class_loop.simps [simp del]

lemma class_loop_shorter:
  "class_loop nocase ch prev pat plen m = Some (p, pl, m') \<Longrightarrow>
   length prev \<le> Suc (length pat) \<Longrightarrow> length p \<le> Suc (length pat)"
proof (induction "length pat" arbitrary: prev pat plen m rule: less_induct)
  case less
  have IH: "length p \<le> Suc (length q)"
    if "class_loop nocase ch pr q n k = Some (p, pl, m')" "length pr \<le> Suc (length q)"
      "length q < length pat" for pr q n k
    using less.hyps that by blast
  consider "pat = []" | x where "pat = [x]" | x y where "pat = [x, y]"
    | x y z r where "pat = x # y # z # r"
    by (metis list.exhaust)
  then show ?case
  proof cases
    case (2 x)
    then show ?thesis using less.prems IH [of _ "[]"] by (auto simp: class_loop.simps split: if_split_asm)
  next
    case (3 x y)
    then show ?thesis
      using less.prems IH [of _ "[]"] IH [of _ "[y]"]
      by (auto simp: class_loop.simps split: if_split_asm)
  next
    case (4 x y z r)
    then show ?thesis
      using less.prems IH [of _ "y # z # r"] IH [of _ "z # r"] IH [of _ r]
      by (fastforce simp: class_loop.simps(2) [of _ _ _ x] split: if_split_asm)
  qed (use less.prems in \<open>simp add: class_loop.simps\<close>)
qed

lemma glob_elem_shorter:
  "glob_elem nocase x pat plen ch = Some (Some (r, pl)) \<Longrightarrow> length r \<le> length pat"
  by (cases pat)
    (auto simp: glob_elem_def split: if_split_asm option.split_asm dest!: class_loop_shorter)

lemma skip_stars_shorter: "skip_stars pat plen = Some (p, pl) \<Longrightarrow> length p \<le> length pat"
  by (induction pat plen rule: skip_stars.induct) (auto split: if_split_asm)

text \<open>
  The main loop (one call per iteration) and the loop of the \<open>*\<close> case, which tries the rest
  of the pattern at every position of the string.
\<close>

function stringmatchlen :: "bool \<Rightarrow> bytes \<Rightarrow> int \<Rightarrow> bytes \<Rightarrow> bool option"
  and star_try :: "bool \<Rightarrow> bytes \<Rightarrow> int \<Rightarrow> bytes \<Rightarrow> bool option" where
  "stringmatchlen nocase pat plen str =
     (if plen \<noteq> 0 \<and> str \<noteq> [] then
        (case pat of [] \<Rightarrow> None
         | x # pat1 \<Rightarrow>
           if x = 42 then
             (case skip_stars pat plen of
                None \<Rightarrow> None
              | Some (p, pl) \<Rightarrow>
                if pl = 1 then Some True
                else if p = [] then None else star_try nocase (tl p) (pl - 1) str)
           else
             (case glob_elem nocase x pat1 plen (hd str) of
                None \<Rightarrow> None
              | Some None \<Rightarrow> Some False
              | Some (Some (r, pl)) \<Rightarrow>
                if tl str = [] then map_option (\<lambda>n. n = 0) (skip_final r pl)
                else stringmatchlen nocase r pl (tl str)))
      else Some (plen = 0 \<and> str = []))"
| "star_try nocase r pl str =
     (if str = [] then Some False
      else (case stringmatchlen nocase r pl str of
              None \<Rightarrow> None
            | Some True \<Rightarrow> Some True
            | Some False \<Rightarrow> star_try nocase r pl (tl str)))"
  by pat_completeness auto
termination
  apply (relation "measures [case_sum (\<lambda>(_, p, _, _). length p) (\<lambda>(_, p, _, _). length p),
    case_sum (\<lambda>_. 0) (\<lambda>_. 1),
    case_sum (\<lambda>_. 0) (\<lambda>(_, _, _, s). length s)]")
  subgoal by simp
  subgoal for nocase pat plen str x pat1 a p pl
    using skip_stars_shorter [of pat plen p pl] by (cases p) auto
  subgoal for nocase pat plen str x pat1 a b r pl
    using glob_elem_shorter [of nocase x pat1 plen "hd str" r pl] by simp
  subgoal by simp
  subgoal by simp
  done

declare stringmatchlen.simps [simp del] star_try.simps [simp del]

text \<open>\<open>stringmatch\<close> takes two NUL terminated strings.\<close>

definition stringmatch :: "bytes \<Rightarrow> bytes \<Rightarrow> bool \<Rightarrow> bool option" where
  "stringmatch pattern string nocase =
     stringmatchlen nocase pattern (int (length (takeWhile (\<lambda>c. c \<noteq> 0) pattern)))
       (takeWhile (\<lambda>c. c \<noteq> 0) string)"

section \<open>The reference: tokens\<close>

datatype gitem = IEsc byte | IRange byte byte | IChr byte

datatype gtok = GStar | GAny | GSet bool "gitem list" | GLit byte

fun parse_class :: "bytes \<Rightarrow> gitem list \<times> bytes" where
  "parse_class [] = ([], [])"
| "parse_class (x # pat) =
     (if x = 92 \<and> pat \<noteq> [] then
        (let (is, r) = parse_class (tl pat) in (IEsc (hd pat) # is, r))
      else if x = 93 then ([], pat)
      else if 2 \<le> length pat \<and> hd pat = 45 then
        (let (is, r) = parse_class (drop 2 pat) in (IRange x (pat ! 1) # is, r))
      else (let (is, r) = parse_class pat in (IChr x # is, r)))"

lemma parse_class_shorter: "length (snd (parse_class pat)) \<le> length pat"
proof (induction "length pat" arbitrary: pat rule: less_induct)
  case less
  show ?case
  proof (cases pat)
    case (Cons x r)
    have "length (snd (parse_class (tl r))) \<le> length (tl r)" if "r \<noteq> []"
      using less [of "tl r"] Cons by simp
    moreover have "length (snd (parse_class (drop 2 r))) \<le> length (drop 2 r)"
      using less [of "drop 2 r"] Cons by simp
    moreover have "length (snd (parse_class r)) \<le> length r"
      using less [of r] Cons by simp
    ultimately show ?thesis
      using Cons by (auto simp: split_def Let_def)
  qed simp
qed

function parse_glob :: "bytes \<Rightarrow> gtok list" where
  "parse_glob [] = []"
| "parse_glob (x # pat) =
     (if x = 42 then GStar # parse_glob pat
      else if x = 63 then GAny # parse_glob pat
      else if x = 91 then
        (if pat \<noteq> [] \<and> hd pat = 94
         then GSet True (fst (parse_class (tl pat))) # parse_glob (snd (parse_class (tl pat)))
         else GSet False (fst (parse_class pat)) # parse_glob (snd (parse_class pat)))
      else if x = 92 \<and> pat \<noteq> [] then GLit (hd pat) # parse_glob (tl pat)
      else GLit x # parse_glob pat)"
  by pat_completeness auto
termination
  apply (relation "measure length")
  subgoal by simp
  subgoal by simp
  subgoal by simp
  subgoal for x pat using parse_class_shorter [of "tl pat"] by simp
  subgoal for x pat using parse_class_shorter [of pat] by simp
  subgoal by simp
  subgoal by simp
  done

fun item_matches :: "bool \<Rightarrow> byte \<Rightarrow> gitem \<Rightarrow> bool" where
  "item_matches nocase ch (IEsc y) = (y = ch)"
| "item_matches nocase ch (IRange x z) = in_range nocase x z ch"
| "item_matches nocase ch (IChr x) = same_char nocase x ch"

fun tok_matches :: "bool \<Rightarrow> gtok \<Rightarrow> byte \<Rightarrow> bool" where
  "tok_matches nocase GStar ch = False"
| "tok_matches nocase GAny ch = True"
| "tok_matches nocase (GSet neg is) ch = (list_ex (item_matches nocase ch) is \<noteq> neg)"
| "tok_matches nocase (GLit x) ch = same_char nocase x ch"

fun gmatch :: "bool \<Rightarrow> gtok list \<Rightarrow> bytes \<Rightarrow> bool" where
  "gmatch nocase [] str = (str = [])"
| "gmatch nocase (t # ts) str =
     (if t = GStar then list_ex (\<lambda>k. gmatch nocase ts (drop k str)) [0..<Suc (length str)]
      else str \<noteq> [] \<and> tok_matches nocase t (hd str) \<and> gmatch nocase ts (tl str))"

section \<open>The loops against the tokens\<close>

declare parse_class.simps [simp del]

lemma class_loop_parse:
  assumes "prev \<noteq> []" and "tl prev = pt @ 0 # z"
  shows "\<exists>p. class_loop nocase ch prev (pt @ 0 # z) (int (length pt)) m =
      Some (p, int (length (snd (parse_class pt))) + 1,
            m \<or> list_ex (item_matches nocase ch) (fst (parse_class pt))) \<and>
    p \<noteq> [] \<and> tl p = snd (parse_class pt) @ 0 # z"
  using assms
proof (induction "length pt" arbitrary: prev pt m rule: less_induct)
  case less
  show ?case
  proof (cases pt)
    case Nil
    then show ?thesis
      using less.prems by (simp add: class_loop.simps parse_class.simps)
  next
    case (Cons x pat)
    consider (esc) "x = 92" "pat \<noteq> []"
      | (close) "\<not> (x = 92 \<and> pat \<noteq> [])" "x = 93"
      | (dash) "\<not> (x = 92 \<and> pat \<noteq> [])" "x \<noteq> 93" "2 \<le> length pat" "hd pat = 45"
      | (single) "\<not> (x = 92 \<and> pat \<noteq> [])" "x \<noteq> 93" "\<not> (2 \<le> length pat \<and> hd pat = 45)"
      by blast
    then show ?thesis
    proof cases
      case esc
      then obtain y r where pat: "pat = y # r" by (cases pat) auto
      show ?thesis
        using less.hyps [of r "y # r @ 0 # z" "m \<or> y = ch"] esc pat Cons
        by (simp add: class_loop.simps parse_class.simps split_def Let_def disj_assoc)
    next
      case close
      then show ?thesis
        using Cons by (auto simp: class_loop.simps parse_class.simps)
    next
      case dash
      then obtain y r where pat: "pat = 45 # y # r"
        by (cases pat; cases "tl pat") auto
      show ?thesis
        using less.hyps [of r "y # r @ 0 # z" "m \<or> in_range nocase x y ch"] dash pat Cons
        by (auto simp: class_loop.simps(2) parse_class.simps(2) split_def Let_def)
    next
      case single
      have "class_loop nocase ch prev (pt @ 0 # z) (int (length pt)) m =
          class_loop nocase ch (pt @ 0 # z) (pat @ 0 # z) (int (length pat)) (m \<or> same_char nocase x ch)"
        using single Cons by (cases pat) (auto simp: class_loop.simps(2) neq_Nil_conv)
      moreover have "parse_class pt = (IChr x # fst (parse_class pat), snd (parse_class pat))"
        using single Cons by (auto simp: parse_class.simps(2) split_def Let_def)
      ultimately show ?thesis
        using less.hyps [of pat "pt @ 0 # z" "m \<or> same_char nocase x ch"] Cons
        by (simp add: disj_assoc)
    qed
  qed
qed

lemma skip_stars_eq:
  "skip_stars (42 # p @ 0 # z) (int (length p) + 1) =
     Some (42 # dropWhile (\<lambda>c. c = 42) p @ 0 # z, int (length (dropWhile (\<lambda>c. c = 42) p)) + 1)"
  by (induction p) (auto simp: add.commute [of "1::int"])

lemma skip_final_eq:
  "skip_final (p @ 0 # z) (int (length p)) = Some (int (length (dropWhile (\<lambda>c. c = 42) p)))"
  by (induction p) (auto simp: add.commute [of "1::int"])

lemma gmatch_empty_str: "gmatch nocase ts [] \<longleftrightarrow> list_all (\<lambda>t. t = GStar) ts"
  by (induction ts) auto

lemma parse_glob_all_stars:
  "list_all (\<lambda>t. t = GStar) (parse_glob p) \<longleftrightarrow> dropWhile (\<lambda>c. c = 42) p = []"
  by (induction p) (auto simp: )

lemma gmatch_star_iff:
  "gmatch nocase (GStar # ts) str \<longleftrightarrow> (\<exists>k \<le> length str. gmatch nocase ts (drop k str))"
  by (auto simp: list_ex_iff less_Suc_eq_le simp del: upt_Suc)

lemma gmatch_star_star: "gmatch nocase (GStar # GStar # ts) str = gmatch nocase (GStar # ts) str"
proof -
  have "(\<exists>k \<le> length str. \<exists>j \<le> length (drop k str). gmatch nocase ts (drop j (drop k str))) \<longleftrightarrow>
      (\<exists>k \<le> length str. gmatch nocase ts (drop k str))" (is "?L = ?R")
  proof
    assume ?L
    then obtain k j where "k \<le> length str" "j \<le> length str - k" "gmatch nocase ts (drop (j + k) str)"
      by auto
    then show ?R by (intro exI [of _ "j + k"]) auto
  next
    assume ?R
    then show ?L by (metis drop0 zero_le)
  qed
  then show ?thesis by (simp only: gmatch_star_iff)
qed

lemma gmatch_stars:
  "gmatch nocase (GStar # parse_glob p) str =
   gmatch nocase (GStar # parse_glob (dropWhile (\<lambda>c. c = 42) p)) str"
  by (induction p) (simp_all add: gmatch_star_star del: gmatch.simps)

lemma glob_elem_parse:
  assumes "x \<noteq> 42"
  shows "\<exists>t q. parse_glob (x # p) = t # parse_glob q \<and> t \<noteq> GStar \<and>
    glob_elem nocase x (p @ 0 # z) (int (length p) + 1) ch =
      Some (if tok_matches nocase t ch then Some (q @ 0 # z, int (length q)) else None)"
proof -
  consider (any) "x = 63" | (cls) "x = 91" | (esc) "x = 92" "p \<noteq> []"
    | (lit) "x \<noteq> 63" "x \<noteq> 91" "\<not> (x = 92 \<and> p \<noteq> [])"
    by blast
  then show ?thesis
  proof cases
    case any
    then show ?thesis by (auto simp: glob_elem_def)
  next
    case cls
    show ?thesis
    proof (cases "p \<noteq> [] \<and> hd p = 94")
      case True
      then obtain r where r: "p = 94 # r" by (cases p) auto
      obtain pp where "class_loop nocase ch (94 # r @ 0 # z) (r @ 0 # z) (int (length r)) False =
          Some (pp, int (length (snd (parse_class r))) + 1,
            False \<or> list_ex (item_matches nocase ch) (fst (parse_class r)))"
        "pp \<noteq> []" "tl pp = snd (parse_class r) @ 0 # z"
        using class_loop_parse [of "94 # r @ 0 # z" r z nocase ch False] by auto
      then show ?thesis
        using cls r by (auto simp: glob_elem_def)
    next
      case False
      obtain pp where pp: "class_loop nocase ch (x # p @ 0 # z) (p @ 0 # z) (int (length p)) False =
          Some (pp, int (length (snd (parse_class p))) + 1,
            False \<or> list_ex (item_matches nocase ch) (fst (parse_class p)))"
        "pp \<noteq> []" "tl pp = snd (parse_class p) @ 0 # z"
        using class_loop_parse [of "x # p @ 0 # z" p z nocase ch False] by auto
      show ?thesis
        using cls False pp by (cases p) (auto simp: glob_elem_def)
    qed
  next
    case esc
    then show ?thesis by (cases p) (auto simp: glob_elem_def)
  next
    case lit
    then show ?thesis using assms by (auto simp: glob_elem_def)
  qed
qed

lemma star_try_eq:
  assumes "\<And>s. s \<noteq> [] \<Longrightarrow> stringmatchlen nocase r pl s = Some (gmatch nocase ts s)"
  shows "star_try nocase r pl str = Some (\<exists>k < length str. gmatch nocase ts (drop k str))"
proof (induction str)
  case Nil
  then show ?case by (simp add: star_try.simps)
next
  case (Cons c s)
  have "(\<exists>k < Suc (length s). gmatch nocase ts (drop k (c # s))) \<longleftrightarrow>
      gmatch nocase ts (c # s) \<or> (\<exists>k < length s. gmatch nocase ts (drop k s))"
    by (auto simp: less_Suc_eq_0_disj)
  then show ?case
    using Cons assms [of "c # s"] by (subst star_try.simps) (simp split: bool.split)
qed

lemma stringmatchlen_parse:
  "str \<noteq> [] \<Longrightarrow>
   stringmatchlen nocase (p @ 0 # z) (int (length p)) str = Some (gmatch nocase (parse_glob p) str)"
proof (induction "length p" arbitrary: p str rule: less_induct)
  case less
  show ?case
  proof (cases p)
    case Nil
    then show ?thesis using less.prems by (simp add: stringmatchlen.simps)
  next
    case (Cons x p1)
    show ?thesis
    proof (cases "x = 42")
      case True
      let ?q = "dropWhile (\<lambda>c. c = 42) p1"
      have q: "length ?q \<le> length p1" by (rule length_dropWhile_le)
      have g: "gmatch nocase (parse_glob p) str = gmatch nocase (GStar # parse_glob ?q) str"
        using True Cons gmatch_stars [of nocase p1 str] by (simp del: gmatch.simps)
      have s: "skip_stars (p @ 0 # z) (int (length p)) = Some (42 # ?q @ 0 # z, int (length ?q) + 1)"
        using True Cons skip_stars_eq [of p1 z] by (simp add: add.commute)
      show ?thesis
      proof (cases "?q = []")
        case all: True
        have "gmatch nocase (GStar # parse_glob ?q) str"
          unfolding gmatch_star_iff all by (auto intro: exI [of _ "length str"])
        then show ?thesis
          using g s [unfolded all] \<open>x = 42\<close> Cons less.prems by (subst stringmatchlen.simps) simp
      next
        case False
        have "star_try nocase (?q @ 0 # z) (int (length ?q)) str =
            Some (\<exists>k < length str. gmatch nocase (parse_glob ?q) (drop k str))"
          using less.hyps [of ?q] q Cons by (intro star_try_eq) simp
        moreover have "\<not> gmatch nocase (parse_glob ?q) []"
          using False by (simp add: gmatch_empty_str parse_glob_all_stars)
        then have "(\<exists>k < length str. gmatch nocase (parse_glob ?q) (drop k str)) \<longleftrightarrow>
            gmatch nocase (GStar # parse_glob ?q) str"
          unfolding gmatch_star_iff by (auto simp: le_less)
        ultimately show ?thesis
          using g s \<open>x = 42\<close> Cons less.prems False
          by (subst stringmatchlen.simps) (auto simp del: gmatch.simps)
      qed
    next
      case False
      obtain t q where tq: "parse_glob (x # p1) = t # parse_glob q" "t \<noteq> GStar"
        and e: "glob_elem nocase x (p1 @ 0 # z) (int (length p1) + 1) (hd str) =
          Some (if tok_matches nocase t (hd str) then Some (q @ 0 # z, int (length q)) else None)"
        using glob_elem_parse [OF False] by blast
      have e': "glob_elem nocase x (p1 @ 0 # z) (int (length p)) (hd str) =
          Some (if tok_matches nocase t (hd str) then Some (q @ 0 # z, int (length q)) else None)"
        using e Cons by (simp add: add.commute)
      show ?thesis
      proof (cases "tok_matches nocase t (hd str)")
        case True
        then have len: "length q \<le> length p1" using glob_elem_shorter e by fastforce
        have "stringmatchlen nocase (p @ 0 # z) (int (length p)) str =
            (if tl str = [] then map_option (\<lambda>n. n = 0) (skip_final (q @ 0 # z) (int (length q)))
             else stringmatchlen nocase (q @ 0 # z) (int (length q)) (tl str))"
          using True False Cons less.prems e' by (subst stringmatchlen.simps) simp
        also have "\<dots> = Some (gmatch nocase (parse_glob q) (tl str))"
          using less.hyps [of q "tl str"] len Cons
          by (auto simp: skip_final_eq gmatch_empty_str parse_glob_all_stars)
        finally show ?thesis
          using True tq Cons less.prems by simp
      next
        case F: False
        then show ?thesis
          using False Cons less.prems e' tq by (subst stringmatchlen.simps) simp
      qed
    qed
  qed
qed

section \<open>Properties\<close>

text \<open>C14: on a NUL terminated pattern and a non-empty string \<open>stringmatchlen\<close> reads nothing
  outside the pattern and decides exactly the match of the pattern's tokens.\<close>

theorem stringmatchlen_correct:
  assumes "str \<noteq> []"
  shows "stringmatchlen nocase (p @ 0 # z) (int (length p)) str =
           Some (gmatch nocase (parse_glob p) str)"
  using assms by (rule stringmatchlen_parse)

text \<open>The pattern is \<open>h[^a-d]*o\<close>, the string \<open>hello\<close>.\<close>

theorem stringmatchlen_correct_witness:
  "stringmatchlen False [104, 91, 94, 97, 45, 100, 93, 42, 111, 0] 9 [104, 101, 108, 108, 111] =
     Some True"
proof -
  have "parse_glob [104, 91, 94, 97, 45, 100, 93, 42, 111] =
      [GLit 104, GSet True [IRange 97 100], GStar, GLit 111]"
    by (simp add: parse_class.simps)
  then show ?thesis
    using stringmatchlen_correct [of "[104, 101, 108, 108, 111]" False
        "[104, 91, 94, 97, 45, 100, 93, 42, 111]" "[]"]
    by (simp add: in_range_def same_char_def)
qed


end
