(* ===== verification/Set_Interface.thy ===== *)
theory Set_Interface
  imports Redis_Prelude
begin

text \<open>
  The interface of a finite set with a bounded capacity, as the set data types of the server use
  it: insertion and deletion report whether they changed the set, membership is a test that may
  reorganise the representation and keeps the elements, and every operation may fail (\<open>None\<close>) only outside the contract. The client lemma is about whole
  sequences of operations: an implementation that keeps the contract answers every sequence as
  the mathematical set does.
\<close>

section \<open>Sequences of operations\<close>

datatype 'e set_op = Add 'e | Del 'e | Test 'e

fun op_elem :: "'e set_op \<Rightarrow> 'e" where
  "op_elem (Add e) = e"
| "op_elem (Del e) = e"
| "op_elem (Test e) = e"

fun run_ops :: "('s \<Rightarrow> 'e \<Rightarrow> ('s \<times> bool) option) \<Rightarrow> ('s \<Rightarrow> 'e \<Rightarrow> ('s \<times> bool) option) \<Rightarrow>
    ('s \<Rightarrow> 'e \<Rightarrow> ('s \<times> bool) option) \<Rightarrow> 's \<Rightarrow> 'e set_op list \<Rightarrow> ('s \<times> bool list) option" where
  "run_ops add del mem s [] = Some (s, [])"
| "run_ops add del mem s (Add e # os) =
     do { (s, r) \<leftarrow> add s e; (s, rs) \<leftarrow> run_ops add del mem s os; Some (s, r # rs) }"
| "run_ops add del mem s (Del e # os) =
     do { (s, r) \<leftarrow> del s e; (s, rs) \<leftarrow> run_ops add del mem s os; Some (s, r # rs) }"
| "run_ops add del mem s (Test e # os) =
     do { (s, r) \<leftarrow> mem s e; (s, rs) \<leftarrow> run_ops add del mem s os; Some (s, r # rs) }"

text \<open>The same sequence on a mathematical set.\<close>

fun set_ops :: "'e set \<Rightarrow> 'e set_op list \<Rightarrow> 'e set \<times> bool list" where
  "set_ops A [] = (A, [])"
| "set_ops A (Add e # os) = (let (B, rs) = set_ops (insert e A) os in (B, (e \<notin> A) # rs))"
| "set_ops A (Del e # os) = (let (B, rs) = set_ops (A - {e}) os in (B, (e \<in> A) # rs))"
| "set_ops A (Test e # os) = (let (B, rs) = set_ops A os in (B, (e \<in> A) # rs))"

section \<open>The interface\<close>

locale bounded_set =
  fixes inv :: "'s \<Rightarrow> bool" and elems :: "'s \<Rightarrow> 'e set" and elem_ok :: "'e \<Rightarrow> bool"
    and capacity :: nat and empty :: 's
    and add :: "'s \<Rightarrow> 'e \<Rightarrow> ('s \<times> bool) option" and del :: "'s \<Rightarrow> 'e \<Rightarrow> ('s \<times> bool) option"
    and mem :: "'s \<Rightarrow> 'e \<Rightarrow> ('s \<times> bool) option"
  assumes inv_empty: "inv empty" and elems_empty: "elems empty = {}"
    and finite_elems: "inv s \<Longrightarrow> finite (elems s)"
    and add_law: "inv s \<Longrightarrow> elem_ok e \<Longrightarrow> card (elems s) < capacity \<Longrightarrow>
      \<exists>s'. add s e = Some (s', e \<notin> elems s) \<and> inv s' \<and> elems s' = insert e (elems s)"
    and del_law: "inv s \<Longrightarrow> elem_ok e \<Longrightarrow>
      \<exists>s'. del s e = Some (s', e \<in> elems s) \<and> inv s' \<and> elems s' = elems s - {e}"
    and mem_law: "inv s \<Longrightarrow> elem_ok e \<Longrightarrow>
      \<exists>s'. mem s e = Some (s', e \<in> elems s) \<and> inv s' \<and> elems s' = elems s"
begin

lemma run_ops_set_ops:
  assumes "inv s" and "\<forall>oper \<in> set os. elem_ok (op_elem oper)"
    and "card (elems s) + length os \<le> capacity"
  shows "\<exists>s'. run_ops add del mem s os = Some (s', snd (set_ops (elems s) os)) \<and>
    inv s' \<and> elems s' = fst (set_ops (elems s) os)"
  using assms
proof (induction os arbitrary: s)
  case Nil
  then show ?case by simp
next
  case (Cons oper os)
  have fin: "finite (elems s)" using Cons.prems(1) by (rule finite_elems)
  show ?case
  proof (cases oper)
    case (Add e)
    then obtain s' where s': "add s e = Some (s', e \<notin> elems s)" "inv s'"
        "elems s' = insert e (elems s)"
      using add_law [of s e] Cons.prems by auto
    then have "card (elems s') + length os \<le> capacity"
      using Cons.prems(3) fin by (simp add: card_insert_if)
    then show ?thesis
      using Cons.IH [OF s'(2)] Cons.prems(2) s' Add by (auto simp: split_def Let_def)
  next
    case (Del e)
    then obtain s' where s': "del s e = Some (s', e \<in> elems s)" "inv s'"
        "elems s' = elems s - {e}"
      using del_law [of s e] Cons.prems by auto
    then have "card (elems s') + length os \<le> capacity"
      using Cons.prems(3) card_Diff1_le [of "elems s" e] by simp
    then show ?thesis
      using Cons.IH [OF s'(2)] Cons.prems(2) s' Del by (auto simp: split_def Let_def)
  next
    case (Test e)
    then obtain s' where s': "mem s e = Some (s', e \<in> elems s)" "inv s'" "elems s' = elems s"
      using mem_law [of s e] Cons.prems by auto
    then show ?thesis
      using Cons.IH [OF s'(2)] Cons.prems(2,3) s' Test by (auto simp: split_def Let_def)
  qed
qed

lemma run_ops_from_empty:
  assumes "\<forall>oper \<in> set os. elem_ok (op_elem oper)" and "length os \<le> capacity"
  shows "\<exists>s'. run_ops add del mem empty os = Some (s', snd (set_ops {} os)) \<and>
    inv s' \<and> elems s' = fst (set_ops {} os)"
  using run_ops_set_ops [OF inv_empty assms(1)] assms(2) elems_empty by simp

end

end
