(* ===== verification/Intset.thy ===== *)
theory Intset
  imports Set_Interface
begin

text \<open>
  The sorted set of integers of \<open>redis-6.0.10/src/intset.c\<close>: one block of memory that holds
  the members in increasing order, each in 2, 4 or 8 little-endian bytes.

  The record \<open>intset\<close> has the two header fields and the bytes of \<open>contents\<close>. The fields are
  stored little-endian on every host (\<open>intrev32ifbe\<close>, \<open>memrev64ifbe\<close> and so on convert on
  big-endian hosts), so the model holds their values and the bytes as they are in memory.
  The fields and the sizes computed from them are \<open>uint32_t\<close>: additions and products are
  reduced modulo \<open>2 ^ 32\<close> where the source stores them, and positions become \<open>int\<close> where
  the source converts them. An access outside \<open>contents\<close> is \<open>None\<close>.

  The reference is the strictly increasing list of the members.
\<close>

section \<open>Definitions\<close>

record intset =
  encoding :: nat
  is_length :: nat
  contents :: bytes

definition intsetValueEncoding :: "int \<Rightarrow> nat" where
  "intsetValueEncoding v =
     (if v < - 2147483648 \<or> v > 2147483647 then 8
      else if v < - 32768 \<or> v > 32767 then 4
      else 2)"

text \<open>The width in bytes that an encoding stands for.\<close>

definition enc_width :: "nat \<Rightarrow> nat" where
  "enc_width enc = (if enc = 8 then 8 else if enc = 4 then 4 else 2)"

definition intsetGetEncoded :: "intset \<Rightarrow> int \<Rightarrow> nat \<Rightarrow> int option" where
  "intsetGetEncoded is pos enc =
     (if pos < 0 then None
      else map_option (le_sint (enc_width enc))
             (mem_read (contents is) (nat pos * enc_width enc) (enc_width enc)))"

definition intsetGet_at :: "intset \<Rightarrow> int \<Rightarrow> int option" where
  "intsetGet_at is pos = intsetGetEncoded is pos (encoding is)"

definition intsetSet :: "intset \<Rightarrow> int \<Rightarrow> int \<Rightarrow> intset option" where
  "intsetSet is pos v =
     (let w = enc_width (encoding is) in
      if pos < 0 then None
      else map_option (\<lambda>c. is\<lparr>contents := c\<rparr>)
             (mem_write (contents is) (nat pos * w) (le_bytes w v)))"

definition intsetNew :: intset where
  "intsetNew = \<lparr>encoding = 2, is_length = 0, contents = []\<rparr>"

definition intsetResize :: "(nat \<Rightarrow> byte) \<Rightarrow> intset \<Rightarrow> nat \<Rightarrow> intset" where
  "intsetResize junk is len =
     (let sz = u32 (len * encoding is)
      in is\<lparr>contents := resize_block junk (contents is) sz\<rparr>)"

text \<open>The binary search loop; its result is the final \<open>min\<close>, \<open>mid\<close> and \<open>cur\<close>.\<close>

partial_function (option) intsetSearch_loop ::
    "intset \<Rightarrow> int \<Rightarrow> int \<Rightarrow> int \<Rightarrow> int \<Rightarrow> int \<Rightarrow> (int \<times> int \<times> int) option" where
  "intsetSearch_loop is v mn mx mid cur =
     (if mx \<ge> mn then
        (let mid = ((mn mod 2 ^ 32 + mx mod 2 ^ 32) mod 2 ^ 32) div 2 in
         Option.bind (intsetGet_at is mid) (\<lambda>cur.
           if v > cur then intsetSearch_loop is v (mid + 1) mx mid cur
           else if v < cur then intsetSearch_loop is v mn (mid - 1) mid cur
           else Some (mn, mid, cur)))
      else Some (mn, mid, cur))"

definition intsetSearch :: "intset \<Rightarrow> int \<Rightarrow> (bool \<times> nat) option" where
  "intsetSearch is v =
     (let mx = s32 (u32_sub (is_length is) 1) in
      if is_length is = 0 then Some (False, 0)
      else do { top \<leftarrow> intsetGet_at is mx;
                if v > top then Some (False, is_length is)
                else do { bot \<leftarrow> intsetGet_at is 0;
                  if v < bot then Some (False, 0)
                  else do { (mn, mid, cur) \<leftarrow> intsetSearch_loop is v 0 mx (- 1) (- 1);
                    if v = cur then Some (True, nat mid) else Some (False, nat mn) }}})"

text \<open>The upgrade loop \<open>while (length--)\<close>, from the last element to the first.\<close>

fun intsetUpgrade_loop :: "nat \<Rightarrow> int \<Rightarrow> intset \<Rightarrow> nat \<Rightarrow> intset option" where
  "intsetUpgrade_loop curenc prepend is 0 = Some is"
| "intsetUpgrade_loop curenc prepend is (Suc n) =
     do { v \<leftarrow> intsetGetEncoded is (int n) curenc;
          is \<leftarrow> intsetSet is (int n + prepend) v;
          intsetUpgrade_loop curenc prepend is n }"

definition intsetUpgradeAndAdd :: "(nat \<Rightarrow> byte) \<Rightarrow> intset \<Rightarrow> int \<Rightarrow> intset option" where
  "intsetUpgradeAndAdd junk is v =
     (let curenc = encoding is;
          newenc = intsetValueEncoding v;
          len = s32 (is_length is);
          prepend = (if v < 0 then 1 else 0);
          is = is\<lparr>encoding := newenc\<rparr>;
          is = intsetResize junk is (u32 (is_length is + 1))
      in if len < 0 then None
         else do { is \<leftarrow> intsetUpgrade_loop curenc prepend is (nat len);
                   is \<leftarrow> (if prepend \<noteq> 0 then intsetSet is 0 v
                          else intsetSet is (s32 (is_length is)) v);
                   Some (is\<lparr>is_length := u32 (is_length is + 1)\<rparr>) })"

definition intsetMoveTail :: "intset \<Rightarrow> nat \<Rightarrow> nat \<Rightarrow> intset option" where
  "intsetMoveTail is from to =
     (let w = enc_width (encoding is);
          n = u32 (u32_sub (is_length is) from * w)
      in map_option (\<lambda>c. is\<lparr>contents := c\<rparr>)
           (mem_move (contents is) (to * w) (from * w) n))"

definition intsetAdd :: "(nat \<Rightarrow> byte) \<Rightarrow> intset \<Rightarrow> int \<Rightarrow> (intset \<times> bool) option" where
  "intsetAdd junk is v =
     (if intsetValueEncoding v > encoding is then
        map_option (\<lambda>is. (is, True)) (intsetUpgradeAndAdd junk is v)
      else do { (found, pos) \<leftarrow> intsetSearch is v;
                if found then Some (is, False)
                else do {
                  is \<leftarrow> Some (intsetResize junk is (u32 (is_length is + 1)));
                  is \<leftarrow> (if pos < is_length is then intsetMoveTail is pos (u32 (pos + 1))
                         else Some is);
                  is \<leftarrow> intsetSet is (s32 pos) v;
                  Some (is\<lparr>is_length := u32 (is_length is + 1)\<rparr>, True) }})"

definition intsetRemove :: "(nat \<Rightarrow> byte) \<Rightarrow> intset \<Rightarrow> int \<Rightarrow> (intset \<times> bool) option" where
  "intsetRemove junk is v =
     (if intsetValueEncoding v \<le> encoding is then
        do { (found, pos) \<leftarrow> intsetSearch is v;
             if found then
               (let len = is_length is in
                do { is \<leftarrow> (if pos < u32_sub len 1 then intsetMoveTail is (u32 (pos + 1)) pos
                            else Some is);
                     is \<leftarrow> Some (intsetResize junk is (u32_sub len 1));
                     Some (is\<lparr>is_length := u32_sub len 1\<rparr>, True) })
             else Some (is, False) }
      else Some (is, False))"

definition intsetFind :: "intset \<Rightarrow> int \<Rightarrow> bool option" where
  "intsetFind is v =
     (if intsetValueEncoding v \<le> encoding is then map_option fst (intsetSearch is v)
      else Some False)"

text \<open>\<open>rnd\<close> is the value of \<open>rand()\<close>; the remainder by a zero length is an error.\<close>

definition intsetRandom :: "intset \<Rightarrow> nat \<Rightarrow> int option" where
  "intsetRandom is rnd =
     (if is_length is = 0 then None else intsetGet_at is (s32 (rnd mod is_length is)))"

definition intsetGet :: "intset \<Rightarrow> nat \<Rightarrow> int option option" where
  "intsetGet is pos =
     (if pos < is_length is then map_option Some (intsetGet_at is (s32 pos)) else Some None)"

definition intsetLen :: "intset \<Rightarrow> nat" where
  "intsetLen is = is_length is"

definition intsetBlobLen :: "intset \<Rightarrow> nat" where
  "intsetBlobLen is = 8 + u32 (is_length is * encoding is)"

section \<open>Representation\<close>

definition in_enc :: "nat \<Rightarrow> int \<Rightarrow> bool" where
  "in_enc w v \<longleftrightarrow> - (2 ^ (8 * w - 1)) \<le> v \<and> v < 2 ^ (8 * w - 1)"

definition intset_vals :: "intset \<Rightarrow> int list" where
  "intset_vals is =
     (let w = encoding is in
      map (\<lambda>i. le_sint w (take w (drop (i * w) (contents is)))) [0..<is_length is])"

definition intset_rep :: "intset \<Rightarrow> int list \<Rightarrow> bool" where
  "intset_rep is xs \<longleftrightarrow>
     encoding is \<in> {2, 4, 8} \<and> is_length is = length xs \<and>
     contents is = concat (map (le_bytes (encoding is)) xs) \<and>
     list_all (in_enc (encoding is)) xs \<and> sorted_wrt (<) xs"

definition intset_wf :: "intset \<Rightarrow> bool" where
  "intset_wf is \<longleftrightarrow> intset_rep is (intset_vals is)"

text \<open>
  The sizes in bytes that do not wrap around: those of the present members at the widest
  encoding, and those with room for one more member.
\<close>

definition intset_fits :: "intset \<Rightarrow> bool" where
  "intset_fits is \<longleftrightarrow> is_length is * 8 < 2 ^ 32"

definition intset_room :: "intset \<Rightarrow> bool" where
  "intset_room is \<longleftrightarrow> (is_length is + 1) * 8 < 2 ^ 32"

section \<open>Sorted lists\<close>

definition ins_pos :: "int list \<Rightarrow> int \<Rightarrow> nat" where
  "ins_pos xs v = length (takeWhile (\<lambda>x. x < v) xs)"

definition ins_sorted :: "int \<Rightarrow> int list \<Rightarrow> int list" where
  "ins_sorted v xs = take (ins_pos xs v) xs @ v # drop (ins_pos xs v) xs"

lemma ins_pos_le: "ins_pos xs v \<le> length xs"
  by (simp add: ins_pos_def length_takeWhile_le)

lemma ins_pos_eqI:
  assumes "n \<le> length xs" and "\<And>i. i < n \<Longrightarrow> xs ! i < v" and "n < length xs \<Longrightarrow> v \<le> xs ! n"
  shows "ins_pos xs v = n"
proof -
  have "takeWhile (\<lambda>x. x < v) xs = take n xs"
    using assms by (intro takeWhile_eq_take_P_nth) auto
  then show ?thesis using assms(1) by (simp add: ins_pos_def)
qed

lemma take_ins_pos: "take (ins_pos xs v) xs = takeWhile (\<lambda>x. x < v) xs"
  by (simp add: ins_pos_def takeWhile_eq_take [symmetric])

lemma drop_ins_pos: "drop (ins_pos xs v) xs = dropWhile (\<lambda>x. x < v) xs"
  by (simp add: ins_pos_def dropWhile_eq_drop)

lemma sorted_dropWhile_less:
  "sorted_wrt (<) xs \<Longrightarrow> v \<notin> set xs \<Longrightarrow> x \<in> set (dropWhile (\<lambda>x. x < v) xs) \<Longrightarrow> v < (x::int)"
  by (induction xs) (auto split: if_splits)

lemma set_ins_sorted: "set (ins_sorted v xs) = insert v (set xs)"
proof -
  have "set (take (ins_pos xs v) xs @ drop (ins_pos xs v) xs) = set xs" by simp
  then show ?thesis unfolding ins_sorted_def set_append by auto
qed

lemma sorted_ins_sorted:
  assumes "sorted_wrt (<) xs" and "v \<notin> set xs"
  shows "sorted_wrt (<) (ins_sorted v xs)"
proof -
  have "sorted_wrt (<) (takeWhile (\<lambda>x. x < v) xs @ dropWhile (\<lambda>x. x < v) xs)"
    using assms(1) by simp
  then show ?thesis
    unfolding ins_sorted_def take_ins_pos drop_ins_pos sorted_wrt_append
    using sorted_dropWhile_less [OF assms] by (auto dest: set_takeWhileD)
qed

lemma length_ins_sorted: "length (ins_sorted v xs) = Suc (length xs)"
  by (simp add: ins_sorted_def ins_pos_le)

lemma ins_pos_mem:
  assumes "sorted_wrt (<) xs" and "v \<in> set xs"
  shows "ins_pos xs v < length xs" and "xs ! ins_pos xs v = v"
proof -
  obtain k where k: "k < length xs" "xs ! k = v" using assms(2) by (auto simp: in_set_conv_nth)
  have "ins_pos xs v = k"
    using k assms(1) by (intro ins_pos_eqI) (auto simp: sorted_wrt_iff_nth_less)
  then show "ins_pos xs v < length xs" and "xs ! ins_pos xs v = v"
    using k by simp_all
qed

definition del_sorted :: "int \<Rightarrow> int list \<Rightarrow> int list" where
  "del_sorted v xs = take (ins_pos xs v) xs @ drop (Suc (ins_pos xs v)) xs"

lemma del_sorted_filter:
  assumes "sorted_wrt (<) xs" and "v \<in> set xs"
  shows "del_sorted v xs = filter (\<lambda>x. x \<noteq> v) xs"
proof -
  let ?p = "ins_pos xs v"
  have xs: "xs = take ?p xs @ v # drop (Suc ?p) xs"
    using ins_pos_mem [OF assms] by (metis id_take_nth_drop)
  have "distinct xs" using assms(1) by (simp add: strict_sorted_iff)
  then have "v \<notin> set (take ?p xs)" "v \<notin> set (drop (Suc ?p) xs)"
    using xs by (metis distinct_append distinct.simps(2) disjoint_iff list.set_intros(1))+
  then have "filter (\<lambda>x. x \<noteq> v) (take ?p xs) = take ?p xs"
    and "filter (\<lambda>x. x \<noteq> v) (drop (Suc ?p) xs) = drop (Suc ?p) xs"
    by (auto intro!: filter_True)
  then have "filter (\<lambda>x. x \<noteq> v) (take ?p xs @ v # drop (Suc ?p) xs) =
      take ?p xs @ drop (Suc ?p) xs"
    by simp
  then show ?thesis using xs del_sorted_def by simp
qed

section \<open>Reading\<close>

lemma enc_width_id: "e \<in> {2, 4, 8} \<Longrightarrow> enc_width e = e"
  by (auto simp: enc_width_def)

lemma in_enc_le_sint: "w \<in> {2, 4, 8} \<Longrightarrow> in_enc w v \<Longrightarrow> le_sint w (le_bytes w v) = v"
  by (rule le_sint_le_bytes) (auto simp: in_enc_def)

lemma le_bytes_chunks: "\<forall>b \<in> set (map (le_bytes w) xs). length b = w"
  by simp

lemma mem_read_encoded:
  "i < length xs \<Longrightarrow>
   mem_read (concat (map (le_bytes w) xs)) (i * w) w = Some (le_bytes w (xs ! i))"
  using mem_read_chunks [OF le_bytes_chunks [of w xs], of i] by simp

lemma rep_get:
  assumes "intset_rep is xs" and "i < length xs"
  shows "intsetGet_at is (int i) = Some (xs ! i)"
  using assms
  by (auto simp: intset_rep_def intsetGet_at_def intsetGetEncoded_def enc_width_id
      mem_read_encoded list_all_length intro!: in_enc_le_sint)

lemma rep_vals:
  assumes "intset_rep is xs"
  shows "intset_vals is = xs"
proof (rule nth_equalityI)
  show len: "length (intset_vals is) = length xs"
    using assms by (simp add: intset_vals_def intset_rep_def Let_def)
  fix i assume "i < length (intset_vals is)"
  then have i: "i < length xs" using len by simp
  have "take (encoding is) (drop (i * encoding is) (contents is)) =
      le_bytes (encoding is) (xs ! i)"
    using assms i chunk_concat_chunks [OF le_bytes_chunks [of "encoding is" xs], of i]
    by (simp add: intset_rep_def)
  then show "intset_vals is ! i = xs ! i"
    using assms i by (auto simp: intset_vals_def intset_rep_def Let_def list_all_length
        intro!: in_enc_le_sint)
qed

lemma rep_wf: "intset_rep is xs \<Longrightarrow> intset_wf is"
  by (simp add: intset_wf_def rep_vals)

section \<open>Searching\<close>

lemma search_mid:
  assumes "0 \<le> mn" and "mn \<le> mx" and "mx < 2 ^ 31"
  shows "((mn mod 2 ^ 32 + mx mod 2 ^ 32) mod 2 ^ 32) div 2 = (mn + mx) div (2::int)"
  using assms by (simp add: mod_pos_pos_trivial)

lemma intsetSearch_loop_correct:
  assumes rep: "intset_rep is xs" and len: "length xs < 2 ^ 31"
  shows "0 \<le> mn \<Longrightarrow> mx < int (length xs) \<Longrightarrow> mn \<le> mx + 1 \<Longrightarrow>
    (\<forall>i < nat mn. xs ! i < v) \<Longrightarrow> (\<forall>i < length xs. mx < int i \<longrightarrow> v < xs ! i) \<Longrightarrow>
    mn \<le> mx \<or> cur \<noteq> v \<Longrightarrow>
    \<exists>mn' mid' cur'. intsetSearch_loop is v mn mx mid cur = Some (mn', mid', cur') \<and>
      (if v \<in> set xs then cur' = v \<and> mid' = int (ins_pos xs v)
       else cur' \<noteq> v \<and> mn' = int (ins_pos xs v))"
proof (induction "nat (mx - mn + 1)" arbitrary: mn mx mid cur rule: less_induct)
  case less
  have srt: "sorted_wrt (<) xs" using rep by (simp add: intset_rep_def)
  show ?case
  proof (cases "mn \<le> mx")
    case False
    then have mn: "mn = mx + 1" using less.prems by simp
    have "ins_pos xs v = nat mn"
      using less.prems mn by (intro ins_pos_eqI) (auto simp: nat_less_iff less_imp_le)
    moreover have "v \<notin> set xs"
    proof
      assume "v \<in> set xs"
      then have "xs ! nat mn = v" "nat mn < length xs"
        using ins_pos_mem [OF srt \<open>v \<in> set xs\<close>] \<open>ins_pos xs v = nat mn\<close> by simp_all
      moreover have "mx < int (nat mn)" using mn less.prems(1) by simp
      ultimately show False using less.prems(5) by blast
    qed
    ultimately show ?thesis
      using False less.prems by (subst intsetSearch_loop.simps) simp
  next
    case True
    let ?mid = "(mn + mx) div 2"
    have b: "mn \<le> ?mid" "?mid \<le> mx" using True by auto
    have mid: "((mn mod 2 ^ 32 + mx mod 2 ^ 32) mod 2 ^ 32) div 2 = ?mid"
      using less.prems True len by (intro search_mid) auto
    have k: "nat ?mid < length xs" "int (nat ?mid) = ?mid"
      using b less.prems by auto
    have get: "intsetGet_at is ?mid = Some (xs ! nat ?mid)"
      using rep_get [OF rep k(1)] k(2) by simp
    note unfold = intsetSearch_loop.simps [of "is" v mn mx mid cur, unfolded mid Let_def get]
    consider "v > xs ! nat ?mid" | "v < xs ! nat ?mid" | "v = xs ! nat ?mid" by linarith
    then show ?thesis
    proof cases
      case 1
      have le: "\<forall>i < nat (?mid + 1). xs ! i < v"
      proof (intro allI impI)
        fix i assume "i < nat (?mid + 1)"
        then have "i = nat ?mid \<or> i < nat ?mid" using b less.prems(1) by auto
        then show "xs ! i < v"
          using 1 srt k(1) by (auto simp: sorted_wrt_iff_nth_less dest: less_trans)
      qed
      have eq: "intsetSearch_loop is v mn mx mid cur =
          intsetSearch_loop is v (?mid + 1) mx ?mid (xs ! nat ?mid)"
        using 1 True unfold by simp
      have ne: "xs ! nat ?mid \<noteq> v" using 1 by simp
      show ?thesis
        unfolding eq using less.prems b le ne by (intro less.hyps) auto
    next
      case 2
      have ge: "\<forall>i < length xs. ?mid - 1 < int i \<longrightarrow> v < xs ! i"
      proof (intro allI impI)
        fix i assume "i < length xs" "?mid - 1 < int i"
        then have "i = nat ?mid \<or> nat ?mid < i" by auto
        then show "v < xs ! i"
          using 2 srt \<open>i < length xs\<close> by (auto simp: sorted_wrt_iff_nth_less dest: less_trans)
      qed
      have eq: "intsetSearch_loop is v mn mx mid cur =
          intsetSearch_loop is v mn (?mid - 1) ?mid (xs ! nat ?mid)"
        using 2 True unfold by simp
      have ne: "xs ! nat ?mid \<noteq> v" using 2 by simp
      show ?thesis
        unfolding eq using less.prems b ge ne by (intro less.hyps) auto
    next
      case 3
      then have "v \<in> set xs" using k(1) by simp
      moreover have "ins_pos xs v = nat ?mid"
        using 3 srt k(1) by (intro ins_pos_eqI) (auto simp: sorted_wrt_iff_nth_less)
      ultimately show ?thesis using 3 True unfold k(2) by simp
    qed
  qed
qed

lemma intsetSearch_eq:
  assumes rep: "intset_rep is xs" and len: "length xs < 2 ^ 31"
  shows "intsetSearch is v = Some (v \<in> set xs, ins_pos xs v)"
proof (cases "xs = []")
  case True
  then show ?thesis
    using rep by (simp add: intsetSearch_def intset_rep_def ins_pos_def)
next
  case False
  let ?m = "length xs - 1"
  have srt: "sorted_wrt (<) xs" using rep by (simp add: intset_rep_def)
  have n: "is_length is = length xs" using rep by (simp add: intset_rep_def)
  have mx: "s32 (u32_sub (is_length is) 1) = int ?m"
    using n False len by (subst u32_sub_id) (auto simp: s32_id Suc_le_eq)
  have get: "intsetGet_at is (int ?m) = Some (xs ! ?m)" "intsetGet_at is 0 = Some (xs ! 0)"
    using rep_get [OF rep, of ?m] rep_get [OF rep, of 0] False by simp_all
  consider (above) "v > xs ! ?m" | (below) "v < xs ! 0" "\<not> v > xs ! ?m"
    | (inside) "\<not> v > xs ! ?m" "\<not> v < xs ! 0"
    by linarith
  then show ?thesis
  proof cases
    case above
    have all: "xs ! i < v" if "i < length xs" for i
    proof (cases "i = ?m")
      case False
      then have "xs ! i < xs ! ?m"
        using that sorted_wrt_nth_less [OF srt, of i ?m] by simp
      then show ?thesis using above by simp
    qed (use above in simp)
    then have "ins_pos xs v = length xs" by (intro ins_pos_eqI) auto
    moreover have "v \<notin> set xs" using all by (force simp: in_set_conv_nth)
    ultimately show ?thesis
      using above False n mx get by (simp add: intsetSearch_def)
  next
    case below
    have all: "v < xs ! i" if "i < length xs" for i
    proof (cases "i = 0")
      case False
      then have "xs ! 0 < xs ! i"
        using that sorted_wrt_nth_less [OF srt, of 0 i] by simp
      then show ?thesis using below by simp
    qed (use below in simp)
    then have "ins_pos xs v = 0" using False by (intro ins_pos_eqI) (auto simp: less_imp_le)
    moreover have "v \<notin> set xs" using all by (force simp: in_set_conv_nth)
    ultimately show ?thesis
      using below False n mx get by (simp add: intsetSearch_def)
  next
    case inside
    obtain mn' mid' cur' where
      "intsetSearch_loop is v 0 (int ?m) (- 1) (- 1) = Some (mn', mid', cur')"
      "if v \<in> set xs then cur' = v \<and> mid' = int (ins_pos xs v)
       else cur' \<noteq> v \<and> mn' = int (ins_pos xs v)"
      using intsetSearch_loop_correct [OF rep len, of 0 "int ?m" v "- 1" "- 1"] False by auto
    then show ?thesis
      using inside False n mx get by (auto simp: intsetSearch_def split: if_splits)
  qed
qed

lemma value_encoding_le:
  assumes "w \<in> {2, 4, 8}" and "int64_range v"
  shows "intsetValueEncoding v \<le> w \<longleftrightarrow> in_enc w v"
  using assms by (auto simp: intsetValueEncoding_def in_enc_def int64_range_def)

lemma value_encoding_in: "intsetValueEncoding v \<in> {2, 4, 8}"
  by (simp add: intsetValueEncoding_def)

lemma rep_encoding: "intset_rep is xs \<Longrightarrow> encoding is \<in> {2, 4, 8}"
  by (simp add: intset_rep_def)

lemma rep_not_in_enc:
  assumes "intset_rep is xs" and "int64_range v" and "encoding is < intsetValueEncoding v"
  shows "v \<notin> set xs"
proof
  assume "v \<in> set xs"
  then have "in_enc (encoding is) v" using assms(1) by (simp add: intset_rep_def list_all_iff)
  then show False
    using value_encoding_le [OF rep_encoding [OF assms(1)] assms(2)] assms(3) by simp
qed

lemma intsetFind_eq:
  assumes "intset_rep is xs" and "length xs < 2 ^ 31" and "int64_range v"
  shows "intsetFind is v = Some (v \<in> set xs)"
  using assms rep_not_in_enc [OF assms(1,3)]
  by (auto simp: intsetFind_def intsetSearch_eq not_le)

section \<open>Inserting and removing without a change of encoding\<close>

lemma resize_chunks_Suc:
  assumes "\<forall>b \<in> set bss. length b = w"
  shows "\<exists>J. length J = w \<and>
    resize_block junk (concat bss) (Suc (length bss) * w) = concat (bss @ [J])"
  using length_concat_chunks [OF assms]
  by (intro exI [of _ "map junk [length bss * w..<Suc (length bss) * w]"])
     (simp add: resize_block_def)

lemma resize_chunks_take:
  assumes "\<forall>b \<in> set bss. length b = w" and "k \<le> length bss"
  shows "resize_block junk (concat bss) (k * w) = concat (take k bss)"
proof -
  have "k * w \<le> length (concat bss)"
    using assms(2) length_concat_chunks [OF assms(1)] by simp
  then show ?thesis
    using assms(1) by (simp add: resize_block_def take_concat_chunks)
qed

lemma intsetSet_chunks:
  assumes "contents is = concat bss" and "\<forall>b \<in> set bss. length b = encoding is"
    and "encoding is \<in> {2, 4, 8}" and "i < length bss"
  shows "intsetSet is (int i) v =
     Some (is\<lparr>contents := concat (bss[i := le_bytes (encoding is) v])\<rparr>)"
  using assms by (simp add: intsetSet_def enc_width_id mem_write_chunks del: concat.simps)

lemma intsetMoveTail_chunks:
  assumes "contents is = concat bss" and "\<forall>b \<in> set bss. length b = encoding is"
    and "encoding is \<in> {2, 4, 8}" and "is_length is * encoding is < 2 ^ 32"
    and "from \<le> is_length is" and "is_length is \<le> length bss"
    and "to + (is_length is - from) \<le> length bss"
  shows "intsetMoveTail is from to =
     Some (is\<lparr>contents := concat (take to bss @ take (is_length is - from) (drop from bss) @
             drop (to + (is_length is - from)) bss)\<rparr>)"
proof -
  let ?n = "is_length is - from" and ?w = "encoding is"
  have "?n * ?w \<le> is_length is * ?w" by (simp only: mult_le_mono1 diff_le_self)
  then have "?n * ?w < 2 ^ 32" using assms(4) by (rule le_less_trans)
  moreover have "u32_sub (is_length is) from = ?n"
  proof (rule u32_sub_id [OF assms(5)])
    have "is_length is \<le> is_length is * ?w" using assms(3) by auto
    then show "is_length is < 2 ^ 32" using assms(4) by (rule le_less_trans)
  qed
  ultimately have "u32 (u32_sub (is_length is) from * ?w) = ?n * ?w"
    by (simp add: u32_id)
  then show ?thesis
    using assms mem_move_chunks [OF assms(2), of "from" ?n to]
    by (simp add: intsetMoveTail_def enc_width_id)
qed

lemma intset_rep_concat: "intset_rep is xs \<Longrightarrow>
  contents is = concat (map (le_bytes (encoding is)) xs)"
  by (simp add: intset_rep_def)

lemma rep_room_size:
  assumes "intset_rep is xs" and "intset_room is"
  shows "Suc (length xs) * encoding is < 2 ^ 32" and "length xs < 2 ^ 31"
  using assms by (auto simp: intset_rep_def intset_room_def)

lemma rep_fits_size:
  assumes "intset_rep is xs" and "intset_fits is"
  shows "length xs * encoding is < 2 ^ 32" and "length xs < 2 ^ 31"
  using assms by (auto simp: intset_rep_def intset_fits_def)

lemma shift_update:
  assumes "p \<le> length B"
  shows "(take (Suc p) (B @ [y]) @ drop p B)[p := x] = take p B @ x # drop p B"
proof (cases "p = length B")
  case True then show ?thesis by simp
next
  case False
  then show ?thesis
    using assms by (simp add: take_Suc_conv_app_nth list_update_append)
qed

lemma intsetAdd_same_encoding:
  assumes rep: "intset_rep is xs" and room: "intset_room is" and v: "int64_range v"
    and enc: "intsetValueEncoding v \<le> encoding is" and new: "v \<notin> set xs"
  shows "\<exists>is'. intsetAdd junk is v = Some (is', True) \<and> intset_rep is' (ins_sorted v xs)"
proof -
  let ?w = "encoding is" and ?n = "length xs" and ?p = "ins_pos xs v"
  let ?B = "map (le_bytes ?w) xs"
  have w: "?w \<in> {2, 4, 8}" using rep by (rule rep_encoding)
  have n: "is_length is = ?n" using rep by (simp add: intset_rep_def)
  note sz = rep_room_size [OF rep room]
  obtain J where J: "length J = ?w"
    "resize_block junk (concat ?B) (Suc (length ?B) * ?w) = concat (?B @ [J])"
    using resize_chunks_Suc [OF le_bytes_chunks [of ?w xs], of junk] by blast
  let ?is1 = "is\<lparr>contents := concat (?B @ [J])\<rparr>"
  have rs: "intsetResize junk is (u32 (is_length is + 1)) = ?is1"
    using J(2) sz n intset_rep_concat [OF rep] by (simp add: intsetResize_def u32_id)
  have chunks: "\<forall>b \<in> set (?B @ [J]). length b = ?w" using J(1) by auto
  define C where "C = take (Suc ?p) (?B @ [J]) @ drop ?p ?B"
  have mv: "(if ?p < is_length ?is1 then intsetMoveTail ?is1 ?p (u32 (?p + 1)) else Some ?is1) =
      Some (is\<lparr>contents := concat C\<rparr>)"
  proof (cases "?p < ?n")
    case True
    have "u32 (?p + 1) = Suc ?p" using True sz by (simp add: u32_id)
    then show ?thesis
      using True n w sz chunks intsetMoveTail_chunks [of ?is1 "?B @ [J]" ?p "Suc ?p"]
      by (simp add: C_def)
  next
    case False
    then have "?p = ?n" using ins_pos_le [of xs v] by simp
    then show ?thesis using n by (simp add: C_def)
  qed
  have lenC: "length C = Suc ?n" using ins_pos_le [of xs v] by (simp add: C_def)
  have chC: "\<forall>b \<in> set C. length b = ?w"
    using J(1) by (auto simp: C_def take_map drop_map dest: in_set_takeD)
  have upd: "C[?p := le_bytes ?w v] = map (le_bytes ?w) (ins_sorted v xs)"
    using shift_update [of ?p ?B J "le_bytes ?w v"] ins_pos_le [of xs v]
    by (simp add: C_def ins_sorted_def take_map drop_map)
  have st: "intsetSet (is\<lparr>contents := concat C\<rparr>) (s32 ?p) v =
      Some (is\<lparr>contents := concat (map (le_bytes ?w) (ins_sorted v xs))\<rparr>)"
  proof -
    have "s32 ?p = int ?p" using ins_pos_le [of xs v] sz(2) by (simp add: s32_id)
    then show ?thesis
      using intsetSet_chunks [of "is\<lparr>contents := concat C\<rparr>" C ?p v] chC w lenC ins_pos_le [of xs v]
      by (simp add: upd del: concat_append)
  qed
  let ?is' = "is\<lparr>contents := concat (map (le_bytes ?w) (ins_sorted v xs)), is_length := Suc ?n\<rparr>"
  have "intsetAdd junk is v =
      do { is2 \<leftarrow> (if ?p < is_length ?is1 then intsetMoveTail ?is1 ?p (u32 (?p + 1)) else Some ?is1);
           is3 \<leftarrow> intsetSet is2 (s32 ?p) v;
           Some (is3\<lparr>is_length := u32 (is_length is3 + 1)\<rparr>, True) }"
    unfolding intsetAdd_def
    using enc new intsetSearch_eq [OF rep sz(2)] rs by (simp add: not_less)
  then have "intsetAdd junk is v = Some (?is', True)"
    unfolding mv using st n sz by (simp add: u32_id)
  moreover have "intset_rep ?is' (ins_sorted v xs)"
    using rep w new sorted_ins_sorted [OF _ new] value_encoding_le [OF w v] enc
    by (auto simp: intset_rep_def length_ins_sorted list_all_iff set_ins_sorted)
  ultimately show ?thesis by blast
qed

section \<open>Inserting with a wider encoding\<close>

lemma intsetUpgrade_loop_correct:
  assumes "cw \<in> {2, 4, 8}" and "encoding is \<in> {2, 4, 8}" and "cw \<le> encoding is"
    and "p \<le> 1" and "list_all (in_enc cw) xs"
    and "take (length xs * cw) (contents is) = concat (map (le_bytes cw) xs)"
    and "(length xs + p) * encoding is \<le> length (contents is)"
  shows "\<exists>m. intsetUpgrade_loop cw (int p) is (length xs) = Some (is\<lparr>contents := m\<rparr>) \<and>
    length m = length (contents is) \<and>
    drop (p * encoding is) m = concat (map (le_bytes (encoding is)) xs) @
      drop ((length xs + p) * encoding is) (contents is)"
  using assms
proof (induction xs arbitrary: "is" rule: rev_induct)
  case Nil
  then show ?case by (intro exI [of _ "contents is"]) simp
next
  case (snoc y ys)
  let ?m = "contents is" and ?nw = "encoding is" and ?n = "length ys"
  let ?q = "(?n + p) * ?nw"
  have le: "?n * cw \<le> ?q" "Suc ?n * cw \<le> length ?m"
  proof -
    show "?n * cw \<le> ?q" using snoc.prems(3) by (intro mult_le_mono) auto
    have "Suc ?n * cw \<le> (length (ys @ [y]) + p) * ?nw"
      using snoc.prems(3) by (intro mult_le_mono) auto
    then show "Suc ?n * cw \<le> length ?m" using snoc.prems(7) by (rule order_trans)
  qed
  have q: "?q + ?nw \<le> length ?m" using snoc.prems(7) by (simp add: algebra_simps)
  have tk: "take (Suc ?n * cw) ?m = concat (map (le_bytes cw) ys) @ le_bytes cw y"
    using snoc.prems(6) by simp
  have lenc: "length (concat (map (le_bytes cw) ys)) = ?n * cw"
    using length_concat_chunks [OF le_bytes_chunks [of cw ys]] by simp
  have "take cw (drop (?n * cw) ?m) = drop (?n * cw) (take (Suc ?n * cw) ?m)"
    by (simp add: drop_take)
  then have rd: "take cw (drop (?n * cw) ?m) = le_bytes cw y"
    unfolding tk using lenc by simp
  have get: "intsetGetEncoded is (int ?n) cw = Some y"
    using snoc.prems(1,5) le(2) rd
    by (simp add: intsetGetEncoded_def enc_width_id mem_simps in_enc_le_sint algebra_simps)
  define m1 where "m1 = take ?q ?m @ le_bytes ?nw y @ drop (?q + ?nw) ?m"
  have set: "intsetSet is (int ?n + int p) y = Some (is\<lparr>contents := m1\<rparr>)"
    using snoc.prems(2) q
    by (simp add: intsetSet_def enc_width_id mem_simps m1_def nat_add_distrib Let_def)
  have len1: "length m1 = length ?m" using q by (simp add: m1_def)
  have tk1: "take (?n * cw) m1 = concat (map (le_bytes cw) ys)"
  proof -
    have "take (?n * cw) m1 = take (?n * cw) (take (Suc ?n * cw) ?m)"
      using le q by (simp add: m1_def min_def)
    then show ?thesis unfolding tk using lenc by simp
  qed
  have dr1: "drop ?q m1 = le_bytes ?nw y @ drop ((Suc ?n + p) * ?nw) ?m"
    using q by (simp add: m1_def algebra_simps)
  obtain m where m: "intsetUpgrade_loop cw (int p) (is\<lparr>contents := m1\<rparr>) ?n =
      Some (is\<lparr>contents := m\<rparr>)" "length m = length m1"
      "drop (p * ?nw) m = concat (map (le_bytes ?nw) ys) @ drop ?q m1"
    using snoc.IH [of "is\<lparr>contents := m1\<rparr>"] snoc.prems tk1 q len1 by auto
  then show ?case
    using get set len1 dr1 by (intro exI [of _ m]) simp
qed

lemma ins_sorted_first: "\<forall>x \<in> set xs. v < x \<Longrightarrow> ins_sorted v xs = v # xs"
  by (cases xs) (auto simp: ins_sorted_def ins_pos_def)

lemma ins_sorted_last: "\<forall>x \<in> set xs. x < v \<Longrightarrow> ins_sorted v xs = xs @ [v]"
  by (simp add: ins_sorted_def ins_pos_def takeWhile_eq_all_conv [THEN iffD2])

lemma in_enc_mono: "in_enc w v \<Longrightarrow> w \<le> w' \<Longrightarrow> w \<noteq> 0 \<Longrightarrow> in_enc w' v"
  unfolding in_enc_def
  by (smt (verit) power_increasing [of "8 * w - 1" "8 * w' - 1" "2::int"] diff_le_mono mult_le_mono2)

lemma wider_value_outside:
  assumes "in_enc w x" and "\<not> in_enc w v"
  shows "if v < 0 then v < x else x < v"
  using assms by (auto simp: in_enc_def)

lemma ins_sorted_wider:
  assumes "list_all (in_enc w) xs" and "\<not> in_enc w v"
  shows "ins_sorted v xs = (if v < 0 then v # xs else xs @ [v])"
  using assms wider_value_outside [of w _ v] ins_sorted_first [of xs v] ins_sorted_last [of xs v]
  by (auto simp: list_all_iff split: if_splits)

lemma upgraded_chunks:
  assumes "length m = Suc (length xs) * w" and "p \<le> 1"
    and "drop (p * w) m = concat (map (le_bytes w) xs) @ T"
  shows "\<exists>J. length J = w \<and>
    m = concat (if p = 1 then J # map (le_bytes w) xs else map (le_bytes w) xs @ [J])"
proof -
  have l: "length (concat (map (le_bytes w) xs)) = length xs * w"
    using length_concat_chunks [OF le_bytes_chunks [of w xs]] by simp
  have lT: "length T = w - p * w"
    using arg_cong [OF assms(3), of length] assms(1,2) l by (auto simp: le_Suc_eq)
  show ?thesis
  proof (cases "p = 1")
    case True
    then show ?thesis
      using assms(1,3) lT append_take_drop_id [of w m]
      by (intro exI [of _ "take w m"]) simp
  next
    case False
    then have "p = 0" using assms(2) by simp
    then show ?thesis using assms(3) lT by (intro exI [of _ T]) simp
  qed
qed

lemma intsetAdd_upgrade:
  assumes rep: "intset_rep is xs" and room: "intset_room is" and v: "int64_range v"
    and enc: "encoding is < intsetValueEncoding v"
  shows "\<exists>is'. intsetAdd junk is v = Some (is', True) \<and> intset_rep is' (ins_sorted v xs)"
proof -
  let ?cw = "encoding is" and ?nw = "intsetValueEncoding v" and ?n = "length xs"
  define p :: nat where "p = (if v < 0 then 1 else 0)"
  have cw: "?cw \<in> {2, 4, 8}" using rep by (rule rep_encoding)
  note nw = value_encoding_in [of v]
  have n: "is_length is = ?n" using rep by (simp add: intset_rep_def)
  have allc: "list_all (in_enc ?cw) xs" using rep by (simp add: intset_rep_def)
  have sz: "?n < 2 ^ 31" "Suc ?n * ?nw < 2 ^ 32"
    using room n nw by (auto simp: intset_room_def)
  define is1 where "is1 = is\<lparr>encoding := ?nw,
      contents := resize_block junk (contents is) (Suc ?n * ?nw)\<rparr>"
  have rs: "intsetResize junk (is\<lparr>encoding := ?nw\<rparr>) (u32 (?n + 1)) = is1"
    using n sz by (simp add: intsetResize_def is1_def u32_id Let_def)
  have f1: "encoding is1 = ?nw" "is_length is1 = ?n" "length (contents is1) = Suc ?n * ?nw"
    using n by (simp_all add: is1_def length_resize_block)
  have lenc: "length (contents is) = ?n * ?cw"
    using intset_rep_concat [OF rep] length_concat_chunks [OF le_bytes_chunks [of ?cw xs]] by simp
  have "?n * ?cw \<le> Suc ?n * ?nw" using enc by (intro mult_le_mono) auto
  then have tk: "take (?n * ?cw) (contents is1) = concat (map (le_bytes ?cw) xs)"
    using lenc intset_rep_concat [OF rep] by (simp add: is1_def take_resize_block)
  have pre: "p \<le> 1" "(?n + p) * encoding is1 \<le> length (contents is1)"
    unfolding f1 by (auto simp: p_def)
  obtain m where m: "intsetUpgrade_loop ?cw (int p) is1 ?n = Some (is1\<lparr>contents := m\<rparr>)"
      "length m = Suc ?n * ?nw"
      "drop (p * ?nw) m = concat (map (le_bytes ?nw) xs) @ drop ((?n + p) * ?nw) (contents is1)"
    using intsetUpgrade_loop_correct [OF cw _ _ pre(1) allc tk pre(2)] nw enc f1
    by (metis less_imp_le)
  obtain J where J: "length J = ?nw"
      "m = concat (if p = 1 then J # map (le_bytes ?nw) xs else map (le_bytes ?nw) xs @ [J])"
    using upgraded_chunks [OF m(2) pre(1) m(3)] by blast
  define bss where "bss = (if v < 0 then J # map (le_bytes ?nw) xs else map (le_bytes ?nw) xs @ [J])"
  have mb: "m = concat bss" using J(2) by (simp add: bss_def p_def)
  have chunks: "\<forall>b \<in> set bss. length b = ?nw"
    using J(1) by (auto simp: bss_def)
  have lenb: "length bss = Suc ?n" by (simp add: bss_def)
  define k where "k = (if v < 0 then 0 else ?n)"
  have st: "intsetSet (is1\<lparr>contents := m\<rparr>) (int k) v =
      Some (is1\<lparr>contents := concat (bss[k := le_bytes ?nw v])\<rparr>)"
    using intsetSet_chunks [of "is1\<lparr>contents := m\<rparr>" bss k v] mb chunks f1(1) nw lenb
    by (simp add: k_def)
  have nin: "\<not> in_enc ?cw v" using value_encoding_le [OF cw v] enc by simp
  have "bss[k := le_bytes ?nw v] = map (le_bytes ?nw) (ins_sorted v xs)"
    unfolding ins_sorted_wider [OF allc nin] by (simp add: bss_def k_def list_update_append)
  note st = st [unfolded this]
  let ?is' = "is1\<lparr>contents := concat (map (le_bytes ?nw) (ins_sorted v xs)), is_length := Suc ?n\<rparr>"
  have "intsetUpgradeAndAdd junk is v = Some ?is'"
    unfolding intsetUpgradeAndAdd_def Let_def
    using rs m(1) st f1 n sz by (simp add: s32_id u32_id p_def k_def split: if_splits)
  moreover have "intset_rep ?is' (ins_sorted v xs)"
  proof -
    have "v \<notin> set xs" using nin allc by (auto simp: list_all_iff)
    moreover have "in_enc ?nw x" if "x \<in> set xs" for x
      using that allc enc cw by (intro in_enc_mono [of ?cw x ?nw]) (auto simp: list_all_iff)
    moreover have "in_enc ?nw v" using value_encoding_le [OF nw v] by simp
    ultimately show ?thesis
      using rep nw f1 sorted_ins_sorted
      by (auto simp: intset_rep_def length_ins_sorted list_all_iff set_ins_sorted)
  qed
  ultimately show ?thesis using enc by (auto simp: intsetAdd_def)
qed

section \<open>Removing\<close>

lemma intsetRemove_mem:
  assumes rep: "intset_rep is xs" and room: "intset_fits is" and v: "int64_range v"
    and old: "v \<in> set xs"
  shows "\<exists>is'. intsetRemove junk is v = Some (is', True) \<and> intset_rep is' (del_sorted v xs)"
proof -
  let ?w = "encoding is" and ?n = "length xs" and ?p = "ins_pos xs v"
  let ?B = "map (le_bytes ?w) xs"
  have w: "?w \<in> {2, 4, 8}" using rep by (rule rep_encoding)
  have n: "is_length is = ?n" using rep by (simp add: intset_rep_def)
  have srt: "sorted_wrt (<) xs" using rep by (simp add: intset_rep_def)
  note sz = rep_fits_size [OF rep room] and p = ins_pos_mem [OF srt old]
  have enc: "intsetValueEncoding v \<le> ?w"
    using rep_not_in_enc [OF rep v] old by force
  have l1: "u32_sub ?n 1 = ?n - 1" using p(1) sz by (intro u32_sub_id) auto
  define C where "C = (if ?p < ?n - 1 then take ?p ?B @ drop (Suc ?p) ?B @ drop (?n - 1) ?B else ?B)"
  have mv: "(if ?p < u32_sub ?n 1 then intsetMoveTail is (u32 (?p + 1)) ?p else Some is) =
      Some (is\<lparr>contents := concat C\<rparr>)"
  proof (cases "?p < ?n - 1")
    case True
    have "u32 (?p + 1) = Suc ?p" using True sz by (simp add: u32_id)
    then show ?thesis
      using True n w l1 sz intset_rep_concat [OF rep] intsetMoveTail_chunks [of "is" ?B "Suc ?p" ?p]
      by (simp add: C_def)
  next
    case False
    then show ?thesis using l1 intset_rep_concat [OF rep] by (simp add: C_def)
  qed
  have chC: "\<forall>b \<in> set C. length b = ?w" by (auto simp: C_def take_map drop_map)
  have lenC: "?n - 1 \<le> length C" using p(1) by (auto simp: C_def)
  have tkC: "take (?n - 1) C = map (le_bytes ?w) (del_sorted v xs)"
  proof (cases "?p < ?n - 1")
    case False
    then have "?p = ?n - 1" using p(1) by simp
    then show ?thesis using p(1) by (simp add: C_def del_sorted_def take_map)
  qed (simp add: C_def del_sorted_def take_map drop_map)
  have rs: "intsetResize junk (is\<lparr>contents := concat C\<rparr>) (?n - 1) =
      is\<lparr>contents := concat (map (le_bytes ?w) (del_sorted v xs))\<rparr>"
  proof -
    have "(?n - 1) * ?w < 2 ^ 32"
      using sz(1) by (rule le_less_trans [rotated]) (rule mult_le_mono1, simp)
    then show ?thesis
      using resize_chunks_take [OF chC lenC] tkC
      by (simp add: intsetResize_def u32_id Let_def)
  qed
  let ?is' = "is\<lparr>contents := concat (map (le_bytes ?w) (del_sorted v xs)), is_length := ?n - 1\<rparr>"
  have "intsetRemove junk is v = Some (?is', True)"
    unfolding intsetRemove_def Let_def
    using enc old intsetSearch_eq [OF rep sz(2)] mv rs l1 n by simp
  moreover have "length (del_sorted v xs) = ?n - 1"
    using p(1) by (simp add: del_sorted_def)
  then have "intset_rep ?is' (del_sorted v xs)"
    using rep srt del_sorted_filter [OF srt old]
    by (auto simp: intset_rep_def list_all_iff sorted_wrt_filter)
  ultimately show ?thesis by blast
qed

lemma intsetRemove_not_mem:
  assumes "intset_rep is xs" and "intset_fits is" and "int64_range v" and "v \<notin> set xs"
  shows "intsetRemove junk is v = Some (is, False)"
  using assms rep_fits_size [OF assms(1,2)] by (simp add: intsetRemove_def intsetSearch_eq)

lemma intsetAdd_mem:
  assumes "intset_rep is xs" and "intset_room is" and "int64_range v" and "v \<in> set xs"
  shows "intsetAdd junk is v = Some (is, False)"
  using assms rep_room_size [OF assms(1,2)] rep_not_in_enc [OF assms(1,3)]
  by (cases "intsetValueEncoding v \<le> encoding is") (auto simp: intsetAdd_def intsetSearch_eq)

lemma intsetAdd_new:
  assumes "intset_rep is xs" and "intset_room is" and "int64_range v" and "v \<notin> set xs"
  shows "\<exists>is'. intsetAdd junk is v = Some (is', True) \<and> intset_rep is' (ins_sorted v xs)"
  using assms intsetAdd_same_encoding [OF assms(1-3) _ assms(4)] intsetAdd_upgrade [OF assms(1-3)]
  by (cases "intsetValueEncoding v \<le> encoding is") (auto simp: not_le)

lemma intset_rep_new: "intset_rep intsetNew []"
  by (simp add: intset_rep_def intsetNew_def)

lemma wf_rep: "intset_wf is \<Longrightarrow> intset_rep is (intset_vals is)"
  by (simp add: intset_wf_def)

section \<open>Where the size wraps around\<close>

text \<open>The intset with the given members at the widest encoding.\<close>

definition intset_of :: "int list \<Rightarrow> intset" where
  "intset_of xs = \<lparr>encoding = 8, is_length = length xs, contents = concat (map (le_bytes 8) xs)\<rparr>"

lemma intset_rep_of_upt:
  assumes "n \<le> 2 ^ 63"
  shows "intset_rep (intset_of (map int [0..<n])) (map int [0..<n])"
  using assms by (auto simp: intset_rep_def intset_of_def list_all_iff in_enc_def sorted_wrt_map)

lemma intsetAdd_wraps:
  assumes rep: "intset_rep is xs" and len: "length xs = 2 ^ 29 - 1" and enc: "encoding is = 8"
    and v: "int64_range v" and new: "v \<notin> set xs"
  shows "intsetAdd junk is v = None"
proof -
  let ?p = "ins_pos xs v"
  have n: "is_length is = 2 ^ 29 - 1" using rep len by (simp add: intset_rep_def)
  have "intsetValueEncoding v \<le> 8" by (simp add: intsetValueEncoding_def)
  then have "intsetAdd junk is v =
      do { is2 \<leftarrow> (if ?p < 2 ^ 29 - 1 then intsetMoveTail (is\<lparr>contents := []\<rparr>) ?p (u32 (?p + 1))
                  else Some (is\<lparr>contents := []\<rparr>));
           is3 \<leftarrow> intsetSet is2 (s32 ?p) v;
           Some (is3\<lparr>is_length := u32 (is_length is3 + 1)\<rparr>, True) }"
    using enc new n len intsetSearch_eq [OF rep]
    by (simp add: intsetAdd_def intsetResize_def resize_block_def u32_def not_less Let_def)
  moreover have "intsetMoveTail (is\<lparr>contents := []\<rparr>) ?p (u32 (?p + 1)) = None" if "?p < 2 ^ 29 - 1"
  proof -
    have "u32_sub (is_length is) ?p = 2 ^ 29 - 1 - ?p"
      using that n by (subst u32_sub_id) simp_all
    moreover have "u32 ((2 ^ 29 - 1 - ?p) * 8) > 0"
      using that by (subst u32_id) simp_all
    ultimately show ?thesis
      using that n enc by (simp add: intsetMoveTail_def enc_width_def mem_move_def mem_read_def Let_def)
  qed
  moreover have "intsetSet (is\<lparr>contents := []\<rparr>) (s32 ?p) v = None"
    using enc by (simp add: intsetSet_def enc_width_def mem_write_def Let_def)
  ultimately show ?thesis by simp
qed

section \<open>The set interface\<close>

definition intset_ok :: "intset \<Rightarrow> bool" where
  "intset_ok is \<longleftrightarrow> intset_wf is \<and> intset_fits is"

lemma wf_card: "intset_wf is \<Longrightarrow> card (set (intset_vals is)) = is_length is"
  using wf_rep [of "is"] by (simp add: intset_rep_def strict_sorted_iff distinct_card)

lemma rep_vals_fits:
  assumes "intset_rep is' xs" and "length xs * 8 < 2 ^ 32"
  shows "intset_wf is' \<and> intset_fits is' \<and> intset_vals is' = xs"
  using assms rep_wf [OF assms(1)] rep_vals [OF assms(1)]
  by (simp add: intset_fits_def intset_rep_def)

lemma intsetAdd_wf:
  assumes "intset_wf is" and "intset_room is" and "int64_range v"
  shows "\<exists>is'. intsetAdd junk is v = Some (is', v \<notin> set (intset_vals is)) \<and>
    intset_wf is' \<and> intset_fits is' \<and>
    intset_vals is' = (if v \<in> set (intset_vals is) then intset_vals is
                       else ins_sorted v (intset_vals is))"
proof (cases "v \<in> set (intset_vals is)")
  case True
  then show ?thesis
    using intsetAdd_mem [OF wf_rep [OF assms(1)] assms(2,3)] assms(1,2)
    by (simp add: intset_fits_def intset_room_def)
next
  case False
  then obtain is' where is': "intsetAdd junk is v = Some (is', True)"
      "intset_rep is' (ins_sorted v (intset_vals is))"
    using intsetAdd_new [OF wf_rep [OF assms(1)] assms(2,3)] by blast
  moreover have "length (ins_sorted v (intset_vals is)) * 8 < 2 ^ 32"
    using assms(1,2) by (simp add: length_ins_sorted intset_room_def intset_wf_def intset_rep_def)
  ultimately show ?thesis using rep_vals_fits [OF is'(2)] False by simp
qed

lemma intsetRemove_wf:
  assumes "intset_wf is" and "intset_fits is" and "int64_range v"
  shows "\<exists>is'. intsetRemove junk is v = Some (is', v \<in> set (intset_vals is)) \<and>
    intset_wf is' \<and> intset_fits is' \<and>
    intset_vals is' = filter (\<lambda>x. x \<noteq> v) (intset_vals is)"
proof (cases "v \<in> set (intset_vals is)")
  case False
  then have "filter (\<lambda>x. x \<noteq> v) (intset_vals is) = intset_vals is"
    by (intro filter_True) auto
  then show ?thesis
    using intsetRemove_not_mem [OF wf_rep [OF assms(1)] assms(2,3) False] assms(1,2) False by simp
next
  case True
  have srt: "sorted_wrt (<) (intset_vals is)"
    using wf_rep [OF assms(1)] by (simp add: intset_rep_def)
  obtain is' where is': "intsetRemove junk is v = Some (is', True)"
      "intset_rep is' (filter (\<lambda>x. x \<noteq> v) (intset_vals is))"
    using intsetRemove_mem [OF wf_rep [OF assms(1)] assms(2,3) True]
    unfolding del_sorted_filter [OF srt True] by blast
  moreover have "length (filter (\<lambda>x. x \<noteq> v) (intset_vals is)) * 8 < 2 ^ 32"
  proof -
    have "length (intset_vals is) * 8 < 2 ^ 32"
      using assms(1,2) by (simp add: intset_fits_def intset_wf_def intset_rep_def)
    then show ?thesis
      using length_filter_le [of "\<lambda>x. x \<noteq> v" "intset_vals is"] by linarith
  qed
  ultimately show ?thesis using rep_vals_fits [OF is'(2)] True by simp
qed

interpretation ints: bounded_set intset_ok "\<lambda>is. set (intset_vals is)" int64_range
  "2 ^ 29 - 1" intsetNew "intsetAdd junk" "intsetRemove junk" "\<lambda>is v. map_option (Pair is) (intsetFind is v)"
proof
  show "intset_ok intsetNew"
    using rep_vals_fits [OF intset_rep_new] by (simp add: intset_ok_def)
  show "set (intset_vals intsetNew) = {}" using rep_vals [OF intset_rep_new] by simp
  fix "is" assume ok: "intset_ok is"
  show "finite (set (intset_vals is))" by simp
  fix v assume v: "int64_range v"
  show "\<exists>is'. intsetRemove junk is v = Some (is', v \<in> set (intset_vals is)) \<and> intset_ok is' \<and>
      set (intset_vals is') = set (intset_vals is) - {v}"
    using intsetRemove_wf [OF _ _ v, of "is" junk] ok by (auto simp: intset_ok_def)
  show "\<exists>is'. map_option (Pair is) (intsetFind is v) = Some (is', v \<in> set (intset_vals is)) \<and> intset_ok is' \<and>
      set (intset_vals is') = set (intset_vals is)"
    using intsetFind_eq [OF wf_rep] rep_fits_size [OF wf_rep] ok v by (simp add: intset_ok_def)
  assume "card (set (intset_vals is)) < 2 ^ 29 - 1"
  then have "intset_room is" using wf_card ok by (simp add: intset_ok_def intset_room_def)
  then show "\<exists>is'. intsetAdd junk is v = Some (is', v \<notin> set (intset_vals is)) \<and> intset_ok is' \<and>
      set (intset_vals is') = insert v (set (intset_vals is))"
    using intsetAdd_wf [OF _ _ v, of "is" junk] ok
    by (auto simp: intset_ok_def set_ins_sorted insert_absorb)
qed

section \<open>Properties\<close>

lemma intset_wf_small: "intset_wf \<lparr>encoding = 2, is_length = 2, contents = [1, 0, 5, 0]\<rparr>"
  by code_simp
lemma intset_vals_small: "intset_vals \<lparr>encoding = 2, is_length = 2, contents = [1, 0, 5, 0]\<rparr> = [1, 5]"
  by code_simp

text \<open>C7: On a well-formed intset with room for one more member, \<open>intsetAdd\<close> of any 64 bit integer
  stays inside the block, reports whether the value was new and returns a well-formed intset
  whose members are the old ones in order with the value at its sorted place; the encoding
  is widened when the value needs it.\<close>

theorem intsetAdd_correct:
  assumes "intset_wf is" and "intset_room is" and "int64_range v"
  shows "\<exists>is'. intsetAdd junk is v = Some (is', v \<notin> set (intset_vals is)) \<and> intset_wf is' \<and>
    intset_vals is' =
      (if v \<in> set (intset_vals is) then intset_vals is
       else takeWhile (\<lambda>x. x < v) (intset_vals is) @ v # dropWhile (\<lambda>x. x < v) (intset_vals is))"
  using intsetAdd_wf [OF assms, of junk] by (auto simp: ins_sorted_def take_ins_pos drop_ins_pos)

theorem intsetAdd_correct_witness:
  "intset_wf \<lparr>encoding = 2, is_length = 2, contents = [1, 0, 5, 0]\<rparr> \<and>
   (\<exists>is'. intsetAdd (\<lambda>_. 0) \<lparr>encoding = 2, is_length = 2, contents = [1, 0, 5, 0]\<rparr> 100000 =
      Some (is', True) \<and> intset_vals is' = [1, 5, 100000])"
  using intsetAdd_correct [OF intset_wf_small, of 100000 "\<lambda>_. 0"] intset_wf_small
  by (simp add: intset_vals_small intset_room_def int64_range_def) blast

text \<open>On a well-formed intset \<open>intsetRemove\<close> stays inside the block, reports whether the value
  was a member and returns a well-formed intset with exactly the other members.\<close>

theorem intsetRemove_correct:
  assumes "intset_wf is" and "intset_fits is" and "int64_range v"
  shows "\<exists>is'. intsetRemove junk is v = Some (is', v \<in> set (intset_vals is)) \<and> intset_wf is' \<and>
    intset_vals is' = filter (\<lambda>x. x \<noteq> v) (intset_vals is)"
  using intsetRemove_wf [OF assms, of junk] by auto

theorem intsetRemove_correct_witness:
  "\<exists>is'. intsetRemove (\<lambda>_. 0) \<lparr>encoding = 2, is_length = 2, contents = [1, 0, 5, 0]\<rparr> 1 =
      Some (is', True) \<and> intset_vals is' = [5]"
  using intsetRemove_correct [OF intset_wf_small, of 1 "\<lambda>_. 0"]
  by (simp add: intset_vals_small intset_fits_def int64_range_def) blast

text \<open>\<open>intsetGet\<close> returns the members of a well-formed intset in increasing order, position by
  position, and nothing past the end; \<open>intsetRandom\<close> of a non-empty one is a member.\<close>

theorem intsetGet_correct:
  assumes "intset_wf is" and "intset_fits is"
  shows "intsetGet is pos =
      Some (if pos < length (intset_vals is) then Some (intset_vals is ! pos) else None) \<and>
    (intset_vals is \<noteq> [] \<longrightarrow> (\<exists>x \<in> set (intset_vals is). intsetRandom is rnd = Some x)) \<and>
    sorted_wrt (<) (intset_vals is)"
proof -
  let ?xs = "intset_vals is"
  have rep: "intset_rep is ?xs" using assms(1) by (rule wf_rep)
  have n: "is_length is = length ?xs" using rep by (simp add: intset_rep_def)
  have get: "intsetGet_at is (s32 i) = Some (?xs ! i)" if "i < length ?xs" for i
    using that rep_fits_size(2) [OF rep assms(2)] rep_get [OF rep that] by (simp add: s32_id)
  have "?xs \<noteq> [] \<Longrightarrow> rnd mod length ?xs < length ?xs" by simp
  then show ?thesis
    using get n rep by (auto simp: intsetGet_def intsetRandom_def intset_rep_def)
qed

theorem intsetGet_correct_witness:
  "intsetGet \<lparr>encoding = 2, is_length = 2, contents = [1, 0, 5, 0]\<rparr> 1 = Some (Some 5)"
  using intsetGet_correct [OF intset_wf_small, of 1 0]
  by (simp add: intset_vals_small intset_fits_def)

text \<open>C15: Every sequence of up to \<open>2 ^ 29 - 1\<close> insertions, deletions and membership tests of 64 bit
  integers, from the empty intset, runs without an access outside the block and answers as the
  mathematical set of integers does.\<close>

theorem intset_ops_correct:
  assumes "\<forall>oper \<in> set os. int64_range (op_elem oper)" and "length os \<le> 2 ^ 29 - 1"
  shows "\<exists>is. run_ops (intsetAdd junk) (intsetRemove junk) (\<lambda>is v. map_option (Pair is) (intsetFind is v)) intsetNew os =
      Some (is, snd (set_ops {} os)) \<and> set (intset_vals is) = fst (set_ops {} os)"
  using ints.run_ops_from_empty [OF assms, of junk] by blast

theorem intset_ops_correct_witness:
  "\<exists>is. run_ops (intsetAdd (\<lambda>_. 0)) (intsetRemove (\<lambda>_. 0)) (\<lambda>is v. map_option (Pair is) (intsetFind is v)) intsetNew
      [Add 7, Add (- 5000000000), Add 7, Del 7, Test 7, Test (- 5000000000)] =
      Some (is, [True, True, False, True, False, True]) \<and> set (intset_vals is) = {- 5000000000}"
  using intset_ops_correct [of "[Add 7, Add (- 5000000000), Add 7, Del 7, Test 7, Test (- 5000000000)]"
      "\<lambda>_. 0"]
  by (simp add: int64_range_def insert_Diff_if del: run_ops.simps)

text \<open>C34: At \<open>2 ^ 29 - 1\<close> members of the widest encoding the size computed by \<open>intsetResize\<close> wraps
  around to zero: inserting any further value then accesses memory outside the block.\<close>

theorem intsetAdd_overflow:
  assumes "intset_wf is" and "encoding is = 8" and "intsetLen is = 2 ^ 29 - 1"
    and "int64_range v" and "v \<notin> set (intset_vals is)"
  shows "intsetAdd junk is v = None"
  using intsetAdd_wraps [OF wf_rep [OF assms(1)] _ assms(2,4,5)] assms(1,3)
  by (simp add: intsetLen_def intset_wf_def intset_rep_def)

theorem intsetAdd_overflow_witness:
  "intsetAdd (\<lambda>_. 0) (intset_of (map int [0..<2 ^ 29 - 1])) (- 1) = None"
proof (rule intsetAdd_overflow)
  have le: "(2::nat) ^ 29 - 1 \<le> 2 ^ 63" by simp
  note r = intset_rep_of_upt [OF le]
  show "intset_wf (intset_of (map int [0..<2 ^ 29 - 1]))" by (rule rep_wf [OF r])
  show "encoding (intset_of (map int [0..<2 ^ 29 - 1])) = 8" by (simp only: intset_of_def intset.simps)
  show "intsetLen (intset_of (map int [0..<2 ^ 29 - 1])) = 2 ^ 29 - 1"
    by (simp only: intset_of_def intsetLen_def intset.simps length_map length_upt diff_zero)
  show "int64_range (- 1)" by (simp add: int64_range_def)
  show "- 1 \<notin> set (intset_vals (intset_of (map int [0..<2 ^ 29 - 1])))"
    unfolding rep_vals [OF r] set_map by auto
qed

end
