(* ===== verification/Dict.thy ===== *)
theory Dict
  imports Redis_Prelude
begin

unbundle bit_operations_syntax

text \<open>
  The hash table of \<open>redis-6.0.10/src/dict.c\<close>: chaining, power of two sizes and incremental
  rehashing from the table \<open>ht[0]\<close> to the table \<open>ht[1]\<close>.

  A bucket is the list of the entries of its chain, from the head on; a table is \<open>None\<close> for the
  \<open>NULL\<close> pointer and otherwise the list of its buckets. The \<open>unsigned long\<close> fields are naturals,
  reduced modulo \<open>2 ^ 64\<close> where the source computes with them. Reading a bucket of a \<open>NULL\<close> table
  or outside a table, and a failing \<open>assert\<close>, are the result \<open>None\<close> of an operation. A pointer to
  an entry is the location of the entry: the number of its table, the index of its bucket and
  the key that is stored in it (two entries of a dictionary never store the same key).
  Equality of keys is the equality of the key pointers, the comparison of what they point to is
  the \<open>keyCompare\<close> of the type. The memory that the destructors release is not modelled.

  The global \<open>dict_can_resize\<close> is the argument \<open>can_resize\<close>; the uninitialised value of a new entry
  is the argument \<open>junk\<close>; the results of \<open>random()\<close>, \<open>rand()\<close> and of the clock are functions from
  the number of the call.
\<close>

section \<open>Data\<close>

record ('k, 'v) dictType =
  hashFunction :: "'k \<Rightarrow> 64 word"
  keyDup :: "('k \<Rightarrow> 'k) option"
  valDup :: "('v \<Rightarrow> 'v) option"
  keyCompare :: "('k \<Rightarrow> 'k \<Rightarrow> bool) option"

type_synonym ('k, 'v) dictEntry = "'k \<times> 'v"
type_synonym 'k de_ref = "nat \<times> nat \<times> 'k"

record ('k, 'v) dictht =
  ht_table :: "('k, 'v) dictEntry list list option"
  ht_size :: nat
  sizemask :: nat
  used :: nat

record ('k, 'v) dict =
  dtype :: "('k, 'v) dictType"
  ht0 :: "('k, 'v) dictht"
  ht1 :: "('k, 'v) dictht"
  rehashidx :: int
  iterators :: nat

section \<open>Macros and access to the tables\<close>

definition DICT_HT_INITIAL_SIZE :: nat where
  "DICT_HT_INITIAL_SIZE = 4"

definition dict_force_resize_ratio :: nat where
  "dict_force_resize_ratio = 5"

definition dictHashKey :: "('k, 'v) dict \<Rightarrow> 'k \<Rightarrow> 64 word" where
  "dictHashKey d key = hashFunction (dtype d) key"

definition dictCompareKeys :: "('k, 'v) dictType \<Rightarrow> 'k \<Rightarrow> 'k \<Rightarrow> bool" where
  "dictCompareKeys T key1 key2 =
     (case keyCompare T of Some cmp \<Rightarrow> cmp key1 key2 | None \<Rightarrow> key1 = key2)"

text \<open>The test \<open>key==he->key || dictCompareKeys(d, key, he->key)\<close> of every search.\<close>

definition key_eq :: "('k, 'v) dictType \<Rightarrow> 'k \<Rightarrow> 'k \<Rightarrow> bool" where
  "key_eq T key hekey \<longleftrightarrow> key = hekey \<or> dictCompareKeys T key hekey"

definition dictIsRehashing :: "('k, 'v) dict \<Rightarrow> bool" where
  "dictIsRehashing d \<longleftrightarrow> rehashidx d \<noteq> - 1"

definition dictSize :: "('k, 'v) dict \<Rightarrow> nat" where
  "dictSize d = u64 (used (ht0 d) + used (ht1 d))"

definition dictSlots :: "('k, 'v) dict \<Rightarrow> nat" where
  "dictSlots d = u64 (ht_size (ht0 d) + ht_size (ht1 d))"

definition get_ht :: "('k, 'v) dict \<Rightarrow> nat \<Rightarrow> ('k, 'v) dictht" where
  "get_ht d t = (if t = 0 then ht0 d else ht1 d)"

definition put_ht :: "('k, 'v) dict \<Rightarrow> nat \<Rightarrow> ('k, 'v) dictht \<Rightarrow> ('k, 'v) dict" where
  "put_ht d t ht = (if t = 0 then d\<lparr>ht0 := ht\<rparr> else d\<lparr>ht1 := ht\<rparr>)"

definition bucket :: "('k, 'v) dictht \<Rightarrow> nat \<Rightarrow> ('k, 'v) dictEntry list option" where
  "bucket ht i =
     (case ht_table ht of None \<Rightarrow> None | Some t \<Rightarrow> if i < length t then Some (t ! i) else None)"

definition bucket_put :: "('k, 'v) dictht \<Rightarrow> nat \<Rightarrow> ('k, 'v) dictEntry list \<Rightarrow> ('k, 'v) dictht" where
  "bucket_put ht i b = ht\<lparr>ht_table := map_option (\<lambda>t. t[i := b]) (ht_table ht)\<rparr>"

text \<open>The index \<open>h & ht->sizemask\<close>.\<close>

definition ht_index :: "('k, 'v) dictht \<Rightarrow> 64 word \<Rightarrow> nat" where
  "ht_index ht h = unat (h AND of_nat (sizemask ht))"

text \<open>The search of all chains that can hold a key: the body of the loop over the two tables.\<close>

definition search_tables :: "('k, 'v) dict \<Rightarrow> ('k \<Rightarrow> bool) \<Rightarrow> 64 word \<Rightarrow>
    (nat \<times> nat \<times> ('k, 'v) dictEntry) option option" where
  "search_tables d P h =
     do { b \<leftarrow> bucket (ht0 d) (ht_index (ht0 d) h);
          case find (\<lambda>e. P (fst e)) b of
            Some e \<Rightarrow> Some (Some (0, ht_index (ht0 d) h, e))
          | None \<Rightarrow>
             if \<not> dictIsRehashing d then Some None
             else do { b \<leftarrow> bucket (ht1 d) (ht_index (ht1 d) h);
                       case find (\<lambda>e. P (fst e)) b of
                         Some e \<Rightarrow> Some (Some (1, ht_index (ht1 d) h, e))
                       | None \<Rightarrow> Some None } }"

definition ref_of :: "nat \<times> nat \<times> ('k, 'v) dictEntry \<Rightarrow> 'k de_ref" where
  "ref_of = (\<lambda>(t, i, e). (t, i, fst e))"

text \<open>\<open>dictSetVal\<close> on the entry at a location.\<close>

definition dictSetVal :: "('k, 'v) dict \<Rightarrow> 'k de_ref \<Rightarrow> 'v \<Rightarrow> ('k, 'v) dict option" where
  "dictSetVal d r val =
     (case r of (t, i, k) \<Rightarrow>
        let v = (case valDup (dtype d) of Some dup \<Rightarrow> dup val | None \<Rightarrow> val) in
        do { b \<leftarrow> bucket (get_ht d t) i;
             if k \<in> fst ` set b
             then Some (put_ht d t (bucket_put (get_ht d t) i
                          (map (\<lambda>e. if fst e = k then (k, v) else e) b)))
             else None })"

section \<open>Creating, expanding and rehashing\<close>

definition dictReset :: "('k, 'v) dictht" where
  "dictReset = \<lparr>ht_table = None, ht_size = 0, sizemask = 0, used = 0\<rparr>"

definition dictInit :: "('k, 'v) dictType \<Rightarrow> ('k, 'v) dict" where
  "dictInit T = \<lparr>dtype = T, ht0 = dictReset, ht1 = dictReset, rehashidx = - 1, iterators = 0\<rparr>"

definition dictCreate :: "('k, 'v) dictType \<Rightarrow> ('k, 'v) dict" where
  "dictCreate T = dictInit T"

partial_function (option) dictNextPower_loop :: "nat \<Rightarrow> nat \<Rightarrow> nat option" where
  "dictNextPower_loop i sz = (if i \<ge> sz then Some i else dictNextPower_loop (u64 (i * 2)) sz)"

definition dictNextPower :: "nat \<Rightarrow> nat option" where
  "dictNextPower sz =
     (if sz \<ge> 2 ^ 63 - 1 then Some (u64 (2 ^ 63 - 1 + 1))
      else dictNextPower_loop DICT_HT_INITIAL_SIZE sz)"

text \<open>The result is the dictionary and whether the return value is \<open>DICT_OK\<close>.\<close>

definition dictExpand :: "('k, 'v) dict \<Rightarrow> nat \<Rightarrow> (('k, 'v) dict \<times> bool) option" where
  "dictExpand d sz =
     (if dictIsRehashing d \<or> used (ht0 d) > sz then Some (d, False)
      else do { realsize \<leftarrow> dictNextPower sz;
                if realsize = ht_size (ht0 d) then Some (d, False)
                else (let n = \<lparr>ht_table = Some (replicate (u64 (realsize * 8) div 8) []),
                               ht_size = realsize, sizemask = u64_sub realsize 1, used = 0\<rparr>
                      in if ht_table (ht0 d) = None then Some (d\<lparr>ht0 := n\<rparr>, True)
                         else Some (d\<lparr>ht1 := n, rehashidx := 0\<rparr>, True)) })"

definition dictResize :: "bool \<Rightarrow> ('k, 'v) dict \<Rightarrow> (('k, 'v) dict \<times> bool) option" where
  "dictResize can_resize d =
     (if \<not> can_resize \<or> dictIsRehashing d then Some (d, False)
      else (let minimal = used (ht0 d);
                minimal = (if minimal < DICT_HT_INITIAL_SIZE then DICT_HT_INITIAL_SIZE else minimal)
            in dictExpand d minimal))"

text \<open>
  The loop over the empty buckets: the result is the new index, the number of empty visits left
  and whether they ran out. The number is positive on entry.
\<close>

fun rehash_skip :: "('k, 'v) dictht \<Rightarrow> nat \<Rightarrow> nat \<Rightarrow> (nat \<times> nat \<times> bool) option" where
  "rehash_skip ht idx empty_visits =
     do { b \<leftarrow> bucket ht idx;
          if b = [] then
            (case empty_visits of
               Suc (Suc n) \<Rightarrow> rehash_skip ht (Suc idx) (Suc n)
             | _ \<Rightarrow> Some (Suc idx, 0, True))
          else Some (idx, empty_visits, False) }"

declare rehash_skip.simps [simp del]

text \<open>The loop that moves the entries of one chain to \<open>ht[1]\<close>.\<close>

primrec rehash_move :: "('k, 'v) dict \<Rightarrow> ('k, 'v) dictEntry list \<Rightarrow> ('k, 'v) dict option" where
  "rehash_move d [] = Some d"
| "rehash_move d (de # des) =
     (let h = ht_index (ht1 d) (dictHashKey d (fst de)) in
      do { b \<leftarrow> bucket (ht1 d) h;
           rehash_move
             (d\<lparr>ht0 := (ht0 d)\<lparr>used := u64_sub (used (ht0 d)) 1\<rparr>,
                ht1 := (bucket_put (ht1 d) h (de # b))\<lparr>used := u64 (used (ht1 d) + 1)\<rparr>\<rparr>) des })"

primrec rehash_loop :: "nat \<Rightarrow> ('k, 'v) dict \<Rightarrow> nat \<Rightarrow> (('k, 'v) dict \<times> bool) option" where
  "rehash_loop 0 d empty_visits = Some (d, False)"
| "rehash_loop (Suc n) d empty_visits =
     (if used (ht0 d) = 0 then Some (d, False)
      else if \<not> int (ht_size (ht0 d)) > rehashidx d then None
      else do { (idx, ev, out) \<leftarrow> rehash_skip (ht0 d) (nat (rehashidx d)) empty_visits;
                if out then Some (d\<lparr>rehashidx := int idx\<rparr>, True)
                else do { b \<leftarrow> bucket (ht0 d) idx;
                          d \<leftarrow> rehash_move d b;
                          rehash_loop n (d\<lparr>ht0 := bucket_put (ht0 d) idx [],
                                           rehashidx := int idx + 1\<rparr>) ev } })"

text \<open>\<open>rehash_loop\<close> says whether the visits of empty buckets ran out, which returns 1 at once.\<close>

definition dictRehash :: "('k, 'v) dict \<Rightarrow> nat \<Rightarrow> (('k, 'v) dict \<times> bool) option" where
  "dictRehash d n =
     (if \<not> dictIsRehashing d then Some (d, False)
      else do { (d, out) \<leftarrow> rehash_loop n d (n * 10);
                if out then Some (d, True)
                else if used (ht0 d) = 0
                then Some (d\<lparr>ht0 := ht1 d, ht1 := dictReset, rehashidx := - 1\<rparr>, False)
                else Some (d, True) })"

partial_function (option) dictRehashMilliseconds_loop ::
    "('k, 'v) dict \<Rightarrow> int \<Rightarrow> (nat \<Rightarrow> int) \<Rightarrow> nat \<Rightarrow> nat \<Rightarrow> (('k, 'v) dict \<times> nat) option" where
  "dictRehashMilliseconds_loop d ms clock i rehashes =
     Option.bind (dictRehash d 100) (\<lambda>(d, more).
       if \<not> more then Some (d, rehashes)
       else if clock i - clock 0 > ms then Some (d, rehashes + 100)
       else dictRehashMilliseconds_loop d ms clock (i + 1) (rehashes + 100))"

definition dictRehashMilliseconds ::
    "('k, 'v) dict \<Rightarrow> int \<Rightarrow> (nat \<Rightarrow> int) \<Rightarrow> (('k, 'v) dict \<times> nat) option" where
  "dictRehashMilliseconds d ms clock = dictRehashMilliseconds_loop d ms clock 1 0"

definition dictRehashStep :: "('k, 'v) dict \<Rightarrow> ('k, 'v) dict option" where
  "dictRehashStep d = (if iterators d = 0 then map_option fst (dictRehash d 1) else Some d)"

section \<open>Adding, replacing, deleting and finding\<close>

definition dictExpandIfNeeded :: "bool \<Rightarrow> ('k, 'v) dict \<Rightarrow> (('k, 'v) dict \<times> bool) option" where
  "dictExpandIfNeeded can_resize d =
     (if dictIsRehashing d then Some (d, True)
      else if ht_size (ht0 d) = 0 then dictExpand d DICT_HT_INITIAL_SIZE
      else if used (ht0 d) \<ge> ht_size (ht0 d) \<and>
              (can_resize \<or> used (ht0 d) div ht_size (ht0 d) > dict_force_resize_ratio)
      then dictExpand d (u64 (used (ht0 d) * 2))
      else Some (d, True))"

text \<open>The index is -1 when the key exists, with the location of its entry, or when expanding failed.\<close>

definition dictKeyIndex :: "bool \<Rightarrow> ('k, 'v) dict \<Rightarrow> 'k \<Rightarrow> 64 word \<Rightarrow>
    (('k, 'v) dict \<times> int \<times> 'k de_ref option) option" where
  "dictKeyIndex can_resize d key h =
     do { (d, ok) \<leftarrow> dictExpandIfNeeded can_resize d;
          if \<not> ok then Some (d, - 1, None)
          else do { found \<leftarrow> search_tables d (key_eq (dtype d) key) h;
                    case found of
                      Some r \<Rightarrow> Some (d, - 1, Some (ref_of r))
                    | None \<Rightarrow>
                       Some (d, int (ht_index (if dictIsRehashing d then ht1 d else ht0 d) h), None) } }"

text \<open>The result has the new entry (\<open>None\<close> for \<open>NULL\<close>) and the existing one.\<close>

definition dictAddRaw :: "bool \<Rightarrow> 'v \<Rightarrow> ('k, 'v) dict \<Rightarrow> 'k \<Rightarrow>
    (('k, 'v) dict \<times> 'k de_ref option \<times> 'k de_ref option) option" where
  "dictAddRaw can_resize junk d key =
     do { d \<leftarrow> (if dictIsRehashing d then dictRehashStep d else Some d);
          (d, index, existing) \<leftarrow> dictKeyIndex can_resize d key (dictHashKey d key);
          if index = - 1 then Some (d, None, existing)
          else (let t = (if dictIsRehashing d then 1 else 0);
                    ht = get_ht d t;
                    i = nat index;
                    k = (case keyDup (dtype d) of Some dup \<Rightarrow> dup key | None \<Rightarrow> key)
                in do { b \<leftarrow> bucket ht i;
                        Some (put_ht d t ((bucket_put ht i ((k, junk) # b))
                                            \<lparr>used := u64 (used ht + 1)\<rparr>),
                              Some (t, i, k), existing) }) }"

definition dictAdd :: "bool \<Rightarrow> 'v \<Rightarrow> ('k, 'v) dict \<Rightarrow> 'k \<Rightarrow> 'v \<Rightarrow> (('k, 'v) dict \<times> bool) option" where
  "dictAdd can_resize junk d key val =
     do { (d, entry, existing) \<leftarrow> dictAddRaw can_resize junk d key;
          case entry of
            None \<Rightarrow> Some (d, False)
          | Some r \<Rightarrow> do { d \<leftarrow> dictSetVal d r val; Some (d, True) } }"

text \<open>The \<open>NULL\<close> dereference of \<open>*existing\<close> is \<open>None\<close>.\<close>

definition dictReplace :: "bool \<Rightarrow> 'v \<Rightarrow> ('k, 'v) dict \<Rightarrow> 'k \<Rightarrow> 'v \<Rightarrow> (('k, 'v) dict \<times> bool) option" where
  "dictReplace can_resize junk d key val =
     do { (d, entry, existing) \<leftarrow> dictAddRaw can_resize junk d key;
          case entry of
            Some r \<Rightarrow> do { d \<leftarrow> dictSetVal d r val; Some (d, True) }
          | None \<Rightarrow> do { r \<leftarrow> existing; d \<leftarrow> dictSetVal d r val; Some (d, False) } }"

definition dictAddOrFind :: "bool \<Rightarrow> 'v \<Rightarrow> ('k, 'v) dict \<Rightarrow> 'k \<Rightarrow>
    (('k, 'v) dict \<times> 'k de_ref option) option" where
  "dictAddOrFind can_resize junk d key =
     do { (d, entry, existing) \<leftarrow> dictAddRaw can_resize junk d key;
          Some (d, if entry \<noteq> None then entry else existing) }"

text \<open>Unlinking the first entry of a chain that matches.\<close>

fun chain_unlink :: "('k \<Rightarrow> bool) \<Rightarrow> ('k, 'v) dictEntry list \<Rightarrow> ('k, 'v) dictEntry list" where
  "chain_unlink P [] = []"
| "chain_unlink P (e # es) = (if P (fst e) then es else e # chain_unlink P es)"

definition dictGenericDelete :: "('k, 'v) dict \<Rightarrow> 'k \<Rightarrow>
    (('k, 'v) dict \<times> ('k, 'v) dictEntry option) option" where
  "dictGenericDelete d key =
     (if used (ht0 d) = 0 \<and> used (ht1 d) = 0 then Some (d, None)
      else do { d \<leftarrow> (if dictIsRehashing d then dictRehashStep d else Some d);
                found \<leftarrow> search_tables d (key_eq (dtype d) key) (dictHashKey d key);
                case found of
                  None \<Rightarrow> Some (d, None)
                | Some (t, i, e) \<Rightarrow>
                   do { b \<leftarrow> bucket (get_ht d t) i;
                        Some (put_ht d t
                                ((bucket_put (get_ht d t) i (chain_unlink (key_eq (dtype d) key) b))
                                   \<lparr>used := u64_sub (used (get_ht d t)) 1\<rparr>), Some e) } })"

definition dictDelete :: "('k, 'v) dict \<Rightarrow> 'k \<Rightarrow> (('k, 'v) dict \<times> bool) option" where
  "dictDelete d key = map_option (\<lambda>(d, e). (d, e \<noteq> None)) (dictGenericDelete d key)"

definition dictUnlink :: "('k, 'v) dict \<Rightarrow> 'k \<Rightarrow>
    (('k, 'v) dict \<times> ('k, 'v) dictEntry option) option" where
  "dictUnlink d key = dictGenericDelete d key"

definition dictFind :: "('k, 'v) dict \<Rightarrow> 'k \<Rightarrow>
    (('k, 'v) dict \<times> (nat \<times> nat \<times> ('k, 'v) dictEntry) option) option" where
  "dictFind d key =
     (if dictSize d = 0 then Some (d, None)
      else do { d \<leftarrow> (if dictIsRehashing d then dictRehashStep d else Some d);
                found \<leftarrow> search_tables d (key_eq (dtype d) key) (dictHashKey d key);
                Some (d, found) })"

definition dictFetchValue :: "('k, 'v) dict \<Rightarrow> 'k \<Rightarrow> (('k, 'v) dict \<times> 'v option) option" where
  "dictFetchValue d key =
     map_option (\<lambda>(d, he). (d, map_option (\<lambda>(t, i, e). snd e) he)) (dictFind d key)"

definition dictFindEntryRefByPtrAndHash :: "('k, 'v) dict \<Rightarrow> 'k \<Rightarrow> 64 word \<Rightarrow>
    'k de_ref option option" where
  "dictFindEntryRefByPtrAndHash d oldptr h =
     (if dictSize d = 0 then Some None
      else map_option (map_option ref_of) (search_tables d (\<lambda>k. oldptr = k) h))"

definition dictGetHash :: "('k, 'v) dict \<Rightarrow> 'k \<Rightarrow> 64 word" where
  "dictGetHash d key = dictHashKey d key"

end
