(* ===== verification/Map_Interface.thy ===== *)
theory Map_Interface
  imports Redis_Prelude
begin

text \<open>
  The interface of a finite map whose keys are compared by an equivalence, as the databases, hashes
  and command tables of the server use the dictionary: insertion of a new key, insertion with
  replacement, deletion and lookup. Every operation returns the new state, since a lookup
  may reorganise the table, and fails (\<open>None\<close>) only outside the contract. The client lemma is
  about whole sequences of operations.
\<close>

section \<open>Sequences of operations\<close>

datatype ('k, 'v) map_op = Insert 'k 'v | Replace 'k 'v | Delete 'k | Fetch 'k

datatype 'v map_result = Flag bool | Found "'v option"

fun run_map_op :: "('s \<Rightarrow> 'k \<Rightarrow> 'v \<Rightarrow> ('s \<times> bool) option) \<Rightarrow> ('s \<Rightarrow> 'k \<Rightarrow> 'v \<Rightarrow> ('s \<times> bool) option) \<Rightarrow>
    ('s \<Rightarrow> 'k \<Rightarrow> ('s \<times> bool) option) \<Rightarrow> ('s \<Rightarrow> 'k \<Rightarrow> ('s \<times> 'v option) option) \<Rightarrow>
    's \<Rightarrow> ('k, 'v) map_op \<Rightarrow> ('s \<times> 'v map_result) option" where
  "run_map_op ins repl del fetch s (Insert k v) = map_option (\<lambda>(s, b). (s, Flag b)) (ins s k v)"
| "run_map_op ins repl del fetch s (Replace k v) = map_option (\<lambda>(s, b). (s, Flag b)) (repl s k v)"
| "run_map_op ins repl del fetch s (Delete k) = map_option (\<lambda>(s, b). (s, Flag b)) (del s k)"
| "run_map_op ins repl del fetch s (Fetch k) = map_option (\<lambda>(s, r). (s, Found r)) (fetch s k)"

fun run_map_ops :: "('s \<Rightarrow> 'k \<Rightarrow> 'v \<Rightarrow> ('s \<times> bool) option) \<Rightarrow> ('s \<Rightarrow> 'k \<Rightarrow> 'v \<Rightarrow> ('s \<times> bool) option) \<Rightarrow>
    ('s \<Rightarrow> 'k \<Rightarrow> ('s \<times> bool) option) \<Rightarrow> ('s \<Rightarrow> 'k \<Rightarrow> ('s \<times> 'v option) option) \<Rightarrow>
    's \<Rightarrow> ('k, 'v) map_op list \<Rightarrow> ('s \<times> 'v map_result list) option" where
  "run_map_ops ins repl del fetch s [] = Some (s, [])"
| "run_map_ops ins repl del fetch s (oper # os) =
     do { (s, r) \<leftarrow> run_map_op ins repl del fetch s oper;
          (s, rs) \<leftarrow> run_map_ops ins repl del fetch s os;
          Some (s, r # rs) }"

text \<open>
  The same operations on a mathematical map: \<open>eq\<close> compares keys, \<open>dup\<close> is the copy of a value that
  the map stores. Insertion and replacement report whether the key is new, deletion
  whether it was there.
\<close>

definition map_upd :: "('k \<Rightarrow> 'k \<Rightarrow> bool) \<Rightarrow> 'k \<Rightarrow> 'v option \<Rightarrow> ('k \<Rightarrow> 'v option) \<Rightarrow> 'k \<Rightarrow> 'v option" where
  "map_upd eq k v m = (\<lambda>x. if eq k x then v else m x)"

fun map_spec_op :: "('k \<Rightarrow> 'k \<Rightarrow> bool) \<Rightarrow> ('v \<Rightarrow> 'v) \<Rightarrow> ('k \<Rightarrow> 'v option) \<Rightarrow> ('k, 'v) map_op \<Rightarrow>
    ('k \<Rightarrow> 'v option) \<times> 'v map_result" where
  "map_spec_op eq dup m (Insert k v) =
     (if m k = None then (map_upd eq k (Some (dup v)) m, Flag True) else (m, Flag False))"
| "map_spec_op eq dup m (Replace k v) = (map_upd eq k (Some (dup v)) m, Flag (m k = None))"
| "map_spec_op eq dup m (Delete k) = (map_upd eq k None m, Flag (m k \<noteq> None))"
| "map_spec_op eq dup m (Fetch k) = (m, Found (m k))"

fun map_spec_ops :: "('k \<Rightarrow> 'k \<Rightarrow> bool) \<Rightarrow> ('v \<Rightarrow> 'v) \<Rightarrow> ('k \<Rightarrow> 'v option) \<Rightarrow> ('k, 'v) map_op list \<Rightarrow>
    ('k \<Rightarrow> 'v option) \<times> 'v map_result list" where
  "map_spec_ops eq dup m [] = (m, [])"
| "map_spec_ops eq dup m (oper # os) =
     (let (m, r) = map_spec_op eq dup m oper; (m, rs) = map_spec_ops eq dup m os in (m, r # rs))"

section \<open>The interface\<close>

locale bounded_map =
  fixes inv :: "'s \<Rightarrow> bool" and abs_map :: "'s \<Rightarrow> 'k \<Rightarrow> 'v option" and count :: "'s \<Rightarrow> nat"
    and capacity :: nat and eq :: "'k \<Rightarrow> 'k \<Rightarrow> bool" and dup :: "'v \<Rightarrow> 'v"
    and ins :: "'s \<Rightarrow> 'k \<Rightarrow> 'v \<Rightarrow> ('s \<times> bool) option"
    and repl :: "'s \<Rightarrow> 'k \<Rightarrow> 'v \<Rightarrow> ('s \<times> bool) option"
    and del :: "'s \<Rightarrow> 'k \<Rightarrow> ('s \<times> bool) option"
    and fetch :: "'s \<Rightarrow> 'k \<Rightarrow> ('s \<times> 'v option) option"
  assumes ins_law: "inv s \<Longrightarrow> count s < capacity \<Longrightarrow>
      \<exists>s'. ins s k v = Some (s', abs_map s k = None) \<and> inv s' \<and> count s' \<le> Suc (count s) \<and>
        abs_map s' = (if abs_map s k = None then map_upd eq k (Some (dup v)) (abs_map s) else abs_map s)"
    and repl_law: "inv s \<Longrightarrow> count s < capacity \<Longrightarrow>
      \<exists>s'. repl s k v = Some (s', abs_map s k = None) \<and> inv s' \<and> count s' \<le> Suc (count s) \<and>
        abs_map s' = map_upd eq k (Some (dup v)) (abs_map s)"
    and del_law: "inv s \<Longrightarrow>
      \<exists>s'. del s k = Some (s', abs_map s k \<noteq> None) \<and> inv s' \<and> count s' \<le> count s \<and>
        abs_map s' = map_upd eq k None (abs_map s)"
    and fetch_law: "inv s \<Longrightarrow>
      \<exists>s'. fetch s k = Some (s', abs_map s k) \<and> inv s' \<and> count s' \<le> count s \<and> abs_map s' = abs_map s"
begin

lemma run_map_op_spec:
  assumes "inv s" and "count s < capacity"
  shows "\<exists>s'. run_map_op ins repl del fetch s oper = Some (s', snd (map_spec_op eq dup (abs_map s) oper)) \<and>
    inv s' \<and> count s' \<le> Suc (count s) \<and> abs_map s' = fst (map_spec_op eq dup (abs_map s) oper)"
proof (cases oper)
  case (Insert k v)
  then show ?thesis using ins_law [OF assms, of k v] by (cases "abs_map s k = None") auto
next
  case (Replace k v)
  then show ?thesis using repl_law [OF assms, of k v] by auto
next
  case (Delete k)
  then show ?thesis using del_law [OF assms(1), of k] by fastforce
next
  case (Fetch k)
  then show ?thesis using fetch_law [OF assms(1), of k] by fastforce
qed

lemma run_map_ops_spec:
  assumes "inv s" and "count s + length os \<le> capacity"
  shows "\<exists>s'. run_map_ops ins repl del fetch s os = Some (s', snd (map_spec_ops eq dup (abs_map s) os)) \<and>
    inv s' \<and> abs_map s' = fst (map_spec_ops eq dup (abs_map s) os)"
  using assms
proof (induction os arbitrary: s)
  case Nil
  then show ?case by simp
next
  case (Cons oper os)
  then obtain s1 where s1: "run_map_op ins repl del fetch s oper =
        Some (s1, snd (map_spec_op eq dup (abs_map s) oper))"
      "inv s1" "count s1 \<le> Suc (count s)" "abs_map s1 = fst (map_spec_op eq dup (abs_map s) oper)"
    using run_map_op_spec [of s oper] by auto
  then show ?case
    using Cons.IH [OF s1(2)] Cons.prems(2) by (auto simp: split_def Let_def)
qed

end

end
