(* ===== verification/Dict_Map.thy ===== *)
theory Dict_Map
  imports Dict Map_Interface "HOL-Library.Multiset"
begin

unbundle bit_operations_syntax

text \<open>
  The invariant of the hash table and its functional correctness: in every state of an incremental
  rehashing the dictionary is a finite map, and each operation is the operation on that
  map. \<open>dict_wf\<close> says that the tables have power of two sizes, that every entry is in the bucket
  of its hash, that no two entries have equal keys, that the counters are right and that
  the buckets below \<open>rehashidx\<close> are empty. The locale \<open>dict_type\<close> is the contract of the \<open>dictType\<close> that a
  client supplies: its comparison is an equivalence that the hash function respects. The
  lemmas of the locale give the interface \<open>bounded_map\<close>.
\<close>

section \<open>Lists without two related elements\<close>

definition pairwise_mset :: "('a \<Rightarrow> 'a \<Rightarrow> bool) \<Rightarrow> 'a multiset \<Rightarrow> bool" where
  "pairwise_mset R M \<longleftrightarrow> (\<forall>x \<in># M. \<forall>y \<in># M - {#x#}. R x y)"

lemma pairwise_mset_add:
  assumes "\<And>x y. R x y \<Longrightarrow> R y x"
  shows "pairwise_mset R (add_mset x M) \<longleftrightarrow> (\<forall>y \<in># M. R x y) \<and> pairwise_mset R M"
proof
  assume l: "pairwise_mset R (add_mset x M)"
  have "R y z" if "y \<in># M" "z \<in># M - {#y#}" for y z
  proof -
    have "z \<in># add_mset x M - {#y#}"
      using that by (cases "x = y") (auto dest: in_diffD)
    then show ?thesis using l that unfolding pairwise_mset_def by simp
  qed
  moreover have "\<forall>y \<in># M. R x y" using l unfolding pairwise_mset_def by simp
  ultimately show "(\<forall>y \<in># M. R x y) \<and> pairwise_mset R M"
    unfolding pairwise_mset_def by simp
next
  assume r: "(\<forall>y \<in># M. R x y) \<and> pairwise_mset R M"
  show "pairwise_mset R (add_mset x M)"
    unfolding pairwise_mset_def
  proof (intro ballI)
    fix y z assume y: "y \<in># add_mset x M" and z: "z \<in># add_mset x M - {#y#}"
    show "R y z"
    proof (cases "y = x")
      case True
      then show ?thesis using r z by simp
    next
      case False
      then have yM: "y \<in># M" using y by simp
      show ?thesis
      proof (cases "z = x")
        case True
        then show ?thesis using r yM assms by blast
      next
        case zx: False
        then have "z \<in># M - {#y#}" using z False by (auto simp: add_mset_diff_bothsides)
        then show ?thesis using r yM unfolding pairwise_mset_def by blast
      qed
    qed
  qed
qed

lemma sorted_wrt_sym_mset:
  assumes "\<And>x y. R x y \<Longrightarrow> R y x"
  shows "sorted_wrt R xs \<longleftrightarrow> pairwise_mset R (mset xs)"
proof (induction xs)
  case Nil
  show ?case by (simp add: pairwise_mset_def)
next
  case (Cons x xs)
  then show ?case using pairwise_mset_add [where R = R and x = x and M = "mset xs", OF assms] by simp
qed

section \<open>Buckets\<close>

definition ht_entries :: "('k, 'v) dictht \<Rightarrow> ('k, 'v) dictEntry list" where
  "ht_entries ht = (case ht_table ht of None \<Rightarrow> [] | Some t \<Rightarrow> concat t)"

lemma mset_concat_update:
  "i < length t \<Longrightarrow> mset (concat (t[i := b])) + mset (t ! i) = mset (concat t) + mset b"
proof (induction t arbitrary: i)
  case (Cons c t)
  then show ?case by (cases i) (auto simp: ac_simps)
qed simp

lemma ht_entries_put:
  assumes "bucket ht i = Some b"
  shows "mset (ht_entries (bucket_put ht i b')) + mset b = mset (ht_entries ht) + mset b'"
  using assms mset_concat_update [of i "the (ht_table ht)" b']
  by (auto simp: bucket_def bucket_put_def ht_entries_def split: option.splits if_splits)

lemma ht_index_mod:
  assumes "sizemask ht = 2 ^ k - 1"
  shows "ht_index ht h = unat h mod 2 ^ k"
proof -
  have "of_nat (2 ^ k - 1) = (mask k :: 64 word)" by (simp add: mask_eq_exp_minus_1 of_nat_diff)
  then have "h AND of_nat (sizemask ht) = take_bit k h" by (simp add: assms flip: take_bit_eq_mask)
  then show ?thesis by (simp add: ht_index_def unsigned_take_bit_eq flip: take_bit_eq_mod)
qed

lemma dictNextPower_loop_eq:
  assumes "sz \<le> 2 ^ 63" and "0 < i"
  shows "\<exists>j. dictNextPower_loop i sz = Some (i * 2 ^ j) \<and> sz \<le> i * 2 ^ j \<and>
    (j = 0 \<or> i * 2 ^ (j - 1) < sz)"
  using assms(2)
proof (induction "sz - i" arbitrary: i rule: less_induct)
  case less
  show ?case
  proof (cases "i \<ge> sz")
    case True
    then show ?thesis by (intro exI [of _ 0]) (subst dictNextPower_loop.simps, simp)
  next
    case False
    then have "i < 2 ^ 63" using assms(1) by simp
    then have u: "u64 (i * 2) = i * 2" by (simp add: u64_id)
    have "sz - i * 2 < sz - i" using False less.prems by simp
    then obtain j where j: "dictNextPower_loop (i * 2) sz = Some (i * 2 * 2 ^ j)"
        "sz \<le> i * 2 * 2 ^ j" "j = 0 \<or> i * 2 * 2 ^ (j - 1) < sz"
      using less.hyps [of "i * 2"] less.prems by auto
    then have "i * 2 ^ (Suc j - 1) < sz" using False by (cases j) auto
    then show ?thesis
      using False u j
      by (intro exI [of _ "Suc j"]) (subst dictNextPower_loop.simps, simp)
  qed
qed

lemma dictNextPower_correct:
  assumes "sz \<le> 2 ^ 60"
  shows "\<exists>k. dictNextPower sz = Some (2 ^ k) \<and> 2 \<le> k \<and> k \<le> 60 \<and> sz \<le> 2 ^ k"
proof -
  obtain j where j: "dictNextPower_loop 4 sz = Some (4 * 2 ^ j)" "sz \<le> 4 * 2 ^ j"
      "j = 0 \<or> 4 * 2 ^ (j - 1) < sz"
    using dictNextPower_loop_eq [of sz 4] assms by auto
  have "j \<le> 58"
  proof (rule ccontr)
    assume "\<not> j \<le> 58"
    then have "2 ^ 58 \<le> (2::nat) ^ (j - 1)" by (intro power_increasing) auto
    then show False using j(3) assms \<open>\<not> j \<le> 58\<close> by auto
  qed
  moreover have "4 * 2 ^ j = (2::nat) ^ (j + 2)" by (simp add: power_add)
  ultimately show ?thesis
    using j assms by (intro exI [of _ "j + 2"]) (auto simp: dictNextPower_def DICT_HT_INITIAL_SIZE_def)
qed

section \<open>Invariant\<close>

definition ht_ok :: "('k \<Rightarrow> 64 word) \<Rightarrow> ('k, 'v) dictht \<Rightarrow> bool" where
  "ht_ok hash ht \<longleftrightarrow>
     (case ht_table ht of
        None \<Rightarrow> ht_size ht = 0 \<and> sizemask ht = 0 \<and> used ht = 0
      | Some t \<Rightarrow>
          (\<exists>k \<in> {2..60}. ht_size ht = 2 ^ k \<and> sizemask ht = 2 ^ k - 1) \<and>
          length t = ht_size ht \<and> used ht = length (concat t) \<and>
          (\<forall>i < length t. \<forall>e \<in> set (t ! i). ht_index ht (hash (fst e)) = i))"

definition dict_entries :: "('k, 'v) dict \<Rightarrow> ('k, 'v) dictEntry list" where
  "dict_entries d = ht_entries (ht0 d) @ ht_entries (ht1 d)"

definition keys_differ :: "('k, 'v) dictType \<Rightarrow> ('k, 'v) dictEntry list \<Rightarrow> bool" where
  "keys_differ T = sorted_wrt (\<lambda>e e'. \<not> key_eq T (fst e) (fst e'))"

definition dict_wf :: "('k, 'v) dict \<Rightarrow> bool" where
  "dict_wf d \<longleftrightarrow>
     ht_ok (hashFunction (dtype d)) (ht0 d) \<and> ht_ok (hashFunction (dtype d)) (ht1 d) \<and>
     keys_differ (dtype d) (dict_entries d) \<and> length (dict_entries d) < 2 ^ 64 \<and>
     (if dictIsRehashing d
      then ht_table (ht0 d) \<noteq> None \<and> ht_table (ht1 d) \<noteq> None \<and>
           0 \<le> rehashidx d \<and> rehashidx d \<le> int (ht_size (ht0 d)) \<and>
           (\<forall>i < nat (rehashidx d). bucket (ht0 d) i = Some [])
      else ht_table (ht1 d) = None)"

text \<open>The entry that a search for a key finds, and the finite map that a dictionary stands for.\<close>

definition entry_for :: "('k, 'v) dictType \<Rightarrow> ('k, 'v) dictEntry list \<Rightarrow> 'k \<Rightarrow> ('k, 'v) dictEntry option" where
  "entry_for T es k = find (\<lambda>e. key_eq T k (fst e)) es"

definition dict_entry :: "('k, 'v) dict \<Rightarrow> 'k \<Rightarrow> ('k, 'v) dictEntry option" where
  "dict_entry d k = entry_for (dtype d) (dict_entries d) k"

definition dict_map :: "('k, 'v) dict \<Rightarrow> 'k \<Rightarrow> 'v option" where
  "dict_map d k = map_option snd (dict_entry d k)"

section \<open>Lemmas on one table\<close>

lemma ht_ok_reset [simp]: "ht_ok hash dictReset"
  by (simp add: ht_ok_def dictReset_def)

lemma ht_ok_used: "ht_ok hash ht \<Longrightarrow> used ht = length (ht_entries ht)"
  by (auto simp: ht_ok_def ht_entries_def split: option.splits)

lemma ht_ok_index:
  assumes "ht_ok hash ht" and "ht_table ht \<noteq> None"
  shows "ht_index ht h < ht_size ht" and "\<exists>b. bucket ht (ht_index ht h) = Some b"
proof -
  obtain t k where t: "ht_table ht = Some t" "ht_size ht = 2 ^ k" "sizemask ht = 2 ^ k - 1"
      "length t = ht_size ht"
    using assms by (auto simp: ht_ok_def split: option.splits)
  show "ht_index ht h < ht_size ht" using t by (simp add: ht_index_mod [OF t(3)])
  then show "\<exists>b. bucket ht (ht_index ht h) = Some b" using t by (simp add: bucket_def)
qed

lemma bucket_entries: "bucket ht i = Some b \<Longrightarrow> e \<in> set b \<Longrightarrow> e \<in> set (ht_entries ht)"
  by (auto simp: bucket_def ht_entries_def split: option.splits if_splits)

lemma bucket_index:
  assumes "ht_ok hash ht" and "bucket ht i = Some b" and "e \<in> set b"
  shows "ht_index ht (hash (fst e)) = i"
proof -
  obtain t where "ht_table ht = Some t" "i < length t" "b = t ! i"
    using assms(2) by (auto simp: bucket_def split: option.splits if_splits)
  then show ?thesis using assms(1,3) by (simp add: ht_ok_def)
qed

lemma bucket_length: "bucket ht i = Some b \<Longrightarrow> length b \<le> length (ht_entries ht)"
  using ht_entries_put [of ht i b "[]"]
  by (metis add.right_neutral le_add2 mset.simps(1) size_mset size_union)

lemma entries_bucket:
  assumes "ht_ok hash ht" and "e \<in> set (ht_entries ht)" and "hash (fst e) = h"
  shows "\<exists>b. bucket ht (ht_index ht h) = Some b \<and> e \<in> set b"
proof -
  obtain t where t: "ht_table ht = Some t" "e \<in> set (concat t)"
    using assms(2) by (cases "ht_table ht") (auto simp: ht_entries_def)
  then obtain i where i: "i < length t" "e \<in> set (t ! i)"
    by (auto simp: in_set_conv_nth [of _ t])
  then have "ht_index ht h = i" using assms(1,3) t(1) by (auto simp: ht_ok_def)
  then show ?thesis using i t(1) by (auto simp: bucket_def)
qed

lemma bucket_put_simps [simp]:
  "ht_size (bucket_put ht i b) = ht_size ht" "sizemask (bucket_put ht i b) = sizemask ht"
  "used (bucket_put ht i b) = used ht"
  "ht_table (bucket_put ht i b) = None \<longleftrightarrow> ht_table ht = None"
  by (auto simp: bucket_put_def)

lemma bucket_bucket_put:
  "bucket (bucket_put ht i b) j =
     (if i = j \<and> bucket ht j \<noteq> None then Some b else bucket ht j)"
  by (auto simp: bucket_def bucket_put_def split: option.splits)

lemma ht_index_used [simp]: "ht_index (ht\<lparr>used := u\<rparr>) h = ht_index ht h"
  and ht_index_put [simp]: "ht_index (bucket_put ht i b) h = ht_index ht h"
  by (simp_all add: ht_index_def)

lemma bucket_used [simp]: "bucket (ht\<lparr>used := u\<rparr>) i = bucket ht i"
  and ht_entries_used [simp]: "ht_entries (ht\<lparr>used := u\<rparr>) = ht_entries ht"
  by (simp_all add: bucket_def ht_entries_def)

lemma ht_ok_put:
  assumes "ht_ok hash ht" and "bucket ht i = Some b"
    and "\<forall>e \<in> set b'. ht_index ht (hash (fst e)) = i" and "u + length b = used ht + length b'"
  shows "ht_ok hash ((bucket_put ht i b')\<lparr>used := u\<rparr>)"
proof -
  obtain t where t: "ht_table ht = Some t" "i < length t" "b = t ! i"
    using assms(2) by (auto simp: bucket_def split: option.splits if_splits)
  have "length (concat (t[i := b'])) + length b = length (concat t) + length b'"
    using arg_cong [OF mset_concat_update [OF t(2), of b'], of size] t(3)
    by (simp del: mset_concat)
  then have "u = length (concat (t[i := b']))"
    using assms(1,4) t(1) by (simp add: ht_ok_def)
  then show ?thesis
    using assms(1,3) t
    by (auto simp: ht_ok_def bucket_put_def ht_index_def nth_list_update simp del: length_concat)
qed

section \<open>Rehashing\<close>

lemma rehash_skip_correct:
  assumes "ht_table ht = Some t" and "j < length t" and "t ! j \<noteq> []"
  shows "idx \<le> j \<Longrightarrow> 0 < ev \<Longrightarrow>
    \<exists>idx' ev' out. rehash_skip ht idx ev = Some (idx', ev', out) \<and>
     idx \<le> idx' \<and> idx' \<le> j \<and> (\<forall>i. idx \<le> i \<and> i < idx' \<longrightarrow> t ! i = []) \<and>
     (if out then idx < idx' else 0 < ev' \<and> t ! idx' \<noteq> [])"
proof (induction ev arbitrary: idx)
  case (Suc ev)
  have b: "bucket ht idx = Some (t ! idx)" using Suc.prems assms by (simp add: bucket_def)
  show ?case
  proof (cases "t ! idx = []")
    case False
    then show ?thesis
      using b Suc.prems
      by (subst rehash_skip.simps, intro exI [of _ idx] exI [of _ "Suc ev"] exI [of _ False]) auto
  next
    case True
    then have ne: "idx \<noteq> j" using assms(3) by auto
    have sp: "t ! i = []" if "idx \<le> i" "i < Suc idx" for i
      using that True by (simp add: le_antisym less_Suc_eq_le)
    show ?thesis
    proof (cases ev)
      case 0
      then show ?thesis using b True sp ne Suc.prems by (subst rehash_skip.simps) auto
    next
      case (Suc n)
      then obtain idx' ev' out where r: "rehash_skip ht (Suc idx) ev = Some (idx', ev', out)"
          "Suc idx \<le> idx'" "idx' \<le> j" "\<forall>i. Suc idx \<le> i \<and> i < idx' \<longrightarrow> t ! i = []"
          "if out then Suc idx < idx' else 0 < ev' \<and> t ! idx' \<noteq> []"
        using Suc.IH [of "Suc idx"] Suc.prems ne by auto
      have "t ! i = []" if "idx \<le> i" "i < idx'" for i
        using that r(4) sp by (cases "i = idx") (auto simp: Suc_le_eq)
      then show ?thesis
        using b True r Suc by (subst rehash_skip.simps) (auto split: if_splits)
    qed
  qed
qed simp

lemma rehash_move_correct:
  assumes "ht_ok (hashFunction (dtype d)) (ht1 d)" and "ht_table (ht1 d) \<noteq> None"
    and "length es \<le> used (ht0 d)" and "used (ht0 d) + used (ht1 d) < 2 ^ 64"
  shows "\<exists>h1. rehash_move d es =
      Some (d\<lparr>ht0 := (ht0 d)\<lparr>used := used (ht0 d) - length es\<rparr>, ht1 := h1\<rparr>) \<and>
    ht_ok (hashFunction (dtype d)) h1 \<and> ht_table h1 \<noteq> None \<and> ht_size h1 = ht_size (ht1 d) \<and>
    mset (ht_entries h1) = mset (ht_entries (ht1 d)) + mset es"
  using assms
proof (induction es arbitrary: d)
  case Nil
  show ?case using Nil.prems by (intro exI [of _ "ht1 d"]) simp
next
  case (Cons e es)
  let ?hash = "hashFunction (dtype d)"
  let ?i = "ht_index (ht1 d) (?hash (fst e))"
  obtain b where b: "bucket (ht1 d) ?i = Some b"
    using ht_ok_index(2) [OF Cons.prems(1,2)] by blast
  have b_ok: "\<forall>e' \<in> set (e # b). ht_index (ht1 d) (?hash (fst e')) = ?i"
    using bucket_index [OF Cons.prems(1) b] by simp
  let ?h1 = "(bucket_put (ht1 d) ?i (e # b))\<lparr>used := Suc (used (ht1 d))\<rparr>"
  let ?d = "d\<lparr>ht0 := (ht0 d)\<lparr>used := used (ht0 d) - 1\<rparr>, ht1 := ?h1\<rparr>"
  have ok: "ht_ok ?hash ?h1"
    using b_ok by (intro ht_ok_put [OF Cons.prems(1) b]) simp_all
  have ent: "mset (ht_entries ?h1) = add_mset e (mset (ht_entries (ht1 d)))"
    using ht_entries_put [OF b, of "e # b"] by simp
  have step: "rehash_move d (e # es) = rehash_move ?d es"
    using b Cons.prems(3,4)
    by (simp add: Let_def dictHashKey_def u64_sub_id u64_id)
  obtain h1 where "rehash_move ?d es =
      Some (?d\<lparr>ht0 := (ht0 ?d)\<lparr>used := used (ht0 ?d) - length es\<rparr>, ht1 := h1\<rparr>)"
    "ht_ok ?hash h1" "ht_table h1 \<noteq> None" "ht_size h1 = ht_size (ht1 d)"
    "mset (ht_entries h1) = mset (ht_entries ?h1) + mset es"
  proof -
    have "length es \<le> used (ht0 ?d)" "used (ht0 ?d) + used (ht1 ?d) < 2 ^ 64"
      using Cons.prems(3,4) by auto
    then show ?thesis using that Cons.IH [of ?d] ok Cons.prems(2) by auto
  qed
  then show ?case using step ent by (intro exI [of _ h1]) simp
qed

text \<open>The two states of a dictionary hold the same entries.\<close>

definition same_entries :: "('k, 'v) dict \<Rightarrow> ('k, 'v) dict \<Rightarrow> bool" where
  "same_entries d d' \<longleftrightarrow> dict_wf d' \<and> dtype d' = dtype d \<and> iterators d' = iterators d \<and>
     mset (dict_entries d') = mset (dict_entries d)"

lemma same_entries_refl: "dict_wf d \<Longrightarrow> same_entries d d"
  by (simp add: same_entries_def)

lemma same_entries_trans:
  "same_entries d d' \<Longrightarrow> same_entries d' d'' \<Longrightarrow> same_entries d d''"
  by (simp add: same_entries_def)

lemma rehash_target:
  assumes "dict_wf d" and "dictIsRehashing d" and "used (ht0 d) \<noteq> 0"
  shows "\<exists>t j. ht_table (ht0 d) = Some t \<and> nat (rehashidx d) \<le> j \<and> j < length t \<and> t ! j \<noteq> []"
proof -
  obtain t where t: "ht_table (ht0 d) = Some t" "length (concat t) \<noteq> 0"
    using assms by (auto simp: dict_wf_def ht_ok_def split: option.splits)
  then obtain j where j: "j < length t" "t ! j \<noteq> []"
    by (metis concat_eq_Nil_conv in_set_conv_nth length_0_conv)
  have "nat (rehashidx d) \<le> j"
  proof (rule ccontr)
    assume "\<not> nat (rehashidx d) \<le> j"
    then have "bucket (ht0 d) j = Some []" using assms(1,2) by (simp add: dict_wf_def)
    then show False using j t(1) by (simp add: bucket_def)
  qed
  then show ?thesis using t(1) j by blast
qed

locale dict_type =
  fixes T :: "('k, 'v) dictType"
  assumes key_eq_sym: "key_eq T k k' \<Longrightarrow> key_eq T k' k"
    and key_eq_trans: "key_eq T k k' \<Longrightarrow> key_eq T k' k'' \<Longrightarrow> key_eq T k k''"
    and key_eq_hash: "key_eq T k k' \<Longrightarrow> hashFunction T k = hashFunction T k'"
    and key_eq_dup: "keyDup T = Some dup \<Longrightarrow> key_eq T k (dup k)"
begin

lemma keys_differ_mset: "keys_differ T es \<longleftrightarrow> pairwise_mset (\<lambda>e e'. \<not> key_eq T (fst e) (fst e')) (mset es)"
  unfolding keys_differ_def by (rule sorted_wrt_sym_mset) (blast intro: key_eq_sym)

lemma keys_differ_cong: "mset es = mset es' \<Longrightarrow> keys_differ T es = keys_differ T es'"
  by (simp add: keys_differ_mset)

lemma rehash_bucket:
  assumes wf: "dict_wf d" and T: "dtype d = T" and re: "dictIsRehashing d"
    and t: "ht_table (ht0 d) = Some t" and i: "nat (rehashidx d) \<le> i" "i < length t"
    and empty: "\<forall>j. nat (rehashidx d) \<le> j \<and> j < i \<longrightarrow> t ! j = []"
  shows "\<exists>d1. rehash_move d (t ! i) = Some d1 \<and>
    same_entries d (d1\<lparr>ht0 := bucket_put (ht0 d1) i [], rehashidx := int i + 1\<rparr>) \<and>
    ht_size (ht0 d1) = ht_size (ht0 d)"
proof -
  let ?hash = "hashFunction T"
  have ok: "ht_ok ?hash (ht0 d)" "ht_ok ?hash (ht1 d)" "ht_table (ht1 d) \<noteq> None"
    using wf T re by (auto simp: dict_wf_def)
  have b: "bucket (ht0 d) i = Some (t ! i)" using t i(2) by (simp add: bucket_def)
  have le: "length (t ! i) \<le> used (ht0 d)"
    using bucket_length [OF b] ht_ok_used [OF ok(1)] by simp
  have sum: "used (ht0 d) + used (ht1 d) = length (dict_entries d)"
    using ok(1,2)[THEN ht_ok_used] by (simp add: dict_entries_def)
  obtain h1 where h1: "rehash_move d (t ! i) =
      Some (d\<lparr>ht0 := (ht0 d)\<lparr>used := used (ht0 d) - length (t ! i)\<rparr>, ht1 := h1\<rparr>)"
    "ht_ok ?hash h1" "ht_table h1 \<noteq> None"
    "mset (ht_entries h1) = mset (ht_entries (ht1 d)) + mset (t ! i)"
    using rehash_move_correct [of d "t ! i"] ok le sum wf T by (auto simp: dict_wf_def)
  define h0 where "h0 = (bucket_put (ht0 d) i [])\<lparr>used := used (ht0 d) - length (t ! i)\<rparr>"
  have h0: "ht_ok ?hash h0" "mset (ht_entries h0) + mset (t ! i) = mset (ht_entries (ht0 d))"
    using ht_ok_put [OF ok(1) b, of "[]"] le ht_entries_put [OF b, of "[]"] by (auto simp: h0_def)
  define d2 where "d2 = d\<lparr>ht0 := h0, ht1 := h1, rehashidx := int i + 1\<rparr>"
  have ms: "mset (dict_entries d2) = mset (dict_entries d)"
    using h1(4) h0(2) by (simp add: d2_def dict_entries_def ac_simps flip: h0(2))
  have bk: "bucket h0 j = Some []" if "j < Suc i" for j
  proof (cases "j < nat (rehashidx d)")
    case True
    then have "bucket (ht0 d) j = Some []" using wf re by (simp add: dict_wf_def)
    then show ?thesis by (simp add: h0_def bucket_bucket_put)
  next
    case False
    moreover have "bucket (ht0 d) j = Some (t ! j)" using that t i(2) by (simp add: bucket_def)
    ultimately show ?thesis
      using that empty by (cases "j = i") (auto simp: h0_def bucket_bucket_put)
  qed
  have "int i + 1 \<le> int (ht_size h0)"
    using ok(1) t i(2) by (simp add: h0_def ht_ok_def)
  then have "dict_wf d2"
    using wf T t re h0(1) h1(2,3) bk keys_differ_cong [OF ms] mset_eq_length [OF ms]
    by (simp add: dict_wf_def d2_def dictIsRehashing_def h0_def nat_add_distrib)
  then have "same_entries d d2" using ms by (simp add: same_entries_def d2_def)
  moreover have "(d\<lparr>ht0 := (ht0 d)\<lparr>used := used (ht0 d) - length (t ! i)\<rparr>, ht1 := h1\<rparr>)
      \<lparr>ht0 := bucket_put ((ht0 d)\<lparr>used := used (ht0 d) - length (t ! i)\<rparr>) i [], rehashidx := int i + 1\<rparr> = d2"
    by (simp add: d2_def h0_def bucket_put_def)
  ultimately show ?thesis using h1(1) by simp
qed

lemma rehash_loop_correct:
  assumes "dict_wf d" and "dtype d = T" and "dictIsRehashing d" and "0 < ev"
  shows "\<exists>d' out. rehash_loop n d ev = Some (d', out) \<and> same_entries d d' \<and> dictIsRehashing d' \<and>
    ht_size (ht0 d') = ht_size (ht0 d) \<and> rehashidx d \<le> rehashidx d' \<and>
    (out \<longrightarrow> rehashidx d < rehashidx d') \<and>
    (out \<or> used (ht0 d') = 0 \<or> rehashidx d + int n \<le> rehashidx d')"
  using assms
proof (induction n arbitrary: d ev)
  case 0
  then show ?case using same_entries_refl by (intro exI [of _ d] exI [of _ False]) simp
next
  case (Suc n)
  show ?case
  proof (cases "used (ht0 d) = 0")
    case True
    then show ?thesis
      using Suc.prems same_entries_refl by (intro exI [of _ d] exI [of _ False]) simp
  next
    case False
    obtain t j where t: "ht_table (ht0 d) = Some t" "nat (rehashidx d) \<le> j" "j < length t" "t ! j \<noteq> []"
      using rehash_target [OF Suc.prems(1,3) False] by blast
    have r0: "0 \<le> rehashidx d" and len: "length t = ht_size (ht0 d)"
      using Suc.prems(1,3) t(1) by (auto simp: dict_wf_def ht_ok_def)
    have lt: "rehashidx d < int (ht_size (ht0 d))" using t(2,3) len by linarith
    obtain i ev' out where sk: "rehash_skip (ht0 d) (nat (rehashidx d)) ev = Some (i, ev', out)"
        "nat (rehashidx d) \<le> i" "i \<le> j" "\<forall>k. nat (rehashidx d) \<le> k \<and> k < i \<longrightarrow> t ! k = []"
        "if out then nat (rehashidx d) < i else 0 < ev' \<and> t ! i \<noteq> []"
      using rehash_skip_correct [OF t(1,3,4,2) Suc.prems(4)] by blast
    show ?thesis
    proof (cases out)
      case True
      have "bucket (ht0 d) k = Some []" if "k < i" for k
        using that sk(3,4) t(1,3) Suc.prems(1,3)
        by (cases "k < nat (rehashidx d)") (auto simp: dict_wf_def bucket_def)
      then have "dict_wf (d\<lparr>rehashidx := int i\<rparr>)"
        using Suc.prems(1,3) sk(3) t(3) len
        by (simp add: dict_wf_def dictIsRehashing_def dict_entries_def)
      then have "same_entries d (d\<lparr>rehashidx := int i\<rparr>)"
        by (simp add: same_entries_def dict_entries_def)
      moreover have "rehashidx d < int i" using True sk(5) r0 by simp
      ultimately show ?thesis
        using True False lt sk(1)
        by (intro exI [of _ "d\<lparr>rehashidx := int i\<rparr>"] exI [of _ True]) (simp add: dictIsRehashing_def)
    next
      case out: False
      obtain d1 where d1: "rehash_move d (t ! i) = Some d1"
          "same_entries d (d1\<lparr>ht0 := bucket_put (ht0 d1) i [], rehashidx := int i + 1\<rparr>)"
          "ht_size (ht0 d1) = ht_size (ht0 d)"
        using rehash_bucket [OF Suc.prems(1-3) t(1) sk(2) _ sk(4)] sk(3) t(3) by auto
      let ?d2 = "d1\<lparr>ht0 := bucket_put (ht0 d1) i [], rehashidx := int i + 1\<rparr>"
      have eq: "rehash_loop (Suc n) d ev = rehash_loop n ?d2 ev'"
        using False lt sk(1) out t(1) sk(3) t(3) d1(1) by (simp add: bucket_def)
      have "dictIsRehashing ?d2" by (simp add: dictIsRehashing_def)
      moreover have "dict_wf ?d2" "dtype ?d2 = T"
        using d1(2) Suc.prems(2) by (auto simp: same_entries_def)
      ultimately obtain d' out' where d': "rehash_loop n ?d2 ev' = Some (d', out')"
          "same_entries ?d2 d'" "dictIsRehashing d'" "ht_size (ht0 d') = ht_size (ht0 ?d2)"
          "rehashidx ?d2 \<le> rehashidx d'" "out' \<longrightarrow> rehashidx ?d2 < rehashidx d'"
          "out' \<or> used (ht0 d') = 0 \<or> rehashidx ?d2 + int n \<le> rehashidx d'"
        using Suc.IH [of ?d2 ev'] sk(5) out by auto
      have "rehashidx d \<le> int i" using sk(2) r0 by simp
      then show ?thesis
        unfolding eq using d' d1(3) same_entries_trans [OF d1(2) d'(2)]
        by (intro exI [of _ d'] exI [of _ out']) auto
    qed
  qed
qed

lemma dictRehash_correct:
  assumes "dict_wf d" and "dtype d = T" and "0 < n"
  shows "\<exists>d' more. dictRehash d n = Some (d', more) \<and> same_entries d d' \<and>
    more = dictIsRehashing d' \<and>
    (more \<longrightarrow> ht_size (ht0 d') = ht_size (ht0 d) \<and> rehashidx d < rehashidx d')"
proof (cases "dictIsRehashing d")
  case False
  then show ?thesis using assms(1) by (simp add: dictRehash_def same_entries_def)
next
  case True
  obtain d1 out where d1: "rehash_loop n d (n * 10) = Some (d1, out)" "same_entries d d1"
      "dictIsRehashing d1" "ht_size (ht0 d1) = ht_size (ht0 d)" "rehashidx d \<le> rehashidx d1"
      "out \<longrightarrow> rehashidx d < rehashidx d1"
      "out \<or> used (ht0 d1) = 0 \<or> rehashidx d + int n \<le> rehashidx d1"
    using rehash_loop_correct [OF assms(1,2) True, of "n * 10" n] assms(3) by auto
  show ?thesis
  proof (cases "\<not> out \<and> used (ht0 d1) = 0")
    case False
    then show ?thesis
      using True d1 assms(3)
      by (intro exI [of _ d1] exI [of _ True]) (auto simp: dictRehash_def)
  next
    case fin: True
    let ?d' = "d1\<lparr>ht0 := ht1 d1, ht1 := dictReset, rehashidx := - 1\<rparr>"
    have wf1: "dict_wf d1" using d1(2) by (simp add: same_entries_def)
    then have "ht_entries (ht0 d1) = []"
      using fin ht_ok_used [of "hashFunction (dtype d1)" "ht0 d1"] by (simp add: dict_wf_def)
    then have ent: "dict_entries ?d' = dict_entries d1"
      by (simp add: dict_entries_def ht_entries_def dictReset_def)
    have "dict_wf ?d'"
      unfolding dict_wf_def ent
      using wf1 ht_ok_reset [of "hashFunction (dtype d1)"]
      by (simp add: dict_wf_def dictIsRehashing_def dictReset_def)
    then have "same_entries d ?d'" using d1(2) ent by (simp add: same_entries_def)
    then show ?thesis using True fin d1 by (simp add: dictRehash_def dictIsRehashing_def)
  qed
qed

lemma dictRehashStep_correct:
  assumes "dict_wf d" and "dtype d = T"
  shows "\<exists>d'. dictRehashStep d = Some d' \<and> same_entries d d'"
  using assms dictRehash_correct [OF assms, of 1]
  by (auto simp: dictRehashStep_def same_entries_def)

end

section \<open>Entries and keys\<close>

lemma put_entries:
  assumes "bucket (get_ht d t) i = Some b"
  shows "mset (dict_entries (put_ht d t ((bucket_put (get_ht d t) i b')\<lparr>used := u\<rparr>))) + mset b =
    mset (dict_entries d) + mset b'"
  using ht_entries_put [OF assms, of b']
  by (cases "t = 0") (simp_all add: dict_entries_def put_ht_def get_ht_def ac_simps)

lemma chain_unlink_mset:
  "find (\<lambda>e. P (fst e)) b = Some e \<Longrightarrow> mset b = add_mset e (mset (chain_unlink P b))"
  by (induction b) (auto split: if_splits)

lemma chain_unlink_set: "e \<in> set (chain_unlink P b) \<Longrightarrow> e \<in> set b"
  by (induction P b rule: chain_unlink.induct) (auto split: if_splits)

context dict_type
begin

lemma key_eq_refl: "key_eq T k k"
  by (simp add: key_eq_def)

lemma key_eq_left: "key_eq T k k' \<Longrightarrow> key_eq T k x \<longleftrightarrow> key_eq T k' x"
  using key_eq_sym key_eq_trans by blast

lemma entry_for_Some:
  assumes "keys_differ T es"
  shows "entry_for T es k = Some e \<longleftrightarrow> e \<in> set es \<and> key_eq T k (fst e)"
  using assms
proof (induction es)
  case (Cons e0 es)
  show ?case
  proof (cases "key_eq T k (fst e0)")
    case True
    have "\<not> key_eq T k (fst e')" if "e' \<in> set es" for e'
      using that Cons.prems True key_eq_left by (auto simp: keys_differ_def)
    then have "e \<in> set es \<Longrightarrow> \<not> key_eq T k (fst e)" .
    then show ?thesis using True by (auto simp: entry_for_def)
  next
    case False
    then have "entry_for T (e0 # es) k = entry_for T es k" by (simp add: entry_for_def)
    moreover have "keys_differ T es" using Cons.prems by (simp add: keys_differ_def)
    ultimately show ?thesis using Cons.IH False by auto
  qed
qed (simp add: entry_for_def)

lemma entry_for_None: "entry_for T es k = None \<longleftrightarrow> (\<forall>e \<in> set es. \<not> key_eq T k (fst e))"
  by (auto simp: entry_for_def find_None_iff)

lemma entry_for_cong:
  assumes "keys_differ T es" and "mset es' = mset es"
  shows "entry_for T es' = entry_for T es"
proof
  fix k
  have "keys_differ T es'" using keys_differ_cong [OF assms(2)] assms(1) by simp
  moreover have "set es' = set es" using assms(2) by (rule mset_eq_setD)
  ultimately have "entry_for T es' k = Some e \<longleftrightarrow> entry_for T es k = Some e" for e
    using assms(1) by (simp add: entry_for_Some)
  then show "entry_for T es' k = entry_for T es k"
    by (cases "entry_for T es k"; cases "entry_for T es' k") auto
qed

lemma keys_differ_add:
  assumes "mset es' = add_mset e (mset es)"
  shows "keys_differ T es' \<longleftrightarrow> keys_differ T es \<and> entry_for T es (fst e) = None"
proof -
  have "keys_differ T es' = keys_differ T (e # es)" using assms by (intro keys_differ_cong) simp
  then show ?thesis unfolding entry_for_None by (simp add: keys_differ_def conj_commute)
qed

lemma entry_for_add:
  assumes "mset es' = add_mset e (mset es)" and "keys_differ T es'"
  shows "entry_for T es' k = (if key_eq T (fst e) k then Some e else entry_for T es k)"
proof -
  have "keys_differ T (e # es)" using assms keys_differ_cong [of "e # es" es'] by simp
  then have "entry_for T es' k = entry_for T (e # es) k"
    using assms(1) entry_for_cong [of "e # es" es'] by simp
  moreover have "key_eq T (fst e) k \<longleftrightarrow> key_eq T k (fst e)" by (blast intro: key_eq_sym)
  ultimately show ?thesis by (simp add: entry_for_def)
qed

lemma keys_differ_keys: "map fst es' = map fst es \<Longrightarrow> keys_differ T es' = keys_differ T es"
  using sorted_wrt_map [of "\<lambda>k k'. \<not> key_eq T k k'" fst es]
    sorted_wrt_map [of "\<lambda>k k'. \<not> key_eq T k k'" fst es']
  by (simp add: keys_differ_def)

lemma dict_wf_put:
  assumes wf: "dict_wf d" and T: "dtype d = T" and t: "t \<le> 1"
    and b: "bucket (get_ht d t) i = Some b"
    and idx: "\<forall>e \<in> set b'. ht_index (get_ht d t) (hashFunction T (fst e)) = i"
    and u: "u + length b = used (get_ht d t) + length b'"
    and old: "b = [] \<longrightarrow> b' = [] \<or> t = 1 \<or> \<not> dictIsRehashing d"
    and new: "keys_differ T (dict_entries (put_ht d t ((bucket_put (get_ht d t) i b')\<lparr>used := u\<rparr>)))"
    and len: "length (dict_entries (put_ht d t ((bucket_put (get_ht d t) i b')\<lparr>used := u\<rparr>))) < 2 ^ 64"
  shows "dict_wf (put_ht d t ((bucket_put (get_ht d t) i b')\<lparr>used := u\<rparr>))"
proof -
  let ?h = "(bucket_put (get_ht d t) i b')\<lparr>used := u\<rparr>"
  have ok: "ht_ok (hashFunction T) (get_ht d t)"
    using wf T by (auto simp: dict_wf_def get_ht_def)
  have h: "ht_ok (hashFunction T) ?h" by (rule ht_ok_put [OF ok b idx u])
  have tbl: "ht_table ?h \<noteq> None" "ht_table (get_ht d t) \<noteq> None"
    using b by (auto simp: bucket_def bucket_put_def split: option.splits)
  consider "t = 0" | "t = 1" using t by linarith
  then show ?thesis
  proof cases
    case 1
    have "bucket ?h j = Some []" if "dictIsRehashing d" "j < nat (rehashidx d)" for j
      using that wf b old 1 by (auto simp: dict_wf_def get_ht_def bucket_bucket_put)
    then show ?thesis
      using wf T h tbl new len 1
      by (simp add: dict_wf_def put_ht_def get_ht_def dictIsRehashing_def)
  next
    case 2
    then have "dictIsRehashing d" using wf tbl(2) by (auto simp: dict_wf_def get_ht_def split: if_splits)
    then show ?thesis
      using wf T h tbl new len 2
      by (simp add: dict_wf_def put_ht_def get_ht_def dictIsRehashing_def)
  qed
qed

section \<open>Searching\<close>

lemma dict_wf_entries: "dict_wf d \<Longrightarrow> dtype d = T \<Longrightarrow> keys_differ T (dict_entries d)"
  by (simp add: dict_wf_def)

lemma find_bucket:
  assumes "ht_ok (hashFunction T) ht" and "ht_table ht \<noteq> None"
  shows "\<exists>b. bucket ht (ht_index ht (hashFunction T k)) = Some b \<and> set b \<subseteq> set (ht_entries ht) \<and>
    (find (\<lambda>e. key_eq T k (fst e)) b = None \<longrightarrow> (\<forall>e \<in> set (ht_entries ht). \<not> key_eq T k (fst e)))"
proof -
  obtain b where b: "bucket ht (ht_index ht (hashFunction T k)) = Some b"
    using ht_ok_index(2) [OF assms] by blast
  have "e \<in> set b" if "e \<in> set (ht_entries ht)" "key_eq T k (fst e)" for e
    using entries_bucket [OF assms(1) that(1)] key_eq_hash [OF that(2)] b by fastforce
  then have "find (\<lambda>e. key_eq T k (fst e)) b = None \<longrightarrow>
      (\<forall>e \<in> set (ht_entries ht). \<not> key_eq T k (fst e))"
    unfolding find_None_iff by blast
  then show ?thesis using b bucket_entries [OF b] by (intro exI [of _ b]) (simp add: subsetI)
qed

lemma find_dict_entry:
  assumes "dict_wf d" and "dtype d = T" and "find (\<lambda>e. key_eq T k (fst e)) b = Some e"
    and "set b \<subseteq> set (dict_entries d)"
  shows "dict_entry d k = Some e"
proof -
  have "e \<in> set b" "key_eq T k (fst e)" using assms(3) by (auto simp: find_Some_iff)
  then show ?thesis
    unfolding dict_entry_def assms(2) entry_for_Some [OF dict_wf_entries [OF assms(1,2)]]
    using assms(4) by blast
qed

lemma search_tables_correct:
  assumes wf: "dict_wf d" and T: "dtype d = T" and tbl: "ht_table (ht0 d) \<noteq> None"
  shows "\<exists>r. search_tables d (key_eq T k) (hashFunction T k) = Some r \<and>
    (case r of
       None \<Rightarrow> dict_entry d k = None
     | Some (t, i, e) \<Rightarrow> t \<le> 1 \<and> dict_entry d k = Some e \<and>
         i = ht_index (get_ht d t) (hashFunction T k) \<and>
         (\<exists>b. bucket (get_ht d t) i = Some b \<and> find (\<lambda>e. key_eq T k (fst e)) b = Some e))"
proof -
  let ?h = "hashFunction T k" and ?find = "find (\<lambda>e. key_eq T k (fst e))"
  have ok: "ht_ok (hashFunction T) (ht0 d)" "ht_ok (hashFunction T) (ht1 d)"
    using wf T by (auto simp: dict_wf_def)
  have sub: "set (ht_entries (ht0 d)) \<subseteq> set (dict_entries d)" "set (ht_entries (ht1 d)) \<subseteq> set (dict_entries d)"
    by (simp_all add: dict_entries_def)
  obtain b0 where b0: "bucket (ht0 d) (ht_index (ht0 d) ?h) = Some b0" "set b0 \<subseteq> set (dict_entries d)"
      "?find b0 = None \<Longrightarrow> \<forall>e \<in> set (ht_entries (ht0 d)). \<not> key_eq T k (fst e)"
    using find_bucket [OF ok(1) tbl, of k] sub(1) by (meson order_trans)
  show ?thesis
  proof (cases "?find b0")
    case (Some e)
    then show ?thesis
      using b0(1) find_dict_entry [OF wf T Some b0(2)] by (simp add: search_tables_def get_ht_def)
  next
    case None
    note no0 = b0(3) [OF None]
    show ?thesis
    proof (cases "dictIsRehashing d")
      case False
      then have "ht_entries (ht1 d) = []" using wf by (simp add: dict_wf_def ht_entries_def)
      then have "dict_entry d k = None"
        unfolding dict_entry_def T entry_for_None using no0 by (simp add: dict_entries_def)
      then show ?thesis using b0(1) None False by (simp add: search_tables_def)
    next
      case True
      then have "ht_table (ht1 d) \<noteq> None" using wf by (simp add: dict_wf_def)
      then obtain b1 where
        b1: "bucket (ht1 d) (ht_index (ht1 d) ?h) = Some b1" "set b1 \<subseteq> set (dict_entries d)"
          "?find b1 = None \<Longrightarrow> \<forall>e \<in> set (ht_entries (ht1 d)). \<not> key_eq T k (fst e)"
        using find_bucket [OF ok(2), of k] sub(2) by (meson order_trans)
      show ?thesis
      proof (cases "?find b1")
        case n1: None
        have "dict_entry d k = None"
          unfolding dict_entry_def T entry_for_None
          using no0 b1(3) [OF n1] by (simp add: dict_entries_def ball_Un)
        then show ?thesis using b0(1) b1(1) None n1 True by (simp add: search_tables_def)
      next
        case s1: (Some e)
        then show ?thesis
          using b0(1) b1(1) None True find_dict_entry [OF wf T s1 b1(2)]
          by (simp add: search_tables_def get_ht_def)
      qed
    qed
  qed
qed

end

definition val_dup :: "('k, 'v) dictType \<Rightarrow> 'v \<Rightarrow> 'v" where
  "val_dup T v = (case valDup T of Some dup \<Rightarrow> dup v | None \<Rightarrow> v)"

definition key_dup :: "('k, 'v) dictType \<Rightarrow> 'k \<Rightarrow> 'k" where
  "key_dup T k = (case keyDup T of Some dup \<Rightarrow> dup k | None \<Rightarrow> k)"

lemma put_ht_simps [simp]:
  "dtype (put_ht d t h) = dtype d" "iterators (put_ht d t h) = iterators d"
  "rehashidx (put_ht d t h) = rehashidx d" "dictIsRehashing (put_ht d t h) = dictIsRehashing d"
  "get_ht (put_ht d t h) t = h"
  by (simp_all add: put_ht_def get_ht_def dictIsRehashing_def)

lemma dict_wf_get_ht: "dict_wf d \<Longrightarrow> ht_ok (hashFunction (dtype d)) (get_ht d t)"
  by (simp add: dict_wf_def get_ht_def)

lemma dict_wf_length:
  "dict_wf d \<Longrightarrow> used (ht0 d) + used (ht1 d) = length (dict_entries d)"
  using ht_ok_used [of "hashFunction (dtype d)" "ht0 d"] ht_ok_used [of "hashFunction (dtype d)" "ht1 d"]
  by (simp add: dict_wf_def dict_entries_def)

lemma dictSize_eq: "dict_wf d \<Longrightarrow> dictSize d = length (dict_entries d)"
  using dict_wf_length [of d] by (simp add: dictSize_def u64_id dict_wf_def)

lemma used_table: "dict_wf d \<Longrightarrow> dict_entries d \<noteq> [] \<Longrightarrow> ht_table (ht0 d) \<noteq> None"
  by (cases "ht_table (ht0 d)"; cases "dictIsRehashing d")
     (simp_all add: dict_wf_def dict_entries_def ht_entries_def)

context dict_type
begin

lemma same_entries_entry:
  assumes "dict_wf d" and "dtype d = T" and "same_entries d d'"
  shows "dict_entry d' = dict_entry d"
proof -
  have "mset (dict_entries d') = mset (dict_entries d)" and T: "dtype d' = T"
    using assms(2,3) by (simp_all add: same_entries_def)
  from entry_for_cong [OF dict_wf_entries [OF assms(1,2)] this(1)] show ?thesis
    by (simp add: dict_entry_def T assms(2) fun_eq_iff)
qed

lemma same_entries_map:
  assumes "dict_wf d" and "dtype d = T" and "same_entries d d'"
  shows "dict_map d' = dict_map d"
  using same_entries_entry [OF assms] by (simp add: dict_map_def fun_eq_iff)

lemma dict_map_add:
  assumes "dict_wf d'" and "dtype d = T" and "dtype d' = T"
    and "mset (dict_entries d') = add_mset (k', v) (mset (dict_entries d))" and "key_eq T k k'"
  shows "dict_map d' = map_upd (key_eq T) k (Some v) (dict_map d)"
proof
  fix x
  have "dict_entry d' x = (if key_eq T k' x then Some (k', v) else dict_entry d x)"
    unfolding dict_entry_def assms(2,3)
    using entry_for_add [OF assms(4) dict_wf_entries [OF assms(1,3)], of x] by simp
  moreover have "key_eq T k' x \<longleftrightarrow> key_eq T k x" using key_eq_left [OF assms(5)] by simp
  ultimately show "dict_map d' x = map_upd (key_eq T) k (Some v) (dict_map d) x"
    by (simp add: dict_map_def map_upd_def)
qed

lemma dict_map_del:
  assumes "dict_wf d" and "dtype d = T" and "dtype d' = T"
    and "mset (dict_entries d) = add_mset e (mset (dict_entries d'))" and "key_eq T k (fst e)"
  shows "dict_map d' = map_upd (key_eq T) k None (dict_map d)"
proof
  fix x
  note kd = dict_wf_entries [OF assms(1,2)]
  have e: "dict_entry d x = (if key_eq T (fst e) x then Some e else dict_entry d' x)"
    unfolding dict_entry_def assms(2,3) using entry_for_add [OF assms(4) kd, of x] by simp
  have d': "keys_differ T (dict_entries d')" "entry_for T (dict_entries d') (fst e) = None"
    using keys_differ_add [OF assms(4)] kd by simp_all
  have "dict_entry d' x = None" if "key_eq T k x"
  proof -
    have "key_eq T (fst e) x" using that key_eq_left [OF assms(5)] by simp
    then have "key_eq T (fst e) y \<longleftrightarrow> key_eq T x y" for y by (rule key_eq_left)
    then show ?thesis
      using d'(2) unfolding dict_entry_def assms(3) entry_for_None by simp
  qed
  moreover have "key_eq T (fst e) x \<longleftrightarrow> key_eq T k x" using key_eq_left [OF assms(5)] by simp
  ultimately show "dict_map d' x = map_upd (key_eq T) k None (dict_map d) x"
    using e by (simp add: dict_map_def map_upd_def)
qed

section \<open>Expanding\<close>

lemma dictExpand_correct:
  assumes wf: "dict_wf d" and T: "dtype d = T" and sz: "sz \<le> 2 ^ 60"
  shows "\<exists>d' ok. dictExpand d sz = Some (d', ok) \<and> same_entries d d' \<and>
    (ok \<longrightarrow> ht_table (ht0 d') \<noteq> None) \<and>
    (\<not> dictIsRehashing d \<and> used (ht0 d) \<le> sz \<and> ht_size (ht0 d) < sz \<longrightarrow> ok)"
proof (cases "dictIsRehashing d \<or> used (ht0 d) > sz")
  case True
  then show ?thesis
    using same_entries_refl [OF wf] by (intro exI [of _ d] exI [of _ False]) (auto simp: dictExpand_def)
next
  case False
  obtain k where k: "dictNextPower sz = Some (2 ^ k)" "2 \<le> k" "k \<le> 60" "sz \<le> 2 ^ k"
    using dictNextPower_correct [OF sz] by blast
  have pow: "(2::nat) ^ k \<le> 2 ^ 60" "(1::nat) \<le> 2 ^ k"
    using power_increasing [OF k(3), of "2::nat"] by simp_all
  show ?thesis
  proof (cases "2 ^ k = ht_size (ht0 d)")
    case True
    then show ?thesis
      using False k same_entries_refl [OF wf]
      by (intro exI [of _ d] exI [of _ False]) (auto simp: dictExpand_def)
  next
    case ne: False
    define n :: "('k, 'v) dictht" where
      "n = \<lparr>ht_table = Some (replicate (2 ^ k) []), ht_size = 2 ^ k, sizemask = 2 ^ k - 1, used = 0\<rparr>"
    have n: "ht_ok (hashFunction T) n" "ht_entries n = []" "ht_table n \<noteq> None"
      using k by (auto simp: n_def ht_ok_def ht_entries_def)
    let ?d' = "if ht_table (ht0 d) = None then d\<lparr>ht0 := n\<rparr> else d\<lparr>ht1 := n, rehashidx := 0\<rparr>"
    have "u64 (2 ^ k * 8) div 8 = 2 ^ k" "u64_sub (2 ^ k) 1 = 2 ^ k - 1"
      using pow by (simp_all add: u64_id u64_sub_id)
    then have eq: "dictExpand d sz = Some (?d', True)"
      using False ne k(1) by (simp add: dictExpand_def n_def Let_def)
    have t1: "ht_table (ht1 d) = None" using wf False by (simp add: dict_wf_def)
    have ent: "dict_entries ?d' = dict_entries d"
      using n(2) t1 by (simp add: dict_entries_def ht_entries_def)
    have "dict_wf ?d'"
      unfolding dict_wf_def ent
      using wf T n False t1 by (simp add: dict_wf_def dictIsRehashing_def)
    then have "same_entries d ?d'" using ent by (simp add: same_entries_def)
    then show ?thesis using eq n(3) by (intro exI [of _ ?d'] exI [of _ True]) auto
  qed
qed

lemma dictExpandIfNeeded_correct:
  assumes wf: "dict_wf d" and T: "dtype d = T" and sz: "length (dict_entries d) \<le> 2 ^ 59"
  shows "\<exists>d'. dictExpandIfNeeded c d = Some (d', True) \<and> same_entries d d' \<and> ht_table (ht0 d') \<noteq> None"
proof -
  have us: "used (ht0 d) \<le> 2 ^ 59" using dict_wf_length [OF wf] sz by simp
  have s0: "ht_size (ht0 d) = 0 \<longleftrightarrow> ht_table (ht0 d) = None"
    using wf by (auto simp: dict_wf_def ht_ok_def split: option.splits)
  have u0: "ht_table (ht0 d) = None \<Longrightarrow> used (ht0 d) = 0"
    using wf by (auto simp: dict_wf_def ht_ok_def split: option.splits)
  show ?thesis
  proof (cases "dictIsRehashing d")
    case True
    then show ?thesis
      using same_entries_refl [OF wf] wf by (simp add: dictExpandIfNeeded_def dict_wf_def)
  next
    case nr: False
    consider (new) "ht_size (ht0 d) = 0"
      | (grow) "ht_size (ht0 d) \<noteq> 0" "used (ht0 d) \<ge> ht_size (ht0 d) \<and>
              (c \<or> used (ht0 d) div ht_size (ht0 d) > dict_force_resize_ratio)"
      | (keep) "ht_size (ht0 d) \<noteq> 0" "\<not> (used (ht0 d) \<ge> ht_size (ht0 d) \<and>
              (c \<or> used (ht0 d) div ht_size (ht0 d) > dict_force_resize_ratio))"
      by blast
    then show ?thesis
    proof cases
      case new
      then show ?thesis
        using dictExpand_correct [OF wf T, of DICT_HT_INITIAL_SIZE] nr s0 u0
        by (auto simp: dictExpandIfNeeded_def DICT_HT_INITIAL_SIZE_def)
    next
      case grow
      have "u64 (used (ht0 d) * 2) = used (ht0 d) * 2" using us by (simp add: u64_id)
      then show ?thesis
        using dictExpand_correct [OF wf T, of "used (ht0 d) * 2"] nr grow us
        by (auto simp: dictExpandIfNeeded_def)
    next
      case keep
      then show ?thesis
        using nr s0 same_entries_refl [OF wf] by (auto simp: dictExpandIfNeeded_def)
    qed
  qed
qed

lemma key_dup_eq: "key_eq T k (key_dup T k)"
  using key_eq_dup key_eq_refl by (simp add: key_dup_def split: option.split)

section \<open>Adding\<close>

lemma dictKeyIndex_correct:
  assumes "dict_wf d" and "dtype d = T" and "length (dict_entries d) \<le> 2 ^ 59"
  shows "\<exists>d'. same_entries d d' \<and> ht_table (ht0 d') \<noteq> None \<and>
    (case dict_entry d k of
       None \<Rightarrow> dictKeyIndex c d k (hashFunction T k) =
         Some (d', int (ht_index (get_ht d' (if dictIsRehashing d' then 1 else 0)) (hashFunction T k)), None)
     | Some e \<Rightarrow> \<exists>t i b. dictKeyIndex c d k (hashFunction T k) = Some (d', - 1, Some (t, i, fst e)) \<and>
         t \<le> 1 \<and> bucket (get_ht d' t) i = Some b \<and> e \<in> set b)"
proof -
  obtain d' where d': "dictExpandIfNeeded c d = Some (d', True)" "same_entries d d'"
      "ht_table (ht0 d') \<noteq> None"
    using dictExpandIfNeeded_correct [OF assms] by blast
  have wf': "dict_wf d'" "dtype d' = T" using d'(2) assms(2) by (auto simp: same_entries_def)
  obtain r where r: "search_tables d' (key_eq T k) (hashFunction T k) = Some r"
    "case r of None \<Rightarrow> dict_entry d' k = None
     | Some (t, i, e) \<Rightarrow> t \<le> 1 \<and> dict_entry d' k = Some e \<and>
         i = ht_index (get_ht d' t) (hashFunction T k) \<and>
         (\<exists>b. bucket (get_ht d' t) i = Some b \<and> find (\<lambda>e. key_eq T k (fst e)) b = Some e)"
    using search_tables_correct [OF wf' d'(3)] by blast
  have e: "dict_entry d' k = dict_entry d k"
    using same_entries_entry [OF assms(1,2) d'(2)] by simp
  show ?thesis
  proof (cases r)
    case None
    then show ?thesis
      using d' r e wf'(2) by (intro exI [of _ d']) (simp add: dictKeyIndex_def get_ht_def)
  next
    case (Some q)
    obtain t i e' where q: "q = (t, i, e')" by (cases q)
    obtain b where "bucket (get_ht d' t) i = Some b" "e' \<in> set b"
      using r(2) Some q by (auto simp: find_Some_iff)
    then show ?thesis
      using d' r e wf'(2) Some q
      by (intro exI [of _ d']) (simp add: dictKeyIndex_def ref_of_def)
  qed
qed

lemma rehash_if_rehashing:
  assumes "dict_wf d" and "dtype d = T"
  shows "\<exists>d'. (if dictIsRehashing d then dictRehashStep d else Some d) = Some d' \<and> same_entries d d'"
  using dictRehashStep_correct [OF assms] same_entries_refl [OF assms(1)]
  by (cases "dictIsRehashing d") simp_all

lemma dictAddRaw_correct:
  assumes wf: "dict_wf d" and T: "dtype d = T" and sz: "length (dict_entries d) < 2 ^ 59"
  shows "case dict_entry d k of
     Some e \<Rightarrow> \<exists>d' t i b. dictAddRaw c junk d k = Some (d', None, Some (t, i, fst e)) \<and>
       same_entries d d' \<and> t \<le> 1 \<and> bucket (get_ht d' t) i = Some b \<and> e \<in> set b
   | None \<Rightarrow> \<exists>d' t i b. dictAddRaw c junk d k = Some (d', Some (t, i, key_dup T k), None) \<and>
       dict_wf d' \<and> dtype d' = T \<and> iterators d' = iterators d \<and>
       mset (dict_entries d') = add_mset (key_dup T k, junk) (mset (dict_entries d)) \<and>
       t \<le> 1 \<and> bucket (get_ht d' t) i = Some b \<and> (key_dup T k, junk) \<in> set b"
proof -
  obtain d1 where d1: "(if dictIsRehashing d then dictRehashStep d else Some d) = Some d1"
      "same_entries d d1"
    using rehash_if_rehashing [OF wf T] by blast
  have wf1: "dict_wf d1" "dtype d1 = T" "length (dict_entries d1) = length (dict_entries d)"
    using d1(2) T by (auto simp: same_entries_def dest: mset_eq_length)
  have e1: "dict_entry d1 k = dict_entry d k"
    using same_entries_entry [OF wf T d1(2)] by simp
  obtain d2 where d2: "same_entries d1 d2" "ht_table (ht0 d2) \<noteq> None"
    "case dict_entry d1 k of
       None \<Rightarrow> dictKeyIndex c d1 k (hashFunction T k) =
         Some (d2, int (ht_index (get_ht d2 (if dictIsRehashing d2 then 1 else 0)) (hashFunction T k)), None)
     | Some e \<Rightarrow> \<exists>t i b. dictKeyIndex c d1 k (hashFunction T k) = Some (d2, - 1, Some (t, i, fst e)) \<and>
         t \<le> 1 \<and> bucket (get_ht d2 t) i = Some b \<and> e \<in> set b"
    using dictKeyIndex_correct [where k = k and c = c, OF wf1(1,2)] wf1(3) sz by auto
  have s2: "same_entries d d2" using same_entries_trans [OF d1(2) d2(1)] .
  have wf2: "dict_wf d2" "dtype d2 = T" "length (dict_entries d2) = length (dict_entries d)"
      "iterators d2 = iterators d" "mset (dict_entries d2) = mset (dict_entries d)"
    using s2 T by (auto simp: same_entries_def dest: mset_eq_length)
  show ?thesis
  proof (cases "dict_entry d k")
    case (Some e)
    then show ?thesis
      using d1 d2(3) e1 s2 wf1(2) by (auto simp: dictAddRaw_def dictHashKey_def)
  next
    case None
    define t where "t = (if dictIsRehashing d2 then 1 else 0 :: nat)"
    let ?ht = "get_ht d2 t" and ?k = "key_dup T k"
    let ?i = "ht_index ?ht (hashFunction T k)"
    have ok: "ht_ok (hashFunction T) ?ht" using dict_wf_get_ht [OF wf2(1)] wf2(2) by simp
    have tbl: "ht_table ?ht \<noteq> None"
      using d2(2) wf2(1) by (auto simp: t_def get_ht_def dict_wf_def)
    obtain b where b: "bucket ?ht ?i = Some b" using ht_ok_index(2) [OF ok tbl] by blast
    have us: "used ?ht < 2 ^ 59"
      using dict_wf_length [OF wf2(1)] wf2(3) sz by (simp add: get_ht_def)
    let ?h' = "(bucket_put ?ht ?i ((?k, junk) # b))\<lparr>used := Suc (used ?ht)\<rparr>"
    let ?d' = "put_ht d2 t ?h'"
    have ms: "mset (dict_entries ?d') = add_mset (?k, junk) (mset (dict_entries d2))"
      using put_entries [where b' = "(?k, junk) # b" and u = "Suc (used ?ht)", OF b] by simp
    have "dict_entry d2 k = None" using None same_entries_entry [OF wf T s2] by simp
    then have "entry_for T (dict_entries d2) ?k = None"
      using key_eq_left [OF key_dup_eq [of k]] by (simp add: dict_entry_def wf2(2) entry_for_def)
    then have kd: "keys_differ T (dict_entries ?d')"
      unfolding keys_differ_add [OF ms] using dict_wf_entries [OF wf2(1,2)] by simp
    have idx: "\<forall>e \<in> set ((?k, junk) # b). ht_index ?ht (hashFunction T (fst e)) = ?i"
      using bucket_index [OF ok b] key_eq_hash [OF key_dup_eq [of k]] by simp
    have "length (dict_entries ?d') = Suc (length (dict_entries d2))"
      using arg_cong [OF ms, of size] by simp
    then have "dict_wf ?d'"
      using wf2 sz kd by (intro dict_wf_put [OF wf2(1,2) _ b idx]) (auto simp: t_def)
    moreover have "dictAddRaw c junk d k = Some (?d', Some (t, ?i, ?k), None)"
      using d1(1) d2(3) e1 None wf1(2) wf2(2) b us
      by (simp add: dictAddRaw_def dictHashKey_def t_def Let_def u64_id key_dup_def)
    moreover have "bucket (get_ht ?d' t) ?i = Some ((?k, junk) # b)"
      using b by (simp add: bucket_bucket_put)
    moreover have "t \<le> 1" by (simp add: t_def)
    ultimately show ?thesis using None ms wf2 by auto
  qed
qed

lemma map_set_unique:
  assumes "keys_differ T (b1 @ (k, v0) # b2)"
  shows "map (\<lambda>e. if fst e = k then (k, v) else e) (b1 @ (k, v0) # b2) = b1 @ (k, v) # b2"
proof -
  have no: "fst e \<noteq> k" if "e \<in> set b1 \<union> set b2" for e
    using that assms key_eq_refl by (auto simp: keys_differ_def sorted_wrt_append)
  have "map (\<lambda>e. if fst e = k then (k, v) else e) b1 = b1"
      "map (\<lambda>e. if fst e = k then (k, v) else e) b2 = b2"
    using no by (simp_all add: map_idI)
  then show ?thesis by simp
qed

lemma keys_differ_subseq:
  assumes "mset es = mset es1 + mset es2" and "keys_differ T es"
  shows "keys_differ T es1"
proof -
  have "keys_differ T (es1 @ es2)" using assms keys_differ_cong [of es "es1 @ es2"] by simp
  then show ?thesis by (simp add: keys_differ_def sorted_wrt_append)
qed

lemma bucket_keys_differ:
  assumes "dict_wf d" and "dtype d = T" and "bucket (get_ht d t) i = Some b"
  shows "keys_differ T b"
proof -
  have "mset (dict_entries d) =
      mset b + mset (dict_entries (put_ht d t ((bucket_put (get_ht d t) i [])\<lparr>used := 0\<rparr>)))"
    using put_entries [where b' = "[]" and u = 0, OF assms(3)] by (simp add: ac_simps)
  then show ?thesis using dict_wf_entries [OF assms(1,2)] by (rule keys_differ_subseq)
qed

lemma dictSetVal_correct:
  assumes wf: "dict_wf d" and T: "dtype d = T" and t: "t \<le> 1"
    and b: "bucket (get_ht d t) i = Some b" and e: "(k, v0) \<in> set b"
  shows "\<exists>d'. dictSetVal d (t, i, k) v = Some d' \<and> dict_wf d' \<and> dtype d' = T \<and>
    iterators d' = iterators d \<and>
    add_mset (k, v0) (mset (dict_entries d')) = add_mset (k, val_dup T v) (mset (dict_entries d))"
proof -
  let ?v = "val_dup T v" and ?ht = "get_ht d t"
  obtain b1 b2 where b12: "b = b1 @ (k, v0) # b2" using e by (auto dest: split_list)
  let ?b' = "b1 @ (k, ?v) # b2"
  have mp: "map (\<lambda>e. if fst e = k then (k, ?v) else e) b = ?b'"
    using map_set_unique bucket_keys_differ [OF wf T b] unfolding b12 by simp
  let ?d' = "put_ht d t ((bucket_put ?ht i ?b')\<lparr>used := used ?ht\<rparr>)"
  have ms: "add_mset (k, v0) (mset (dict_entries ?d')) = add_mset (k, ?v) (mset (dict_entries d))"
    using put_entries [where b' = ?b' and u = "used ?ht", OF b] unfolding b12 by simp
  have "dictSetVal d (t, i, k) v = Some (put_ht d t (bucket_put ?ht i ?b'))"
    using b image_eqI [OF _ e, of k fst] mp
    by (simp add: dictSetVal_def T Let_def flip: val_dup_def)
  moreover have "(bucket_put ?ht i ?b')\<lparr>used := used ?ht\<rparr> = bucket_put ?ht i ?b'"
    by (simp add: bucket_put_def)
  ultimately have eq: "dictSetVal d (t, i, k) v = Some ?d'" by (simp only:)
  have ok: "ht_ok (hashFunction T) ?ht" using dict_wf_get_ht [OF wf] T by simp
  have idx: "\<forall>e \<in> set ?b'. ht_index ?ht (hashFunction T (fst e)) = i"
    using bucket_index [OF ok b] bucket_index [OF ok b e] by (simp add: b12)
  have len: "length (dict_entries ?d') = length (dict_entries d)"
    using arg_cong [OF ms, of size] by simp
  have "keys_differ T (dict_entries ?d')"
  proof -
    obtain es where es: "mset (dict_entries d) = add_mset (k, v0) (mset es)"
      using bucket_entries [OF b e] t
      by (metis (no_types) Un_iff dict_entries_def ex_mset get_ht_def mset_add set_append set_mset_mset)
    then have "mset (dict_entries ?d') = add_mset (k, ?v) (mset es)" using ms by simp
    then show ?thesis
      using es keys_differ_add [OF es] keys_differ_add [of "dict_entries ?d'"] dict_wf_entries [OF wf T]
      by simp
  qed
  then have "dict_wf ?d'"
    using wf len b12 by (intro dict_wf_put [OF wf T t b idx]) (simp_all add: dict_wf_def)
  then show ?thesis using eq ms T by (intro exI [of _ ?d']) simp
qed

lemma dictAdd_map:
  assumes wf: "dict_wf d" and T: "dtype d = T" and sz: "length (dict_entries d) < 2 ^ 59"
  shows "\<exists>d'. dictAdd c junk d k v = Some (d', dict_map d k = None) \<and>
    dict_wf d' \<and> dtype d' = T \<and> iterators d' = iterators d \<and>
    dict_map d' = (if dict_map d k = None then map_upd (key_eq T) k (Some (val_dup T v)) (dict_map d)
                   else dict_map d) \<and>
    length (dict_entries d') = length (dict_entries d) + (if dict_map d k = None then 1 else 0)"
proof (cases "dict_entry d k")
  case (Some e)
  then obtain d' t i where d': "dictAddRaw c junk d k = Some (d', None, Some (t, i, fst e))"
      "same_entries d d'"
    using dictAddRaw_correct [where k = k and c = c and junk = junk, OF wf T sz] by auto
  then show ?thesis
    using Some same_entries_map [OF wf T d'(2)] T
    by (auto simp: dictAdd_def dict_map_def same_entries_def dest: mset_eq_length)
next
  case None
  then obtain d1 t i b where d1: "dictAddRaw c junk d k = Some (d1, Some (t, i, key_dup T k), None)"
      "dict_wf d1" "dtype d1 = T" "iterators d1 = iterators d"
      "mset (dict_entries d1) = add_mset (key_dup T k, junk) (mset (dict_entries d))"
      "t \<le> 1" "bucket (get_ht d1 t) i = Some b" "(key_dup T k, junk) \<in> set b"
    using dictAddRaw_correct [where k = k and c = c and junk = junk, OF wf T sz] by auto
  obtain d' where d': "dictSetVal d1 (t, i, key_dup T k) v = Some d'" "dict_wf d'" "dtype d' = T"
      "iterators d' = iterators d1"
      "add_mset (key_dup T k, junk) (mset (dict_entries d')) =
       add_mset (key_dup T k, val_dup T v) (mset (dict_entries d1))"
    using dictSetVal_correct [OF d1(2,3,6,7,8)] by blast
  have ms: "mset (dict_entries d') = add_mset (key_dup T k, val_dup T v) (mset (dict_entries d))"
    using d'(5) d1(5) by simp
  have "dict_map d' = map_upd (key_eq T) k (Some (val_dup T v)) (dict_map d)"
    by (rule dict_map_add [OF d'(2) T d'(3) ms key_dup_eq])
  then show ?thesis
    using None d1(1,4) d' arg_cong [OF ms, of size] by (simp add: dictAdd_def dict_map_def)
qed

lemma dictReplace_map:
  assumes wf: "dict_wf d" and T: "dtype d = T" and sz: "length (dict_entries d) < 2 ^ 59"
  shows "\<exists>d'. dictReplace c junk d k v = Some (d', dict_map d k = None) \<and>
    dict_wf d' \<and> dtype d' = T \<and> iterators d' = iterators d \<and>
    dict_map d' = map_upd (key_eq T) k (Some (val_dup T v)) (dict_map d) \<and>
    length (dict_entries d') = length (dict_entries d) + (if dict_map d k = None then 1 else 0)"
proof (cases "dict_entry d k")
  case None
  then show ?thesis
    using dictAdd_map [where k = k and c = c and junk = junk and v = v, OF assms] dictAddRaw_correct [where k = k and c = c and junk = junk, OF assms]
    by (auto simp: dictAdd_def dictReplace_def dict_map_def)
next
  case (Some e)
  then obtain d1 t i b where d1: "dictAddRaw c junk d k = Some (d1, None, Some (t, i, fst e))"
      "same_entries d d1" "t \<le> 1" "bucket (get_ht d1 t) i = Some b" "e \<in> set b"
    using dictAddRaw_correct [where k = k and c = c and junk = junk, OF wf T sz] by auto
  have wf1: "dict_wf d1" "dtype d1 = T" "iterators d1 = iterators d"
      "mset (dict_entries d1) = mset (dict_entries d)"
    using d1(2) T by (auto simp: same_entries_def)
  have "(fst e, snd e) \<in> set b" using d1(5) by simp
  then obtain d' where d': "dictSetVal d1 (t, i, fst e) v = Some d'" "dict_wf d'" "dtype d' = T"
      "iterators d' = iterators d1"
      "add_mset (fst e, snd e) (mset (dict_entries d')) =
       add_mset (fst e, val_dup T v) (mset (dict_entries d1))"
    using dictSetVal_correct [OF wf1(1,2) d1(3,4)] by blast
  have ke: "key_eq T k (fst e)" "e \<in> set (dict_entries d)"
    using Some entry_for_Some [OF dict_wf_entries [OF wf T]] by (auto simp: dict_entry_def T)
  have len: "length (dict_entries d') = length (dict_entries d)"
    using arg_cong [OF d'(5), of size] arg_cong [OF wf1(4), of size] by simp
  have "dict_map d' = map_upd (key_eq T) k (Some (val_dup T v)) (dict_map d)"
  proof -
    obtain es where es: "mset (dict_entries d) = add_mset e (mset es)"
      using ke(2) by (metis ex_mset mset_add set_mset_mset)
    define d0 where "d0 = d\<lparr>ht0 := dictReset\<lparr>ht_table := Some [es]\<rparr>, ht1 := dictReset\<rparr>"
    have d0: "dtype d0 = T" "dict_entries d0 = es"
      using T by (simp_all add: d0_def dict_entries_def ht_entries_def dictReset_def)
    have "mset (dict_entries d') = add_mset (fst e, val_dup T v) (mset (dict_entries d0))"
      using d'(5) wf1(4) es d0(2) by simp
    then have "dict_map d' = map_upd (key_eq T) k (Some (val_dup T v)) (dict_map d0)"
      using dict_map_add [OF d'(2) d0(1) d'(3) _ ke(1)] by simp
    moreover have "dict_map d0 = map_upd (key_eq T) k None (dict_map d)"
      using dict_map_del [OF wf T d0(1) _ ke(1)] es d0(2) by simp
    ultimately show ?thesis by (simp add: map_upd_def fun_eq_iff)
  qed
  then show ?thesis
    using Some d1(1) d' wf1(3) len by (simp add: dictReplace_def dict_map_def)
qed

lemma dict_entry_None_empty: "dict_entries d = [] \<Longrightarrow> dict_entry d k = None"
  by (simp add: dict_entry_def entry_for_def)

lemma same_entries_wf:
  assumes "same_entries d d'" and "dtype d = T"
  shows "dict_wf d'" "dtype d' = T" "iterators d' = iterators d"
    "length (dict_entries d') = length (dict_entries d)" "set (dict_entries d') = set (dict_entries d)"
  using assms by (auto simp: same_entries_def dest: mset_eq_length mset_eq_setD)

lemma dictGenericDelete_correct:
  assumes wf: "dict_wf d" and T: "dtype d = T"
  shows "\<exists>d'. dictGenericDelete d k = Some (d', dict_entry d k) \<and>
    dict_wf d' \<and> dtype d' = T \<and> iterators d' = iterators d \<and>
    dict_map d' = map_upd (key_eq T) k None (dict_map d) \<and>
    mset (dict_entries d) = mset (dict_entries d') + mset (case dict_entry d k of None \<Rightarrow> [] | Some e \<Rightarrow> [e])"
proof (cases "dict_entries d = []")
  case True
  then have "used (ht0 d) = 0" "used (ht1 d) = 0" using dict_wf_length [OF wf] by simp_all
  then show ?thesis
    using True assms dict_entry_None_empty [OF True]
    by (simp add: dictGenericDelete_def dict_map_def map_upd_def fun_eq_iff)
next
  case False
  then have ne: "\<not> (used (ht0 d) = 0 \<and> used (ht1 d) = 0)" using dict_wf_length [OF wf] by auto
  obtain d1 where d1: "(if dictIsRehashing d then dictRehashStep d else Some d) = Some d1"
      "same_entries d d1"
    using rehash_if_rehashing [OF wf T] by blast
  note wf1 = same_entries_wf [OF d1(2) T]
  have e1: "dict_entry d1 k = dict_entry d k" "dict_map d1 = dict_map d"
    using same_entries_entry [OF wf T d1(2)] same_entries_map [OF wf T d1(2)] by simp_all
  have "dict_entries d1 \<noteq> []" using False wf1(4) by auto
  then have "ht_table (ht0 d1) \<noteq> None" by (rule used_table [OF wf1(1)])
  then obtain r where r: "search_tables d1 (key_eq T k) (hashFunction T k) = Some r"
    "case r of None \<Rightarrow> dict_entry d1 k = None
     | Some (t, i, e) \<Rightarrow> t \<le> 1 \<and> dict_entry d1 k = Some e \<and>
         i = ht_index (get_ht d1 t) (hashFunction T k) \<and>
         (\<exists>b. bucket (get_ht d1 t) i = Some b \<and> find (\<lambda>e. key_eq T k (fst e)) b = Some e)"
    using search_tables_correct [OF wf1(1,2)] by blast
  have step: "dictGenericDelete d k = (case r of None \<Rightarrow> Some (d1, None)
     | Some (t, i, e) \<Rightarrow>
        do { b \<leftarrow> bucket (get_ht d1 t) i;
             Some (put_ht d1 t ((bucket_put (get_ht d1 t) i (chain_unlink (key_eq T k) b))
                                   \<lparr>used := u64_sub (used (get_ht d1 t)) 1\<rparr>), Some e) })"
    unfolding dictGenericDelete_def if_not_P [OF ne] d1(1)
    using r(1) wf1(2) by (simp add: dictHashKey_def del: One_nat_def)
  show ?thesis
  proof (cases r)
    case None
    then have no: "dict_entry d k = None" using r(2) e1 by simp
    have "dict_map d1 = map_upd (key_eq T) k None (dict_map d1)"
    proof
      fix x
      have "dict_entry d1 x = None" if "key_eq T k x"
        using no e1(1) key_eq_left [OF that] by (simp add: dict_entry_def wf1(2) entry_for_def)
      then show "dict_map d1 x = map_upd (key_eq T) k None (dict_map d1) x"
        by (simp add: map_upd_def dict_map_def)
    qed
    then show ?thesis
      using step None no wf1 d1(2) e1(2) by (simp add: same_entries_def)
  next
    case (Some q)
    obtain t i e where q: "q = (t, i, e)" by (cases q)
    obtain b where b: "t \<le> 1" "dict_entry d1 k = Some e" "bucket (get_ht d1 t) i = Some b"
        "find (\<lambda>e. key_eq T k (fst e)) b = Some e"
      using r(2) Some q by auto
    let ?ht = "get_ht d1 t" and ?b' = "chain_unlink (key_eq T k) b"
    have bm: "mset b = add_mset e (mset ?b')" by (rule chain_unlink_mset [OF b(4)])
    then have bl: "length b = Suc (length ?b')" by (metis size_add_mset size_mset)
    have ok: "ht_ok (hashFunction T) ?ht" using dict_wf_get_ht [OF wf1(1)] wf1(2) by simp
    have us: "1 \<le> used ?ht" "used ?ht < 2 ^ 64"
      using bucket_length [OF b(3)] bl ht_ok_used [OF ok] dict_wf_length [OF wf1(1)] wf1(1)
      by (auto simp: get_ht_def dict_wf_def split: if_splits)
    let ?d' = "put_ht d1 t ((bucket_put ?ht i ?b')\<lparr>used := used ?ht - 1\<rparr>)"
    have ms: "mset (dict_entries d1) = add_mset e (mset (dict_entries ?d'))"
      using put_entries [where b' = ?b' and u = "used ?ht - 1", OF b(3)] bm by simp
    have idx: "\<forall>e \<in> set ?b'. ht_index ?ht (hashFunction T (fst e)) = i"
      using bucket_index [OF ok b(3)] chain_unlink_set by fast
    have len: "length (dict_entries d1) = Suc (length (dict_entries ?d'))"
      using arg_cong [OF ms, of size] by simp
    have "dict_wf ?d'"
    proof (rule dict_wf_put [OF wf1(1,2) b(1,3) idx])
      show "keys_differ T (dict_entries ?d')"
        using keys_differ_add [OF ms] dict_wf_entries [OF wf1(1,2)] by simp
      show "length (dict_entries ?d') < 2 ^ 64" using len wf1(1) by (simp add: dict_wf_def)
    qed (use bl us in auto)
    moreover have "key_eq T k (fst e)" using b(4) by (auto simp: find_Some_iff)
    then have "dict_map ?d' = map_upd (key_eq T) k None (dict_map d1)"
      using wf1(2) by (intro dict_map_del [OF wf1(1,2) _ ms]) simp_all
    moreover have "dictGenericDelete d k = Some (?d', Some e)"
      using step Some q b(3) u64_sub_id [OF us] by simp
    moreover have "dict_entry d k = Some e" using e1(1) b(2) by simp
    moreover have "mset (dict_entries d) = mset (dict_entries d1)" using d1(2) by (simp add: same_entries_def)
    ultimately show ?thesis
      using e1(2) wf1 ms by (intro exI [of _ ?d']) simp
  qed
qed

lemma dictFind_correct:
  assumes wf: "dict_wf d" and T: "dtype d = T"
  shows "\<exists>d' r. dictFind d k = Some (d', r) \<and> same_entries d d' \<and>
    map_option (snd \<circ> snd) r = dict_entry d k"
proof (cases "dict_entries d = []")
  case True
  then show ?thesis
    using same_entries_refl [OF wf] dict_entry_None_empty [OF True]
    by (simp add: dictFind_def dictSize_eq [OF wf])
next
  case False
  obtain d1 where d1: "(if dictIsRehashing d then dictRehashStep d else Some d) = Some d1"
      "same_entries d d1"
    using rehash_if_rehashing [OF wf T] by blast
  note wf1 = same_entries_wf [OF d1(2) T]
  have "dict_entries d1 \<noteq> []" using False wf1(4) by auto
  then have "ht_table (ht0 d1) \<noteq> None" by (rule used_table [OF wf1(1)])
  then obtain r where r: "search_tables d1 (key_eq T k) (hashFunction T k) = Some r"
      "map_option (snd \<circ> snd) r = dict_entry d1 k"
    using search_tables_correct [where k = k, OF wf1(1,2)] by (fastforce split: option.splits)
  have "dictFind d k = Some (d1, r)"
    using False d1(1) r(1) wf1(2) by (simp add: dictFind_def dictSize_eq [OF wf] dictHashKey_def)
  then show ?thesis using d1(2) r(2) same_entries_entry [OF wf T d1(2)] by simp
qed

lemma dictFetchValue_correct:
  assumes "dict_wf d" and "dtype d = T"
  shows "\<exists>d'. dictFetchValue d k = Some (d', dict_map d k) \<and> same_entries d d'"
proof -
  obtain d' r where r: "dictFind d k = Some (d', r)" "same_entries d d'"
      "map_option (snd \<circ> snd) r = dict_entry d k"
    using dictFind_correct [OF assms] by blast
  have "map_option (\<lambda>(t, i, e). snd e) r = dict_map d k"
    by (simp add: dict_map_def option.map_comp flip: r(3)) (cases r, auto)
  then show ?thesis using r by (simp add: dictFetchValue_def)
qed

lemma dictRehashMilliseconds_loop_correct:
  assumes "dict_wf d" and "dtype d = T"
  shows "\<exists>d' r. dictRehashMilliseconds_loop d ms clock i n = Some (d', r) \<and> same_entries d d'"
  using assms
proof (induction "nat (int (ht_size (ht0 d)) - rehashidx d)" arbitrary: d i n rule: less_induct)
  case less
  obtain d1 more where d1: "dictRehash d 100 = Some (d1, more)" "same_entries d d1"
      "more = dictIsRehashing d1"
      "more \<longrightarrow> ht_size (ht0 d1) = ht_size (ht0 d) \<and> rehashidx d < rehashidx d1"
    using dictRehash_correct [OF less.prems, of 100] by auto
  note wf1 = same_entries_wf [OF d1(2) less.prems(2)]
  show ?case
  proof (cases "more \<and> \<not> clock i - clock 0 > ms")
    case False
    then show ?thesis
      using d1(1,2) by (subst dictRehashMilliseconds_loop.simps) auto
  next
    case True
    have "rehashidx d1 \<le> int (ht_size (ht0 d1))"
      using wf1(1) d1(3) True by (simp add: dict_wf_def)
    then have "nat (int (ht_size (ht0 d1)) - rehashidx d1) < nat (int (ht_size (ht0 d)) - rehashidx d)"
      using d1(4) True by simp
    from less.hyps [OF this wf1(1,2)] obtain d' r where
      "dictRehashMilliseconds_loop d1 ms clock (i + 1) (n + 100) = Some (d', r)" "same_entries d1 d'"
      by blast
    then show ?thesis
      using True d1(1) same_entries_trans [OF d1(2)]
      by (subst dictRehashMilliseconds_loop.simps) auto
  qed
qed

lemma dictDelete_map:
  assumes "dict_wf d" and "dtype d = T"
  shows "\<exists>d'. dictDelete d k = Some (d', dict_map d k \<noteq> None) \<and> dict_wf d' \<and> dtype d' = T \<and>
    length (dict_entries d') \<le> length (dict_entries d) \<and> dict_map d' = map_upd (key_eq T) k None (dict_map d)"
proof -
  obtain d' where d': "dictGenericDelete d k = Some (d', dict_entry d k)" "dict_wf d'" "dtype d' = T"
      "dict_map d' = map_upd (key_eq T) k None (dict_map d)"
      "mset (dict_entries d) = mset (dict_entries d') + mset (case dict_entry d k of None \<Rightarrow> [] | Some e \<Rightarrow> [e])"
    using dictGenericDelete_correct [OF assms] by blast
  moreover have "length (dict_entries d') \<le> length (dict_entries d)"
    using arg_cong [OF d'(5), of size] by simp
  ultimately show ?thesis by (auto simp: dictDelete_def dict_map_def)
qed

end

sublocale dict_type \<subseteq> dict_ops: bounded_map "\<lambda>d. dict_wf d \<and> dtype d = T" dict_map
  "\<lambda>d. length (dict_entries d)" "2 ^ 59" "key_eq T" "val_dup T"
  "dictAdd c junk" "dictReplace c junk" dictDelete dictFetchValue for c junk
proof
  fix d k v
  assume inv: "dict_wf d \<and> dtype d = T"
  then have wf: "dict_wf d" and T: "dtype d = T" by simp_all
  show "\<exists>d'. dictDelete d k = Some (d', dict_map d k \<noteq> None) \<and> (dict_wf d' \<and> dtype d' = T) \<and>
      length (dict_entries d') \<le> length (dict_entries d) \<and>
      dict_map d' = map_upd (key_eq T) k None (dict_map d)"
    using dictDelete_map [OF wf T, of k] by auto
  show "\<exists>d'. dictFetchValue d k = Some (d', dict_map d k) \<and> (dict_wf d' \<and> dtype d' = T) \<and>
      length (dict_entries d') \<le> length (dict_entries d) \<and> dict_map d' = dict_map d"
    using dictFetchValue_correct [where k = k, OF wf T] same_entries_wf [OF _ T] same_entries_map [OF wf T]
    by fastforce
  assume sz: "length (dict_entries d) < 2 ^ 59"
  show "\<exists>d'. dictAdd c junk d k v = Some (d', dict_map d k = None) \<and> (dict_wf d' \<and> dtype d' = T) \<and>
      length (dict_entries d') \<le> Suc (length (dict_entries d)) \<and>
      dict_map d' = (if dict_map d k = None then map_upd (key_eq T) k (Some (val_dup T v)) (dict_map d)
                     else dict_map d)"
    using dictAdd_map [where c = c and junk = junk and k = k and v = v, OF wf T sz]
    by auto
  show "\<exists>d'. dictReplace c junk d k v = Some (d', dict_map d k = None) \<and> (dict_wf d' \<and> dtype d' = T) \<and>
      length (dict_entries d') \<le> Suc (length (dict_entries d)) \<and>
      dict_map d' = map_upd (key_eq T) k (Some (val_dup T v)) (dict_map d)"
    using dictReplace_map [where c = c and junk = junk and k = k and v = v, OF wf T sz]
    by auto
qed

context dict_type
begin

lemmas run_dict_ops = dict_ops.run_map_ops_spec

end

lemma dict_wf_create: "dict_wf (dictCreate T)"
  and dict_map_create: "dict_map (dictCreate T) = (\<lambda>_. None)"
  and dict_entries_create: "dict_entries (dictCreate T) = []"
  by (auto simp: dictCreate_def dictInit_def dict_wf_def dict_map_def dict_entry_def entry_for_def
      dict_entries_def ht_entries_def keys_differ_def dictIsRehashing_def dictReset_def ht_ok_def)

end
