(* ===== verification/Siphash.thy ===== *)
theory Siphash
  imports Redis_Prelude
begin

unbundle bit_operations_syntax

text \<open>
  The keyed hash function of \<open>redis-6.0.10/src/siphash.c\<close> (SipHash with one round per block and two
  final ones) and its variant that ignores the case of ASCII letters. A \<open>uint64_t\<close> is a
  \<open>64 word\<close>; the four state words are a tuple. The input is a list of bytes, the key its 16 bytes.
\<close>

section \<open>Definitions\<close>

type_synonym sip_state = "64 word \<times> 64 word \<times> 64 word \<times> 64 word"

definition siptlw :: "byte \<Rightarrow> byte" where
  "siptlw c = (if 65 \<le> c \<and> c \<le> 90 then c + 32 else c)"

definition ROTL :: "64 word \<Rightarrow> nat \<Rightarrow> 64 word" where
  "ROTL x b = push_bit b x OR drop_bit (64 - b) x"

text \<open>The bytes at a pointer, least significant first, joined as the macros join them.\<close>

primrec le_word :: "bytes \<Rightarrow> 64 word" where
  "le_word [] = 0"
| "le_word (b # bs) = ucast b OR push_bit 8 (le_word bs)"

definition U8TO64_LE :: "bytes \<Rightarrow> 64 word" where
  "U8TO64_LE p = le_word (take 8 p)"

definition U8TO64_LE_NOCASE :: "bytes \<Rightarrow> 64 word" where
  "U8TO64_LE_NOCASE p = le_word (map siptlw (take 8 p))"

fun SIPROUND :: "sip_state \<Rightarrow> sip_state" where
  "SIPROUND (v0, v1, v2, v3) =
     (let v0 = v0 + v1; v1 = ROTL v1 13; v1 = v1 XOR v0; v0 = ROTL v0 32;
          v2 = v2 + v3; v3 = ROTL v3 16; v3 = v3 XOR v2;
          v0 = v0 + v3; v3 = ROTL v3 21; v3 = v3 XOR v0;
          v2 = v2 + v1; v1 = ROTL v1 17; v1 = v1 XOR v2; v2 = ROTL v2 32
      in (v0, v1, v2, v3))"

text \<open>One block: \<open>v3 ^= m; SIPROUND; v0 ^= m\<close>.\<close>

definition sip_block :: "64 word \<Rightarrow> sip_state \<Rightarrow> sip_state" where
  "sip_block m s =
     (let (v0, v1, v2, v3) = s; (v0, v1, v2, v3) = SIPROUND (v0, v1, v2, v3 XOR m)
      in (v0 XOR m, v1, v2, v3))"

definition sip_init :: "bytes \<Rightarrow> sip_state" where
  "sip_init k =
     (let k0 = U8TO64_LE k; k1 = U8TO64_LE (drop 8 k)
      in (0x736f6d6570736575 XOR k0, 0x646f72616e646f6d XOR k1,
          0x6c7967656e657261 XOR k0, 0x7465646279746573 XOR k1))"

definition sip_final :: "64 word \<Rightarrow> sip_state \<Rightarrow> 64 word" where
  "sip_final b s =
     (let (v0, v1, v2, v3) = sip_block b s;
          (v0, v1, v2, v3) = SIPROUND (SIPROUND (v0, v1, v2 XOR 0xff, v3))
      in v0 XOR v1 XOR v2 XOR v3)"

text \<open>The loop over the whole blocks; the rest of the input is what the final switch reads.\<close>

fun sip_blocks :: "(bytes \<Rightarrow> 64 word) \<Rightarrow> bytes \<Rightarrow> sip_state \<Rightarrow> sip_state \<times> bytes" where
  "sip_blocks rd inp s =
     (if length inp < 8 then (s, inp) else sip_blocks rd (drop 8 inp) (sip_block (rd inp) s))"

declare sip_blocks.simps [simp del]

definition siphash :: "bytes \<Rightarrow> bytes \<Rightarrow> 64 word" where
  "siphash inp k =
     (let (s, left) = sip_blocks U8TO64_LE inp (sip_init k);
          b = push_bit 56 (of_nat (length inp)) OR le_word left
      in sip_final b s)"

definition siphash_nocase :: "bytes \<Rightarrow> bytes \<Rightarrow> 64 word" where
  "siphash_nocase inp k =
     (let (s, left) = sip_blocks U8TO64_LE_NOCASE inp (sip_init k);
          b = push_bit 56 (of_nat (length inp)) OR le_word (map siptlw left)
      in sip_final b s)"

section \<open>Lemmas\<close>

lemma sip_blocks_nocase:
  "sip_blocks U8TO64_LE (map siptlw inp) s =
     (case sip_blocks U8TO64_LE_NOCASE inp s of (s', left) \<Rightarrow> (s', map siptlw left))"
proof (induction "U8TO64_LE_NOCASE" inp s rule: sip_blocks.induct)
  case (1 inp s)
  have rd: "U8TO64_LE (map siptlw inp) = U8TO64_LE_NOCASE inp"
    by (simp add: U8TO64_LE_def U8TO64_LE_NOCASE_def take_map)
  show ?case
  proof (cases "length inp < 8")
    case True
    then show ?thesis
      by (simp add: sip_blocks.simps [of _ "map siptlw inp"] sip_blocks.simps [of _ inp])
  next
    case False
    then show ?thesis
      using 1 rd
      by (simp add: sip_blocks.simps [of _ "map siptlw inp"] sip_blocks.simps [of _ inp] drop_map)
  qed
qed

lemma siptlw_idem: "siptlw (siptlw c) = siptlw c"
proof (cases "65 \<le> c \<and> c \<le> 90")
  case True
  then have "\<not> c + 32 \<le> 90" unfolding word_le_nat_alt by (simp add: unat_word_ariths)
  then show ?thesis by (simp add: siptlw_def)
qed (auto simp: siptlw_def)

lemma siphash_nocase_map: "siphash_nocase inp k = siphash (map siptlw inp) k"
  by (simp add: siphash_nocase_def siphash_def sip_blocks_nocase split_def Let_def)

section \<open>Properties\<close>

text \<open>The case insensitive hash of a string is the hash of the string with its ASCII letters in
  lower case; so strings that differ only in the case of letters have the same hash.\<close>

theorem siphash_nocase_lower:
  "siphash_nocase inp k = siphash (map siptlw inp) k \<and>
   siphash_nocase (map siptlw inp) k = siphash_nocase inp k"
proof -
  have "map (siptlw \<circ> siptlw) inp = map siptlw inp" by (simp add: siptlw_idem)
  then show ?thesis by (simp only: siphash_nocase_map map_map)
qed

end
