(* ===== verification/Dict_Types.thy ===== *)
theory Dict_Types
  imports Dict_Map Siphash
begin

text \<open>
  The dictionary types of \<open>redis-6.0.10/src/server.c\<close> whose keys are \<open>sds\<close> strings, and the
  properties of the dictionary with the types that show they can be met. The keys are
  strings of fewer than \<open>2 ^ 31\<close> bytes (the server limits a string to 512 MB by default): the length
  is converted to an \<open>int\<close> in the comparison. The case insensitive types compare up to
  the first NUL byte, so their keys are strings without a NUL byte.
\<close>

section \<open>Hash functions and comparisons\<close>

definition dictGenHashFunction :: "bytes \<Rightarrow> bytes \<Rightarrow> int \<Rightarrow> 64 word" where
  "dictGenHashFunction seed key len = siphash (take (nat len) key) seed"

definition dictGenCaseHashFunction :: "bytes \<Rightarrow> bytes \<Rightarrow> int \<Rightarrow> 64 word" where
  "dictGenCaseHashFunction seed buf len = siphash_nocase (take (nat len) buf) seed"

definition dictSdsHash :: "bytes \<Rightarrow> bytes \<Rightarrow> 64 word" where
  "dictSdsHash seed key = dictGenHashFunction seed key (s32 (length key))"

definition dictSdsCaseHash :: "bytes \<Rightarrow> bytes \<Rightarrow> 64 word" where
  "dictSdsCaseHash seed key = dictGenCaseHashFunction seed key (s32 (length key))"

text \<open>The lengths are \<open>int\<close>; \<open>memcmp\<close> compares as many bytes.\<close>

definition dictSdsKeyCompare :: "bytes \<Rightarrow> bytes \<Rightarrow> bool" where
  "dictSdsKeyCompare key1 key2 =
     (let l1 = s32 (length key1); l2 = s32 (length key2) in
      if l1 \<noteq> l2 then False else take (nat l1) key1 = take (nat l1) key2)"

text \<open>\<open>strcasecmp\<close> in the C locale, on the strings up to their first NUL byte.\<close>

definition dictSdsKeyCaseCompare :: "bytes \<Rightarrow> bytes \<Rightarrow> bool" where
  "dictSdsKeyCaseCompare key1 key2 \<longleftrightarrow>
     map siptlw (takeWhile (\<lambda>c. c \<noteq> 0) key1) = map siptlw (takeWhile (\<lambda>c. c \<noteq> 0) key2)"

section \<open>Key strings\<close>

typedef sds_key = "{b :: bytes. length b < 2 ^ 31}" morphisms key_bytes Sds_key
  by (rule exI [of _ "[]"]) simp

typedef name_key = "{b :: bytes. length b < 2 ^ 31 \<and> 0 \<notin> set b}" morphisms name_bytes Name_key
  by (rule exI [of _ "[]"]) simp

text \<open>
  The type of the sets, and in the same way of the databases, hashes and sorted sets: hash and
  comparison of strings, no copies. The type of the command table ignores case.
\<close>

definition setDictType :: "bytes \<Rightarrow> (sds_key, 'v) dictType" where
  "setDictType seed = \<lparr>hashFunction = (\<lambda>k. dictSdsHash seed (key_bytes k)), keyDup = None, valDup = None,
     keyCompare = Some (\<lambda>k k'. dictSdsKeyCompare (key_bytes k) (key_bytes k'))\<rparr>"

definition commandTableDictType :: "bytes \<Rightarrow> (name_key, 'v) dictType" where
  "commandTableDictType seed = \<lparr>hashFunction = (\<lambda>k. dictSdsCaseHash seed (name_bytes k)), keyDup = None,
     valDup = None,
     keyCompare = Some (\<lambda>k k'. dictSdsKeyCaseCompare (name_bytes k) (name_bytes k'))\<rparr>"

section \<open>The types keep the contract\<close>

lemma key_bytes_compare: "dictSdsKeyCompare (key_bytes k) (key_bytes k') \<longleftrightarrow> k = k'"
  using key_bytes [of k] key_bytes [of k'] key_bytes_inject [of k k']
  by (auto simp: dictSdsKeyCompare_def s32_id)

lemma key_eq_setDictType: "key_eq (setDictType seed) k k' \<longleftrightarrow> k = k'"
  by (simp add: key_eq_def dictCompareKeys_def setDictType_def key_bytes_compare)

lemma takeWhile_no_NUL: "0 \<notin> set b \<Longrightarrow> takeWhile (\<lambda>c. c \<noteq> 0) b = b"
  by (simp add: takeWhile_eq_all_conv) metis

lemma key_eq_commandTable: "key_eq (commandTableDictType seed) k k' \<longleftrightarrow>
  map siptlw (name_bytes k) = map siptlw (name_bytes k')"
  using name_bytes [of k] name_bytes [of k']
  by (auto simp: key_eq_def dictCompareKeys_def commandTableDictType_def dictSdsKeyCaseCompare_def
      takeWhile_no_NUL)

lemma val_dup_commandTable: "val_dup (commandTableDictType seed) v = v"
  by (simp add: val_dup_def commandTableDictType_def)

lemma siphash_nocase_cong:
  "map siptlw xs = map siptlw ys \<Longrightarrow> siphash_nocase xs seed = siphash_nocase ys seed"
  by (simp add: siphash_nocase_map)

interpretation sds_dict: dict_type "setDictType seed"
proof qed (auto simp: key_eq_setDictType, simp add: setDictType_def)

interpretation command_dict: dict_type "commandTableDictType seed"
proof
  fix k k' k'' dup
  show "key_eq (commandTableDictType seed) k k' \<Longrightarrow> key_eq (commandTableDictType seed) k' k"
    and "key_eq (commandTableDictType seed) k k' \<Longrightarrow> key_eq (commandTableDictType seed) k' k'' \<Longrightarrow>
      key_eq (commandTableDictType seed) k k''"
    by (simp_all add: key_eq_commandTable)
  show "keyDup (commandTableDictType seed) = Some dup \<Longrightarrow> key_eq (commandTableDictType seed) k (dup k)"
    by (simp add: commandTableDictType_def)
  assume "key_eq (commandTableDictType seed) k k'"
  then have "map siptlw (name_bytes k) = map siptlw (name_bytes k')"
    by (simp add: key_eq_commandTable)
  moreover from this have "length (name_bytes k) = length (name_bytes k')" by (rule map_eq_imp_length_eq)
  ultimately show "hashFunction (commandTableDictType seed) k = hashFunction (commandTableDictType seed) k'"
    using name_bytes [of k] name_bytes [of k']
    by (simp add: commandTableDictType_def dictSdsCaseHash_def dictGenCaseHashFunction_def s32_id)
       (rule siphash_nocase_cong, simp)
qed

section \<open>Sizes and a small example\<close>

lemma dictNextPower_pow:
  assumes "2 \<le> k" and "k \<le> 62"
  shows "dictNextPower (2 ^ k) = Some (2 ^ k)"
proof -
  have le: "(2::nat) ^ k \<le> 2 ^ 62" using assms(2) by (rule power_increasing) simp
  have "(2::nat) ^ k \<le> 2 ^ 63" using le by simp
  then obtain j where j: "dictNextPower_loop 4 (2 ^ k) = Some (4 * 2 ^ j)" "2 ^ k \<le> 4 * (2::nat) ^ j"
      "j = 0 \<or> 4 * 2 ^ (j - 1) < (2::nat) ^ k"
    using dictNextPower_loop_eq [of "2 ^ k" 4] by (metis zero_less_numeral)
  have p: "4 * (2::nat) ^ i = 2 ^ (i + 2)" for i by (simp add: power_add)
  have "k \<le> j + 2" using j(2) unfolding p by (rule power_le_imp_le_exp [rotated]) simp
  moreover have "j - 1 + 2 < k" if "j \<noteq> 0"
  proof -
    have "(2::nat) ^ (j - 1 + 2) < 2 ^ k" using j(3) that unfolding p by (simp only: simp_thms)
    then show ?thesis by (rule power_less_imp_less_exp [rotated]) simp
  qed
  ultimately have "j + 2 = k" using assms(1) by linarith
  then have "dictNextPower_loop 4 (2 ^ k) = Some (2 ^ k)" using j(1) unfolding p by simp
  moreover have "\<not> (2::nat) ^ k \<ge> 2 ^ 63 - 1" using le by simp
  ultimately show ?thesis by (simp add: dictNextPower_def DICT_HT_INITIAL_SIZE_def)
qed

text \<open>A small dictionary with numbers as keys, in the middle of a rehashing.\<close>

definition num_type :: "(nat, nat) dictType" where
  "num_type = \<lparr>hashFunction = of_nat, keyDup = None, valDup = None, keyCompare = None\<rparr>"

definition num_dict :: "(nat, nat) dict" where
  "num_dict = \<lparr>dtype = num_type,
     ht0 = \<lparr>ht_table = Some [[], [(5, 50), (1, 10)], [], [(3, 30)]], ht_size = 4, sizemask = 3, used = 3\<rparr>,
     ht1 = \<lparr>ht_table = Some [[], [], [], [], [(4, 40)], [], [], []], ht_size = 8, sizemask = 7, used = 1\<rparr>,
     rehashidx = 1, iterators = 0\<rparr>"

lemma num_type_ok: "dict_type num_type"
  by unfold_locales (auto simp: num_type_def key_eq_def dictCompareKeys_def)

lemma ht_okI:
  assumes "ht_table ht \<noteq> None" and "2 \<le> k" and "k \<le> 60" and "ht_size ht = 2 ^ k"
    and "sizemask ht = 2 ^ k - 1" and "length (the (ht_table ht)) = ht_size ht"
    and "used ht = length (concat (the (ht_table ht)))"
    and "list_all (\<lambda>(i, b). list_all (\<lambda>e. ht_index ht (hash (fst e)) = i) b)
           (enumerate 0 (the (ht_table ht)))"
  shows "ht_ok hash ht"
proof -
  obtain t where t: "ht_table ht = Some t" using assms(1) by blast
  have "\<forall>i < length t. \<forall>e \<in> set (t ! i). ht_index ht (hash (fst e)) = i"
    using assms(8) t by (fastforce simp: list_all_iff in_set_enumerate_eq)
  then show ?thesis using assms t by (auto simp: ht_ok_def)
qed

lemma num_dict_wf: "dict_wf num_dict"
proof -
  have "ht_ok (hashFunction num_type) (ht0 num_dict)"
    by (rule ht_okI [where k = 2]) (simp_all add: num_dict_def num_type_def ht_index_def)
  moreover have "ht_ok (hashFunction num_type) (ht1 num_dict)"
    by (rule ht_okI [where k = 3]) (simp_all add: num_dict_def num_type_def ht_index_def)
  ultimately show ?thesis
    by (simp add: dict_wf_def num_dict_def dict_entries_def ht_entries_def keys_differ_def
        key_eq_def dictCompareKeys_def dictIsRehashing_def bucket_def num_type_def)
qed

lemma num_dict_map: "dict_map num_dict 5 = Some 50"
  by (simp add: dict_map_def dict_entry_def entry_for_def dict_entries_def ht_entries_def num_dict_def
        num_type_def key_eq_def dictCompareKeys_def)

lemma dtype_num_dict: "dtype num_dict = num_type"
  by (simp add: num_dict_def)

section \<open>Properties\<close>

text \<open>C1: From any well-formed state of a dictionary (also in the middle of a rehashing, with or without
  iterators), every sequence of insertions, replacements, deletions and lookups answers as the finite
  map does and leaves the dictionary well-formed; no step reads outside a table or through
  \<open>NULL\<close>. The hypothesis on the size keeps the number of entries below \<open>2 ^ 59\<close>.\<close>

theorem dict_ops_correct:
  assumes "dict_type T" and "dict_wf d" and "dtype d = T"
    and "length (dict_entries d) + length os \<le> 2 ^ 59"
  shows "\<exists>d'. run_map_ops (dictAdd can_resize junk) (dictReplace can_resize junk) dictDelete dictFetchValue d os =
      Some (d', snd (map_spec_ops (key_eq T) (val_dup T) (dict_map d) os)) \<and>
    dict_wf d' \<and> dict_map d' = fst (map_spec_ops (key_eq T) (val_dup T) (dict_map d) os)"
proof -
  have inv: "dict_wf d \<and> dtype d = T" using assms(2,3) by simp
  show ?thesis using dict_type.run_dict_ops [OF assms(1) inv assms(4), of can_resize junk] by blast
qed

theorem dict_ops_correct_witness:
  "\<exists>d'. run_map_ops (dictAdd True 0) (dictReplace True 0) dictDelete dictFetchValue
      (dictCreate (commandTableDictType [1])) 
      [Insert (Name_key [103, 101, 116]) (7 :: nat), Insert (Name_key [71, 69, 84]) 8,
       Fetch (Name_key [71, 101, 84]), Delete (Name_key [115]), Replace (Name_key [71, 69, 84]) 9,
       Fetch (Name_key [103, 101, 116])] =
      Some (d', [Flag True, Flag False, Found (Some 7), Flag False, Flag False, Found (Some 9)])"
proof -
  have nb: "name_bytes (Name_key [103, 101, 116]) = [103, 101, 116]"
      "name_bytes (Name_key [71, 69, 84]) = [71, 69, 84]"
      "name_bytes (Name_key [71, 101, 84]) = [71, 101, 84]" "name_bytes (Name_key [115]) = [115]"
    by (simp_all add: Name_key_inverse)
  have "dtype (dictCreate (commandTableDictType [1])) = commandTableDictType [1]"
    by (simp add: dictCreate_def dictInit_def)
  from dict_ops_correct [OF command_dict.dict_type_axioms dict_wf_create this, of
      "[Insert (Name_key [103, 101, 116]) (7 :: nat), Insert (Name_key [71, 69, 84]) 8,
       Fetch (Name_key [71, 101, 84]), Delete (Name_key [115]), Replace (Name_key [71, 69, 84]) 9,
       Fetch (Name_key [103, 101, 116])]" True 0]
  show ?thesis
    by (auto simp: dict_entries_create dict_map_create map_upd_def key_eq_commandTable nb siptlw_def
        val_dup_commandTable simp del: run_map_ops.simps)
qed

text \<open>C3: A call of \<open>dictRehash\<close> with a positive number of steps never reads outside the tables, keeps
  the entries and the map of the dictionary, returns 1 exactly when the rehashing is not
  finished, and then has advanced \<open>rehashidx\<close>, which is bounded by the size of the old table.\<close>

theorem dictRehash_keeps:
  assumes "dict_type (dtype d)" and "dict_wf d" and "0 < n"
  shows "\<exists>d' more. dictRehash d n = Some (d', more) \<and> dict_wf d' \<and>
    mset (dict_entries d') = mset (dict_entries d) \<and> dict_map d' = dict_map d \<and>
    more = dictIsRehashing d' \<and>
    (more \<longrightarrow> rehashidx d < rehashidx d' \<and> rehashidx d' \<le> int (ht_size (ht0 d)))"
proof -
  obtain d' more where d': "dictRehash d n = Some (d', more)" "same_entries d d'"
      "more = dictIsRehashing d'"
      "more \<longrightarrow> ht_size (ht0 d') = ht_size (ht0 d) \<and> rehashidx d < rehashidx d'"
    using dict_type.dictRehash_correct [OF assms(1,2) refl assms(3)] by blast
  have "dict_map d' = dict_map d" "dict_wf d'"
    using dict_type.same_entries_map [OF assms(1,2) refl d'(2)] d'(2) by (simp_all add: same_entries_def)
  then show ?thesis
    using d' unfolding same_entries_def by (intro exI [of _ d'] exI [of _ more]) (auto simp: dict_wf_def)
qed

theorem dictRehash_keeps_witness:
  "\<exists>d' more. dictRehash num_dict 1 = Some (d', more) \<and> dict_wf d' \<and> dict_map d' 5 = Some 50"
proof -
  have "dict_type (dtype num_dict)" using num_type_ok by (simp add: dtype_num_dict)
  from dictRehash_keeps [OF this num_dict_wf, of 1] show ?thesis using num_dict_map by fastforce
qed

text \<open>\<open>dictRehashMilliseconds\<close> returns for every clock, even one that stands still, and keeps the map.\<close>

theorem dictRehashMilliseconds_returns:
  assumes "dict_type (dtype d)" and "dict_wf d"
  shows "\<exists>d' r. dictRehashMilliseconds d ms clock = Some (d', r) \<and> dict_wf d' \<and> dict_map d' = dict_map d"
  using dict_type.dictRehashMilliseconds_loop_correct [OF assms refl, of ms clock 1 0]
    dict_type.same_entries_map [OF assms refl]
  by (auto simp: dictRehashMilliseconds_def same_entries_def)

theorem dictRehashMilliseconds_returns_witness:
  "\<exists>d' r. dictRehashMilliseconds num_dict 1 (\<lambda>i. 0) = Some (d', r) \<and> dict_wf d'"
proof -
  have "dict_type (dtype num_dict)" using num_type_ok by (simp add: dtype_num_dict)
  from dictRehashMilliseconds_returns [OF this num_dict_wf, of 1 "\<lambda>_. 0"] show ?thesis by blast
qed

text \<open>C29: Expanding a new dictionary to \<open>2 ^ 61\<close> buckets succeeds with a table of size \<open>2 ^ 61\<close> that
  has no bucket, since the size in bytes wraps around to zero: the next search reads
  outside the table.\<close>

theorem dictExpand_wraps:
  "\<exists>d'. dictExpand (dictCreate T) (2 ^ 61) = Some (d', True) \<and> ht_size (ht0 d') = 2 ^ 61 \<and>
     (\<forall>i. bucket (ht0 d') i = None) \<and> search_tables d' (key_eq T k) h = None"
proof -
  have np: "dictNextPower (2 ^ 61) = Some (2 ^ 61)" by (rule dictNextPower_pow) simp_all
  have z: "u64 (2 ^ 61 * 8) div 8 = 0" by (simp add: u64_def)
  let ?n = "\<lparr>ht_table = Some [], ht_size = 2 ^ 61, sizemask = u64_sub (2 ^ 61) 1, used = 0\<rparr>"
  have "dictExpand (dictCreate T) (2 ^ 61) = Some ((dictCreate T)\<lparr>ht0 := ?n\<rparr>, True)"
    unfolding dictExpand_def
    by (simp only: np z replicate.simps Let_def bind.simps dictCreate_def dictInit_def dictReset_def dictIsRehashing_def)
       simp
  then show ?thesis by (simp add: bucket_def search_tables_def)
qed
end
