(* ===== verification/Dict_Scan.thy ===== *)
theory Dict_Scan
  imports Dict_Types
begin

text \<open>
  The cursor based iteration of \<open>dict.c\<close>: \<open>rev\<close> and \<open>dictScan\<close>, one call of which returns the next cursor and
  the entries it emits. The buckets are visited in the order of their bit-reversed numbers \<open>rv\<close>; a
  call covers a whole interval of that order in whichever table an entry is, which gives the
  guarantee of a scan over a dictionary that is resized and rehashed between the calls.
\<close>

unbundle bit_operations_syntax

section \<open>Definitions\<close>

text \<open>The loop of \<open>rev\<close>: \<open>while ((s >>= 1) > 0)\<close>.\<close>

fun rev_loop :: "nat \<Rightarrow> 64 word \<Rightarrow> 64 word \<Rightarrow> 64 word" where
  "rev_loop s m v =
     (let s = s div 2 in
      if s > 0 then
        (let m = m XOR push_bit s m;
             v = (drop_bit s v AND m) OR (push_bit s v AND NOT m)
         in rev_loop s m v)
      else v)"

declare rev_loop.simps [simp del]

definition rev_bits :: "64 word \<Rightarrow> 64 word" where
  "rev_bits v = rev_loop 64 (NOT 0) v"

text \<open>The cursor after a bucket of a table with the given mask: \<open>v |= ~m; v = rev(v); v++; v = rev(v)\<close>.\<close>

definition next_cursor :: "nat \<Rightarrow> 64 word \<Rightarrow> 64 word" where
  "next_cursor m v = rev_bits (rev_bits (v OR NOT (of_nat m)) + 1)"

text \<open>The loop over the expansions of the cursor in the larger table.\<close>

partial_function (option) scan_expand :: "('k, 'v) dictht \<Rightarrow> nat \<Rightarrow> 64 word \<Rightarrow> ('k, 'v) dictEntry list \<Rightarrow>
    (64 word \<times> ('k, 'v) dictEntry list) option" where
  "scan_expand t1 m0 v em =
     Option.bind (bucket t1 (ht_index t1 v)) (\<lambda>b.
       let v = next_cursor (sizemask t1) v in
       if v AND (of_nat m0 XOR of_nat (sizemask t1)) \<noteq> 0 then scan_expand t1 m0 v (em @ b)
       else Some (v, em @ b))"

text \<open>One call, without a \<open>bucketfn\<close>: the next cursor and the entries on which \<open>fn\<close> is called, in this order.\<close>

definition dictScan :: "('k, 'v) dict \<Rightarrow> 64 word \<Rightarrow> (64 word \<times> ('k, 'v) dictEntry list) option" where
  "dictScan d v =
     (if dictSize d = 0 then Some (0, [])
      else if \<not> dictIsRehashing d then
        do { b \<leftarrow> bucket (ht0 d) (ht_index (ht0 d) v);
             Some (next_cursor (sizemask (ht0 d)) v, b) }
      else (let (t0, t1) = (if ht_size (ht0 d) > ht_size (ht1 d) then (ht1 d, ht0 d) else (ht0 d, ht1 d))
            in do { b \<leftarrow> bucket t0 (ht_index t0 v);
                    scan_expand t1 (sizemask t0) v b }))"

section \<open>Reversing the bits\<close>

text \<open>
  After the pass with shift \<open>s\<close> the blocks of \<open>s\<close> bits are in reverse order and each block is as it was:
  bit \<open>n\<close> comes from position \<open>rev_pos s n\<close>.
\<close>

definition rev_pos :: "nat \<Rightarrow> nat \<Rightarrow> nat" where
  "rev_pos s n = (64 div s - 1 - n div s) * s + n mod s"

lemma rev_mask_step:
  assumes "\<And>n. bit (m :: 64 word) n \<longleftrightarrow> n < 64 \<and> even (n div (2 * s))" and "0 < s"
  shows "bit (m XOR push_bit s m) n \<longleftrightarrow> n < 64 \<and> even (n div s)"
proof (cases "n < 64")
  case True
  define q r where "q = n div s" and "r = n mod s"
  have n: "n = q * s + r" "r < s" using assms(2) by (simp_all add: q_def r_def)
  have d: "x div (2 * s) = x div s div 2" for x by (simp add: div_mult2_eq mult.commute)
  show ?thesis
  proof (cases "q = 0")
    case True
    then show ?thesis
      using n assms \<open>n < 64\<close> by (simp add: bit_simps d q_def [symmetric])
  next
    case False
    then obtain p where p: "q = Suc p" by (cases q) auto
    have le: "s \<le> n" and e: "n - s = p * s + r" using n(1) unfolding p by simp_all
    have "(n - s) div s = q - 1" unfolding e p using n(2) assms(2) by simp
    then have "bit (m XOR push_bit s m) n \<longleftrightarrow> (even (q div 2) \<noteq> even ((q - 1) div 2))"
      using assms(1) True le by (simp add: bit_simps d q_def [symmetric] less_imp_diff_less)
    also have "\<dots> \<longleftrightarrow> even q" using False by presburger
    finally show ?thesis using True by (simp add: q_def)
  qed
next
  case False
  then show ?thesis by (simp add: bit_simps assms(1))
qed

lemma rev_pos_step:
  assumes "2 * s * c = 64" and "n < 64"
  shows "even (n div s) \<Longrightarrow> n + s < 64 \<and> rev_pos (2 * s) (n + s) = rev_pos s n"
    and "odd (n div s) \<Longrightarrow> s \<le> n \<and> rev_pos (2 * s) (n - s) = rev_pos s n"
proof -
  have s: "0 < s" using assms(1) by (cases s) auto
  define q r where "q = n div s" and "r = n mod s"
  have n: "n = q * s + r" "r < s" using s by (simp_all add: q_def r_def)
  have c: "64 div s = 2 * c" "64 div (2 * s) = c" using assms(1) s
    by (metis mult.assoc mult.commute nonzero_mult_div_cancel_left less_numeral_extra(3) mult_pos_pos zero_less_numeral)+
  have q: "q < 2 * c"
  proof -
    have "(2 * c) * s = 64" using assms(1) by (metis mult.assoc mult.commute)
    moreover have "q * s \<le> n" using n(1) by simp
    ultimately have "q * s < (2 * c) * s" using assms(2) by linarith
    then show ?thesis by simp
  qed
  show "even (n div s) \<Longrightarrow> n + s < 64 \<and> rev_pos (2 * s) (n + s) = rev_pos s n"
  proof -
    assume "even (n div s)"
    then obtain p where p: "q = 2 * p" by (auto simp: q_def)
    have e: "n + s = p * (2 * s) + (s + r)" "s + r < 2 * s" using n p by (simp_all add: algebra_simps)
    have "(n + s) div (2 * s) = p" "(n + s) mod (2 * s) = s + r" unfolding e(1) using e(2) s by simp_all
    moreover have "p < c" using q p by simp
    moreover from this obtain k where "c = Suc (p + k)" by (auto simp: less_iff_Suc_add)
    moreover have "n + s < (p + 1) * (2 * s)" using e by simp
    moreover have "(p + 1) * (2 * s) \<le> c * (2 * s)" using \<open>p < c\<close> by (intro mult_le_mono1) simp
    ultimately show ?thesis
      using assms(1) c p by (simp add: rev_pos_def q_def [symmetric] r_def [symmetric] algebra_simps)
  qed
  show "odd (n div s) \<Longrightarrow> s \<le> n \<and> rev_pos (2 * s) (n - s) = rev_pos s n"
  proof -
    assume "odd (n div s)"
    then obtain p where p: "q = 2 * p + 1" by (auto simp: q_def elim: oddE)
    have e: "n - s = p * (2 * s) + r" "s \<le> n" "r < 2 * s" using n p by (simp_all add: algebra_simps)
    have "(n - s) div (2 * s) = p" "(n - s) mod (2 * s) = r" unfolding e(1) using e(3) s by simp_all
    moreover have "p < c" using q p by simp
    moreover from this obtain k where "c = Suc (p + k)" by (auto simp: less_iff_Suc_add)
    ultimately show ?thesis
      using e(2) c p by (simp add: rev_pos_def q_def [symmetric] r_def [symmetric] algebra_simps)
  qed
qed

lemma rev_loop_step:
  assumes "2 * s * c = 64" and "\<And>n. bit m n \<longleftrightarrow> n < 64 \<and> even (n div (2 * s))"
    and "\<And>n. bit v n \<longleftrightarrow> n < 64 \<and> bit (w :: 64 word) (rev_pos (2 * s) n)"
  defines "m' \<equiv> m XOR push_bit s m"
  shows "rev_loop (2 * s) m v = rev_loop s m' ((drop_bit s v AND m') OR (push_bit s v AND NOT m'))"
    and "bit m' n \<longleftrightarrow> n < 64 \<and> even (n div s)"
    and "bit ((drop_bit s v AND m') OR (push_bit s v AND NOT m')) n \<longleftrightarrow> n < 64 \<and> bit w (rev_pos s n)"
proof -
  have s: "0 < s" using assms(1) by (cases s) auto
  show "rev_loop (2 * s) m v = rev_loop s m' ((drop_bit s v AND m') OR (push_bit s v AND NOT m'))"
    using s by (subst rev_loop.simps) (simp add: m'_def Let_def)
  have m': "bit m' n \<longleftrightarrow> n < 64 \<and> even (n div s)" for n
    unfolding m'_def by (rule rev_mask_step [OF assms(2) s])
  then show "bit m' n \<longleftrightarrow> n < 64 \<and> even (n div s)" .
  show "bit ((drop_bit s v AND m') OR (push_bit s v AND NOT m')) n \<longleftrightarrow> n < 64 \<and> bit w (rev_pos s n)"
  proof (cases "n < 64 \<and> even (n div s)")
    case True
    then show ?thesis
      using rev_pos_step(1) [OF assms(1), of n] by (simp add: bit_simps m' assms(3) add.commute)
  next
    case False
    show ?thesis
    proof (cases "n < 64")
      case True
      then show ?thesis
        using False rev_pos_step(2) [OF assms(1) True] by (simp add: bit_simps m' assms(3) less_imp_diff_less)
    qed (simp add: bit_simps m')
  qed
qed

definition rev_state :: "nat \<Rightarrow> 64 word \<Rightarrow> 64 word \<Rightarrow> 64 word \<Rightarrow> bool" where
  "rev_state s m v w \<longleftrightarrow> (\<forall>n. bit m n \<longleftrightarrow> n < 64 \<and> even (n div s)) \<and>
     (\<forall>n. bit v n \<longleftrightarrow> n < 64 \<and> bit w (rev_pos s n))"

lemma rev_pass:
  assumes "rev_state t m v w" and "t = 2 * s" and "t * c = 64"
  shows "\<exists>m' v'. rev_loop t m v = rev_loop s m' v' \<and> rev_state s m' v' w"
proof -
  have c: "2 * s * c = 64" using assms(2,3) by simp
  have "bit m n \<longleftrightarrow> n < 64 \<and> even (n div (2 * s))" "bit v n \<longleftrightarrow> n < 64 \<and> bit w (rev_pos (2 * s) n)" for n
    using assms(1,2) by (simp_all add: rev_state_def)
  from rev_loop_step [OF c this] show ?thesis unfolding rev_state_def assms(2) by blast
qed

lemma rev_state_64: "rev_state 64 (NOT 0) v v"
proof -
  have "bit v n \<longleftrightarrow> n < 64 \<and> bit v (rev_pos 64 n)" for n
  proof (cases "n < 64")
    case True
    then show ?thesis by (simp add: rev_pos_def)
  next
    case False
    then have "\<not> bit v n" using bit_imp_le_length [of v n] by auto
    then show ?thesis using False by simp
  qed
  moreover have "bit (NOT 0 :: 64 word) n \<longleftrightarrow> n < 64 \<and> even (n div 64)" for n
    by (auto simp: bit_simps)
  ultimately show ?thesis unfolding rev_state_def by blast
qed

lemma rev_loop_64: "\<exists>m0 v0. rev_loop 64 (NOT 0) v = rev_loop 1 m0 v0 \<and> rev_state 1 m0 v0 v"
proof -
  have c64: "(64 :: nat) = 2 * 32" "(64 :: nat) * 1 = 64" by simp_all
  obtain m32 v32 where s32: "rev_loop 64 (NOT 0) v = rev_loop 32 m32 v32" "rev_state 32 m32 v32 v"
    using rev_pass [OF rev_state_64 c64] by blast
  have c32: "(32 :: nat) = 2 * 16" "(32 :: nat) * 2 = 64" by simp_all
  obtain m16 v16 where s16: "rev_loop 32 m32 v32 = rev_loop 16 m16 v16" "rev_state 16 m16 v16 v"
    using rev_pass [OF s32(2) c32] by blast
  have c16: "(16 :: nat) = 2 * 8" "(16 :: nat) * 4 = 64" by simp_all
  obtain m8 v8 where s8: "rev_loop 16 m16 v16 = rev_loop 8 m8 v8" "rev_state 8 m8 v8 v"
    using rev_pass [OF s16(2) c16] by blast
  have c8: "(8 :: nat) = 2 * 4" "(8 :: nat) * 8 = 64" by simp_all
  obtain m4 v4 where s4: "rev_loop 8 m8 v8 = rev_loop 4 m4 v4" "rev_state 4 m4 v4 v"
    using rev_pass [OF s8(2) c8] by blast
  have c4: "(4 :: nat) = 2 * 2" "(4 :: nat) * 16 = 64" by simp_all
  obtain m2 v2 where s2: "rev_loop 4 m4 v4 = rev_loop 2 m2 v2" "rev_state 2 m2 v2 v"
    using rev_pass [OF s4(2) c4] by blast
  have c2: "(2 :: nat) = 2 * 1" "(2 :: nat) * 32 = 64" by simp_all
  obtain m1 v1 where s1: "rev_loop 2 m2 v2 = rev_loop 1 m1 v1" "rev_state 1 m1 v1 v"
    using rev_pass [OF s2(2) c2] by blast
  show ?thesis using s32(1) s16(1) s8(1) s4(1) s2(1) s1 by (intro exI [of _ m1] exI [of _ v1]) simp
qed

lemma rev_bits_reverse: "rev_bits v = word_reverse v"
proof -
  obtain m0 v0 where r: "rev_loop 64 (NOT 0) v = rev_loop 1 m0 v0" "rev_state 1 m0 v0 v"
    using rev_loop_64 by blast
  have "rev_bits v = v0"
    unfolding rev_bits_def r(1) by (subst rev_loop.simps) simp
  moreover have "v0 = word_reverse v"
  proof (rule bit_word_eqI)
    fix n :: nat assume n: "n < LENGTH(64)"
    then have "rev_pos 1 n = 63 - n" by (simp add: rev_pos_def)
    then show "bit v0 n = bit (word_reverse v) n"
      using r(2) n by (simp add: rev_state_def bit_word_reverse_iff)
  qed
  ultimately show ?thesis by simp
qed

section \<open>The order of the cursor\<close>

text \<open>The position of a cursor or of a hash in the order of the scan.\<close>

definition rv :: "64 word \<Rightarrow> nat" where
  "rv w = unat (word_reverse w)"

lemma rv_less: "rv w < 2 ^ 64"
  using unsigned_less [of "word_reverse w"] by (simp add: rv_def)

lemma rv_0 [simp]: "rv 0 = 0"
proof -
  have "word_reverse (0 :: 64 word) = 0" by (rule bit_word_eqI) (simp add: bit_word_reverse_iff)
  then show ?thesis by (simp add: rv_def)
qed

lemma rv_eq_0: "rv w = 0 \<longleftrightarrow> w = 0"
proof
  assume "rv w = 0"
  then have "word_reverse w = 0" by (simp add: rv_def unsigned_eq_0_iff)
  then have "word_reverse (word_reverse w) = 0" using rv_0 by (simp add: rv_def unsigned_eq_0_iff)
  then show "w = 0" by simp
qed simp

lemma unat_drop_bit: "unat (drop_bit j x) = unat (x :: 64 word) div 2 ^ j"
proof -
  have "unat (drop_bit j x) = drop_bit j (unat x)"
    by (rule bit_eqI) (auto simp: bit_simps dest: bit_imp_le_length)
  then show ?thesis by (simp only: drop_bit_eq_div)
qed

lemma unat_take_bit: "unat (take_bit j x) = unat (x :: 64 word) mod 2 ^ j"
proof -
  have "unat (take_bit j x) = take_bit j (unat x)" by (rule unsigned_take_bit_eq)
  then show ?thesis by (simp only: take_bit_eq_mod)
qed

lemma unat_mask: "j \<le> 64 \<Longrightarrow> unat (mask j :: 64 word) = 2 ^ j - 1"
proof -
  assume "j \<le> 64"
  then have "unat (mask j :: 64 word) = mask j" by (intro bit_eqI) (auto simp: bit_simps)
  then show ?thesis by (simp only: mask_eq_exp_minus_1)
qed

lemma rv_bucket:
  assumes "k \<le> 64"
  shows "unat w mod 2 ^ k = unat w' mod 2 ^ k \<longleftrightarrow> rv w div 2 ^ (64 - k) = rv w' div 2 ^ (64 - k)"
proof -
  have "rv w div 2 ^ (64 - k) = rv w' div 2 ^ (64 - k) \<longleftrightarrow>
      drop_bit (64 - k) (word_reverse w) = drop_bit (64 - k) (word_reverse w')"
    by (simp only: rv_def word_unat_eq_iff unat_drop_bit)
  also have "\<dots> \<longleftrightarrow> take_bit k w = take_bit k w'"
  proof -
    have l: "bit (drop_bit (64 - k) (word_reverse x)) n \<longleftrightarrow> n < k \<and> bit x (k - Suc n)" for x :: "64 word" and n
      using assms by (auto simp: bit_simps bit_word_reverse_iff less_diff_conv)
    have flip: "(\<forall>n < k. P (k - Suc n)) \<longleftrightarrow> (\<forall>n < k. P n)" for P :: "nat \<Rightarrow> bool"
    proof safe
      fix n assume *: "\<forall>n < k. P (k - Suc n)" "n < k"
      have "k - Suc n < k" "k - Suc (k - Suc n) = n" using *(2) by simp_all
      then show "P n" using *(1) by metis
    qed simp
    have "drop_bit (64 - k) (word_reverse w) = drop_bit (64 - k) (word_reverse w') \<longleftrightarrow>
        (\<forall>n < k. bit w (k - Suc n) = bit w' (k - Suc n))"
      unfolding bit_eq_iff [of "drop_bit _ _"] l using assms by (simp, meson less_le_trans)
    also have "\<dots> \<longleftrightarrow> (\<forall>n < k. bit w n = bit w' n)" by (rule flip)
    also have "\<dots> \<longleftrightarrow> take_bit k w = take_bit k w'"
      unfolding bit_eq_iff [of "take_bit _ _"] bit_take_bit_iff using assms by (simp, meson less_le_trans)
    finally show ?thesis .
  qed
  also have "\<dots> \<longleftrightarrow> unat w mod 2 ^ k = unat w' mod 2 ^ k"
    by (simp only: word_unat_eq_iff unat_take_bit)
  finally show ?thesis by simp
qed

lemma reverse_or_not_mask:
  "k \<le> 64 \<Longrightarrow> word_reverse (v OR NOT (mask k)) = word_reverse v OR mask (64 - k)" for v :: "64 word"
  by (rule bit_word_eqI) (auto simp: bit_simps bit_word_reverse_iff)

lemma unat_or_mask:
  assumes "j \<le> 64"
  shows "unat (x OR mask j :: 64 word) + 1 = (unat x div 2 ^ j + 1) * 2 ^ j"
proof -
  have "drop_bit j (x OR mask j) = drop_bit j x"
    by (rule bit_word_eqI) (auto simp: bit_simps)
  then have d: "unat (x OR mask j) div 2 ^ j = unat x div 2 ^ j"
    by (metis unat_drop_bit)
  have "take_bit j (x OR mask j) = mask j"
    by (rule bit_word_eqI) (auto simp: bit_simps)
  then have "unat (take_bit j (x OR mask j)) = unat (mask j :: 64 word)" by simp
  also have "\<dots> = 2 ^ j - 1" using assms by (rule unat_mask)
  finally have "unat (x OR mask j) mod 2 ^ j = 2 ^ j - 1" by (simp only: unat_take_bit)
  then have "unat x div 2 ^ j * 2 ^ j + (2 ^ j - 1) = unat (x OR mask j)"
    using div_mult_mod_eq [of "unat (x OR mask j)" "2 ^ j"] d by simp
  moreover have "(1 :: nat) \<le> 2 ^ j" by simp
  ultimately show ?thesis unfolding add_mult_distrib by linarith
qed

lemma mask_word: "of_nat (2 ^ k - 1) = (mask k :: 64 word)"
  by (simp add: mask_eq_exp_minus_1 of_nat_diff)

lemma rv_next_cursor:
  assumes "k \<le> 64"
  shows "rv (next_cursor (2 ^ k - 1) v) = (rv v div 2 ^ (64 - k) + 1) * 2 ^ (64 - k) mod 2 ^ 64"
proof -
  let ?x = "word_reverse v OR mask (64 - k)"
  have "rv (next_cursor (2 ^ k - 1) v) = unat (?x + 1)"
    by (simp only: next_cursor_def rev_bits_reverse rv_def word_rev_rev mask_word reverse_or_not_mask [OF assms])
  also have "\<dots> = (unat ?x + 1) mod 2 ^ 64" by (simp add: unat_word_ariths)
  also have "\<dots> = (rv v div 2 ^ (64 - k) + 1) * 2 ^ (64 - k) mod 2 ^ 64"
    unfolding rv_def by (subst unat_or_mask) simp_all
  finally show ?thesis .
qed

lemma rv_mask_xor:
  assumes "k0 \<le> k1" and "k1 \<le> 64" and "rv v mod 2 ^ (64 - k1) = 0"
  shows "v AND (of_nat (2 ^ k0 - 1) XOR of_nat (2 ^ k1 - 1)) = 0 \<longleftrightarrow> rv v mod 2 ^ (64 - k0) = 0"
proof -
  have z: "rv v mod 2 ^ (64 - k) = 0 \<longleftrightarrow> (\<forall>n. k \<le> n \<and> n < 64 \<longrightarrow> \<not> bit v n)" if "k \<le> 64" for k
  proof -
    have "rv v mod 2 ^ (64 - k) = 0 \<longleftrightarrow> take_bit (64 - k) (word_reverse v) = 0"
      by (simp only: rv_def word_unat_eq_iff unat_take_bit unsigned_0)
    also have "\<dots> \<longleftrightarrow> (\<forall>n < 64 - k. \<not> bit v (63 - n))"
      by (auto simp: bit_eq_iff [of "take_bit _ _"] bit_simps bit_word_reverse_iff)
    also have "\<dots> \<longleftrightarrow> (\<forall>n. k \<le> n \<and> n < 64 \<longrightarrow> \<not> bit v n)"
    proof safe
      fix n assume *: "\<forall>n < 64 - k. \<not> bit v (63 - n)" "k \<le> n" "n < 64" "bit v n"
      then have "63 - n < 64 - k" "63 - (63 - n) = n" using that by auto
      then show False using * by metis
    next
      fix n assume "\<forall>n. k \<le> n \<and> n < 64 \<longrightarrow> \<not> bit v n" "n < 64 - k" "bit v (63 - n)"
      moreover have "k \<le> 63 - n" "63 - n < 64" using \<open>n < 64 - k\<close> by auto
      ultimately show False by blast
    qed
    finally show ?thesis .
  qed
  have "v AND (mask k0 XOR mask k1) = 0 \<longleftrightarrow> (\<forall>n. k0 \<le> n \<and> n < k1 \<longrightarrow> \<not> bit v n)"
  proof -
    have "bit (v AND (mask k0 XOR mask k1)) n \<longleftrightarrow> bit v n \<and> k0 \<le> n \<and> n < k1" for n
      using assms(1,2) bit_imp_le_length [of v n] by (auto simp: bit_simps)
    then have "v AND (mask k0 XOR mask k1) = 0 \<longleftrightarrow> (\<forall>n < 64. \<not> (bit v n \<and> k0 \<le> n \<and> n < k1))"
      unfolding bit_eq_iff [of "v AND _"] by simp
    then show ?thesis using assms(2) by (meson less_le_trans)
  qed
  moreover have "\<forall>n. k1 \<le> n \<and> n < 64 \<longrightarrow> \<not> bit v n" using z [OF assms(2)] assms(3) by blast
  ultimately show ?thesis
    unfolding mask_word z [OF order_trans [OF assms(1,2)]] using assms(2)
    by (meson not_le less_le_trans)
qed

section \<open>One call of the scan\<close>

lemma ht_ok_pow:
  assumes "ht_ok hash ht" and "ht_table ht \<noteq> None"
  obtains k where "2 \<le> k" "k \<le> 60" "ht_size ht = 2 ^ k" "sizemask ht = 2 ^ k - 1"
  using assms by (auto simp: ht_ok_def split: option.splits)

lemma scan_bucket:
  assumes "ht_ok hash ht" and "ht_table ht \<noteq> None" and "sizemask ht = 2 ^ k - 1" and "k \<le> 60"
  shows "\<exists>b. bucket ht (ht_index ht v) = Some b \<and> set b \<subseteq> set (ht_entries ht) \<and>
    (\<forall>e \<in> set (ht_entries ht). rv (hash (fst e)) div 2 ^ (64 - k) = rv v div 2 ^ (64 - k) \<longrightarrow> e \<in> set b)"
proof -
  obtain b where b: "bucket ht (ht_index ht v) = Some b" using ht_ok_index(2) [OF assms(1,2)] by blast
  have "e \<in> set b" if e: "e \<in> set (ht_entries ht)"
    and r: "rv (hash (fst e)) div 2 ^ (64 - k) = rv v div 2 ^ (64 - k)" for e
  proof -
    have "ht_index ht (hash (fst e)) = ht_index ht v"
      using rv_bucket [of k] r assms(4) by (simp add: ht_index_mod [OF assms(3)])
    then show ?thesis using entries_bucket [OF assms(1) e refl] b by auto
  qed
  then show ?thesis using b bucket_entries [OF b] by (intro exI [of _ b]) (simp add: subsetI)
qed

text \<open>The end of the interval of width \<open>w\<close> around a position.\<close>

definition block_end :: "nat \<Rightarrow> nat \<Rightarrow> nat" where
  "block_end w r = (r div w + 1) * w"

lemma block_end_bounds: "0 < w \<Longrightarrow> r < block_end w r"
  using div_mult_mod_eq [of r w] mod_less_divisor [of w r] unfolding block_end_def add_mult_distrib
  by linarith

lemma block_end_le:
  assumes "w dvd m" and "r < m"
  shows "block_end w r \<le> m"
proof -
  obtain c where c: "m = w * c" using assms(1) by (elim dvdE)
  then have "0 < w" using assms(2) by (cases w) auto
  then have "r div w < c" using assms(2) c by (simp add: less_mult_imp_div_less mult.commute)
  then have "(r div w + 1) * w \<le> c * w" by (intro mult_le_mono1) simp
  then show ?thesis by (simp add: block_end_def c mult.commute)
qed

lemma block_div:
  assumes "0 < w" and "r \<le> x" and "x < block_end w r"
  shows "x div w = r div w"
proof -
  have "r div w \<le> x div w" using assms(2) by (rule div_le_mono)
  moreover have "x div w < r div w + 1" using assms(1,3)
    by (simp add: block_end_def less_mult_imp_div_less)
  ultimately show ?thesis by simp
qed

lemma block_end_inner:
  assumes "0 < w1" and "w0 = w1 * c" and "0 < w0"
  shows "block_end w1 r \<le> block_end w0 r"
    and "block_end w1 r < block_end w0 r \<Longrightarrow> block_end w0 (block_end w1 r) = block_end w0 r"
    and "block_end w1 r < block_end w0 r \<Longrightarrow> block_end w1 r mod w0 \<noteq> 0"
proof -
  show le: "block_end w1 r \<le> block_end w0 r"
    using assms block_end_bounds [of w0 r] by (intro block_end_le) (auto simp: block_end_def)
  assume lt: "block_end w1 r < block_end w0 r"
  have d: "block_end w1 r div w0 = r div w0"
    using block_end_bounds [OF assms(1), of r] lt by (intro block_div [OF assms(3)]) simp_all
  then show "block_end w0 (block_end w1 r) = block_end w0 r" by (simp add: block_end_def)
  show "block_end w1 r mod w0 \<noteq> 0"
  proof
    assume "block_end w1 r mod w0 = 0"
    then have "block_end w1 r = r div w0 * w0"
      using div_mult_mod_eq [of "block_end w1 r" w0] d by simp
    also have "\<dots> \<le> r" by (rule div_times_less_eq_dividend)
    finally show False using block_end_bounds [OF assms(1), of r] by simp
  qed
qed

lemma rv_next: "k \<le> 64 \<Longrightarrow> rv (next_cursor (2 ^ k - 1) v) = block_end (2 ^ (64 - k)) (rv v) mod 2 ^ 64"
  by (simp only: rv_next_cursor block_end_def)

lemma scan_expand_correct:
  assumes ok: "ht_ok hash t1" and tbl: "ht_table t1 \<noteq> None"
    and m: "sizemask t1 = 2 ^ k1 - 1" "k0 \<le> k1" "k1 \<le> 60"
  defines "E \<equiv> \<lambda>v. block_end (2 ^ (64 - k0)) (rv v)"
  shows "\<exists>v' es. scan_expand t1 (2 ^ k0 - 1) v em = Some (v', em @ es) \<and> rv v' = E v mod 2 ^ 64 \<and>
    set es \<subseteq> set (ht_entries t1) \<and>
    (\<forall>e \<in> set (ht_entries t1). rv v \<le> rv (hash (fst e)) \<and> rv (hash (fst e)) < E v \<longrightarrow> e \<in> set es)"
proof (induction "E v - rv v" arbitrary: v em rule: less_induct)
  case less
  let ?w0 = "2 ^ (64 - k0) :: nat" and ?w1 = "2 ^ (64 - k1) :: nat"
  have w: "0 < ?w1" "0 < ?w0" "?w0 = ?w1 * 2 ^ (k1 - k0)"
    using m by (simp_all flip: power_add)
  obtain b where b: "bucket t1 (ht_index t1 v) = Some b" "set b \<subseteq> set (ht_entries t1)"
      "\<forall>e \<in> set (ht_entries t1). rv (hash (fst e)) div ?w1 = rv v div ?w1 \<longrightarrow> e \<in> set b"
    using scan_bucket [OF ok tbl m(1,3)] by blast
  let ?v = "next_cursor (2 ^ k1 - 1) v"
  have rn: "rv ?v = block_end ?w1 (rv v) mod 2 ^ 64" using m(3) by (intro rv_next) simp
  have E64: "E v \<le> 2 ^ 64" unfolding E_def by (intro block_end_le rv_less le_imp_power_dvd) simp
  have inb: "e \<in> set b" if "e \<in> set (ht_entries t1)" "rv v \<le> rv (hash (fst e))"
      "rv (hash (fst e)) < block_end ?w1 (rv v)" for e
    using b(3) that block_div [OF w(1) that(2,3)] by blast
  note inner = block_end_inner [OF w(1,3,2), of "rv v"]
  have w1_64: "?w1 dvd 2 ^ 64" by (rule le_imp_power_dvd) simp
  have al: "rv ?v mod ?w1 = 0"
    unfolding rn mod_mod_cancel [OF w1_64] by (simp add: block_end_def)
  have cond: "?v AND (of_nat (2 ^ k0 - 1) XOR of_nat (2 ^ k1 - 1)) = 0 \<longleftrightarrow> rv ?v mod ?w0 = 0"
    using m by (intro rv_mask_xor [OF _ _ al]) simp_all
  show ?case
  proof (cases "block_end ?w1 (rv v) < E v")
    case False
    then have eq: "block_end ?w1 (rv v) = E v" using inner(1) by (simp add: E_def)
    have "?w0 dvd 2 ^ 64" by (rule le_imp_power_dvd) simp
    then have "rv ?v mod ?w0 = 0" unfolding rn eq by (subst mod_mod_cancel) (simp_all add: E_def block_end_def)
    then have "scan_expand t1 (2 ^ k0 - 1) v em = Some (?v, em @ b)"
      using b(1) cond m(1) by (subst scan_expand.simps) (simp add: Let_def)
    then show ?thesis using rn eq b(2) inb by (intro exI [of _ ?v] exI [of _ b]) auto
  next
    case True
    then have rv': "rv ?v = block_end ?w1 (rv v)" using rn E64 by simp
    have "rv ?v mod ?w0 \<noteq> 0" unfolding rv' using inner(3) True by (simp add: E_def)
    then have step: "scan_expand t1 (2 ^ k0 - 1) v em = scan_expand t1 (2 ^ k0 - 1) ?v (em @ b)"
      using b(1) cond m(1) by (subst scan_expand.simps) (simp add: Let_def)
    have E': "E ?v = E v" using inner(2) True unfolding E_def rv' by simp
    have lt: "rv v < rv ?v" unfolding rv' by (rule block_end_bounds [OF w(1)])
    have "E ?v - rv ?v < E v - rv v" using E' lt True rv' by simp
    from less.hyps [OF this, of "em @ b"] obtain v' es where
      r: "scan_expand t1 (2 ^ k0 - 1) ?v (em @ b) = Some (v', (em @ b) @ es)" "rv v' = E v mod 2 ^ 64"
        "set es \<subseteq> set (ht_entries t1)"
        "\<forall>e \<in> set (ht_entries t1). rv ?v \<le> rv (hash (fst e)) \<and> rv (hash (fst e)) < E v \<longrightarrow> e \<in> set es"
      unfolding E' by blast
    have "e \<in> set (b @ es)" if "e \<in> set (ht_entries t1)" "rv v \<le> rv (hash (fst e))" "rv (hash (fst e)) < E v" for e
      using that r(4) inb unfolding rv' by (cases "rv (hash (fst e)) < block_end ?w1 (rv v)") auto
    then have "\<forall>e \<in> set (ht_entries t1). rv v \<le> rv (hash (fst e)) \<and> rv (hash (fst e)) < E v \<longrightarrow> e \<in> set (b @ es)"
      by blast
    then show ?thesis
      using step r(1-3) b(2) by (intro exI [of _ v'] exI [of _ "b @ es"]) simp
  qed
qed

lemma block_end_64:
  assumes "rv v' = block_end w r mod 2 ^ 64" and "block_end w r \<le> 2 ^ 64" and "0 < w"
  shows "if v' = 0 then block_end w r = 2 ^ 64 else rv v' = block_end w r"
proof (cases "block_end w r = 2 ^ 64")
  case True
  then have "v' = 0" using assms(1) by (simp flip: rv_eq_0)
  then show ?thesis using True by simp
next
  case False
  then have lt: "block_end w r < 2 ^ 64" using assms(2) by simp
  then have "rv v' = block_end w r" using assms(1) by simp
  moreover have "0 < block_end w r" using block_end_bounds [OF assms(3), of r] by simp
  ultimately show ?thesis by (auto simp flip: rv_eq_0)
qed

lemma dictScan_block:
  assumes wf: "dict_wf d" and ne: "dictSize d \<noteq> 0"
  defines "hash \<equiv> hashFunction (dtype d)"
  shows "\<exists>k v' es. dictScan d v = Some (v', es) \<and> k \<le> 60 \<and> 2 ^ k \<le> ht_size (ht0 d) \<and>
    rv v' = block_end (2 ^ (64 - k)) (rv v) mod 2 ^ 64 \<and> set es \<subseteq> set (dict_entries d) \<and>
    (\<forall>e \<in> set (dict_entries d). rv v \<le> rv (hash (fst e)) \<and>
       rv (hash (fst e)) < block_end (2 ^ (64 - k)) (rv v) \<longrightarrow> e \<in> set es)"
proof -
  have ok: "ht_ok hash (ht0 d)" "ht_ok hash (ht1 d)" using wf by (simp_all add: dict_wf_def hash_def)
  have tbl0: "ht_table (ht0 d) \<noteq> None"
    using used_table [OF wf] ne dictSize_eq [OF wf] by auto
  have blk: "e \<in> B" if "\<forall>e \<in> A. rv (hash (fst e)) div 2 ^ (64 - k) = rv v div 2 ^ (64 - k) \<longrightarrow> e \<in> B"
      "e \<in> A" "rv v \<le> rv (hash (fst e))" "rv (hash (fst e)) < block_end (2 ^ (64 - k)) (rv v)"
      for A B k and e :: "('a, 'b) dictEntry"
    using that(1,2) block_div [OF _ that(3,4)] by simp
  show ?thesis
  proof (cases "dictIsRehashing d")
    case False
    obtain k where k: "k \<le> 60" "ht_size (ht0 d) = 2 ^ k" "sizemask (ht0 d) = 2 ^ k - 1"
      using ht_ok_pow [OF ok(1) tbl0] by metis
    obtain b where b: "bucket (ht0 d) (ht_index (ht0 d) v) = Some b" "set b \<subseteq> set (ht_entries (ht0 d))"
        "\<forall>e \<in> set (ht_entries (ht0 d)). rv (hash (fst e)) div 2 ^ (64 - k) = rv v div 2 ^ (64 - k) \<longrightarrow> e \<in> set b"
      using scan_bucket [OF ok(1) tbl0 k(3,1)] by blast
    have ent: "dict_entries d = ht_entries (ht0 d)"
      using wf False by (simp add: dict_wf_def dict_entries_def ht_entries_def [of "ht1 d"])
    have "dictScan d v = Some (next_cursor (2 ^ k - 1) v, b)"
      using ne False b(1) k(3) by (simp add: dictScan_def)
    moreover have "rv (next_cursor (2 ^ k - 1) v) = block_end (2 ^ (64 - k)) (rv v) mod 2 ^ 64"
      using k(1) by (intro rv_next) simp
    moreover have "\<forall>e \<in> set (dict_entries d). rv v \<le> rv (hash (fst e)) \<and>
       rv (hash (fst e)) < block_end (2 ^ (64 - k)) (rv v) \<longrightarrow> e \<in> set b"
      using blk [OF b(3)] unfolding ent by blast
    ultimately show ?thesis using k b(2) ent by (intro exI [of _ k]) simp
  next
    case True
    define t where "t = (if ht_size (ht0 d) > ht_size (ht1 d) then (ht1 d, ht0 d) else (ht0 d, ht1 d))"
    obtain t0 t1 where t: "t = (t0, t1)" by (cases t)
    have tbl1: "ht_table (ht1 d) \<noteq> None" using wf True by (simp add: dict_wf_def)
    have ok': "ht_ok hash t0" "ht_ok hash t1" "ht_table t0 \<noteq> None" "ht_table t1 \<noteq> None"
        "ht_size t0 \<le> ht_size t1" "ht_size t0 \<le> ht_size (ht0 d)"
        "set (dict_entries d) = set (ht_entries t0) \<union> set (ht_entries t1)"
      using t ok tbl0 tbl1 by (auto simp: t_def dict_entries_def split: if_splits)
    obtain k0 where k0: "k0 \<le> 60" "ht_size t0 = 2 ^ k0" "sizemask t0 = 2 ^ k0 - 1"
      using ht_ok_pow [OF ok'(1,3)] by metis
    obtain k1 where k1: "k1 \<le> 60" "ht_size t1 = 2 ^ k1" "sizemask t1 = 2 ^ k1 - 1"
      using ht_ok_pow [OF ok'(2,4)] by metis
    have k01: "k0 \<le> k1"
    proof -
      have "(2::nat) ^ k0 \<le> 2 ^ k1" using ok'(5) k0(2) k1(2) by simp
      then show ?thesis by (rule power_le_imp_le_exp [rotated]) simp
    qed
    obtain b where b: "bucket t0 (ht_index t0 v) = Some b" "set b \<subseteq> set (ht_entries t0)"
        "\<forall>e \<in> set (ht_entries t0). rv (hash (fst e)) div 2 ^ (64 - k0) = rv v div 2 ^ (64 - k0) \<longrightarrow> e \<in> set b"
      using scan_bucket [OF ok'(1,3) k0(3,1)] by blast
    let ?E = "block_end (2 ^ (64 - k0)) (rv v)"
    obtain v' es where r: "scan_expand t1 (2 ^ k0 - 1) v b = Some (v', b @ es)" "rv v' = ?E mod 2 ^ 64"
        "set es \<subseteq> set (ht_entries t1)"
        "\<forall>e \<in> set (ht_entries t1). rv v \<le> rv (hash (fst e)) \<and> rv (hash (fst e)) < ?E \<longrightarrow> e \<in> set es"
      using scan_expand_correct [OF ok'(2,4) k1(3) k01 k1(1)] by blast
    have "dictScan d v = Some (v', b @ es)"
      using ne True b(1) r(1) k0(3) t by (simp add: dictScan_def t_def [symmetric] del: One_nat_def)
    moreover have "\<forall>e \<in> set (dict_entries d). rv v \<le> rv (hash (fst e)) \<and> rv (hash (fst e)) < ?E \<longrightarrow>
        e \<in> set (b @ es)"
      unfolding ok'(7) set_append using r(4) blk [OF b(3)] by blast
    moreover have "set (b @ es) \<subseteq> set (dict_entries d)" using b(2) r(3) ok'(7) by auto
    ultimately show ?thesis
      using r(2) k0 ok'(6) by (intro exI [of _ k0] exI [of _ v'] exI [of _ "b @ es"]) simp
  qed
qed

lemma dictScan_step:
  assumes wf: "dict_wf d"
  shows "\<exists>v' es. dictScan d v = Some (v', es) \<and> set es \<subseteq> set (dict_entries d) \<and>
    (\<forall>e \<in> set (dict_entries d). rv v \<le> rv (hashFunction (dtype d) (fst e)) \<and>
       (v' = 0 \<or> rv (hashFunction (dtype d) (fst e)) < rv v') \<longrightarrow> e \<in> set es) \<and>
    (v' = 0 \<or> rv v < rv v') \<and> (\<forall>K \<le> 64. ht_size (ht0 d) \<le> 2 ^ K \<longrightarrow> 2 ^ (64 - K) dvd rv v')"
proof (cases "dictSize d = 0")
  case True
  then have "dict_entries d = []" using dictSize_eq [OF wf] by simp
  then show ?thesis using True by (simp add: dictScan_def)
next
  case False
  obtain k v' es where r: "dictScan d v = Some (v', es)" "k \<le> 60" "2 ^ k \<le> ht_size (ht0 d)"
      "rv v' = block_end (2 ^ (64 - k)) (rv v) mod 2 ^ 64" "set es \<subseteq> set (dict_entries d)"
      "\<forall>e \<in> set (dict_entries d). rv v \<le> rv (hashFunction (dtype d) (fst e)) \<and>
       rv (hashFunction (dtype d) (fst e)) < block_end (2 ^ (64 - k)) (rv v) \<longrightarrow> e \<in> set es"
    using dictScan_block [OF wf False] by blast
  let ?E = "block_end (2 ^ (64 - k)) (rv v)"
  have E64: "?E \<le> 2 ^ 64" by (intro block_end_le rv_less le_imp_power_dvd) simp
  have E: "if v' = 0 then ?E = 2 ^ 64 else rv v' = ?E"
    by (rule block_end_64 [OF r(4) E64]) simp
  have "\<forall>e \<in> set (dict_entries d). rv v \<le> rv (hashFunction (dtype d) (fst e)) \<and>
       (v' = 0 \<or> rv (hashFunction (dtype d) (fst e)) < rv v') \<longrightarrow> e \<in> set es"
    using r(6) E rv_less by (cases "v' = 0") simp_all
  moreover have "v' = 0 \<or> rv v < rv v'"
    using E block_end_bounds [of "2 ^ (64 - k)" "rv v"] by (cases "v' = 0") simp_all
  moreover have "2 ^ (64 - K) dvd rv v'" if "K \<le> 64" "ht_size (ht0 d) \<le> 2 ^ K" for K
  proof (cases "v' = 0")
    case False
    have "(2::nat) ^ k \<le> 2 ^ K" using r(3) that(2) by (rule order_trans)
    then have "k \<le> K" by (rule power_le_imp_le_exp [rotated]) simp
    then have "(2::nat) ^ (64 - K) dvd 2 ^ (64 - k)" by (intro le_imp_power_dvd) simp
    also have "(2::nat) ^ (64 - k) dvd rv v'" using E False by (simp add: block_end_def)
    finally show ?thesis .
  qed simp
  ultimately show ?thesis using r(1,5) by blast
qed

section \<open>A whole scan\<close>

text \<open>
  The calls of a scan, each with the state of the dictionary at the time of the call, until the cursor
  is 0: the entries that were emitted and whether the scan came to its end.
\<close>

fun scan_run :: "('k, 'v) dict list \<Rightarrow> 64 word \<Rightarrow> (('k, 'v) dictEntry list \<times> bool) option" where
  "scan_run [] v = Some ([], False)"
| "scan_run (d # ds) v =
     do { (v', es) \<leftarrow> dictScan d v;
          if v' = 0 then Some (es, True)
          else do { (es', fin) \<leftarrow> scan_run ds v'; Some (es @ es', fin) } }"

lemma scan_run_Cons:
  assumes "dictScan d v = Some (v', es)"
  shows "scan_run (d # ds) v =
    (if v' = 0 then Some (es, True) else map_option (\<lambda>(es', fin). (es @ es', fin)) (scan_run ds v'))"
  using assms by (auto simp: map_conv_bind_option intro!: bind_option_cong)

declare scan_run.simps(2) [simp del]

lemma scan_run_sound:
  assumes "\<forall>d \<in> set ds. dict_wf d"
  shows "\<exists>es fin. scan_run ds v = Some (es, fin) \<and> set es \<subseteq> (\<Union>d \<in> set ds. set (dict_entries d))"
  using assms
proof (induction ds arbitrary: v)
  case (Cons d ds)
  obtain v' es where r: "dictScan d v = Some (v', es)" "set es \<subseteq> set (dict_entries d)"
    using dictScan_step [of d v] Cons.prems by auto
  obtain es' fin where "scan_run ds v' = Some (es', fin)" "set es' \<subseteq> (\<Union>d \<in> set ds. set (dict_entries d))"
    using Cons.IH [of v'] Cons.prems by auto
  then show ?case using r by (auto simp: scan_run_Cons [OF r(1)])
qed (auto intro: exI [of Not False])

context dict_type
begin

lemma scan_run_complete:
  assumes "\<forall>d \<in> set ds. dict_wf d \<and> dtype d = T \<and> dict_map d k \<noteq> None"
    and "rv v \<le> rv (hashFunction T k)" and "scan_run ds v = Some (es, True)"
  shows "\<exists>e \<in> set es. key_eq T k (fst e)"
  using assms
proof (induction ds arbitrary: v es)
  case (Cons d ds)
  let ?h = "hashFunction T k"
  have d: "dict_wf d" "dtype d = T" "dict_map d k \<noteq> None" using Cons.prems(1) by simp_all
  obtain e where e: "e \<in> set (dict_entries d)" "key_eq T k (fst e)"
    using d(3) entry_for_Some [OF dict_wf_entries [OF d(1,2)]]
    by (auto simp: dict_map_def dict_entry_def d(2))
  have h: "hashFunction T (fst e) = ?h" using key_eq_hash [OF e(2)] by simp
  obtain v' es1 where r: "dictScan d v = Some (v', es1)"
      "\<forall>e \<in> set (dict_entries d). rv v \<le> rv (hashFunction T (fst e)) \<and>
       (v' = 0 \<or> rv (hashFunction T (fst e)) < rv v') \<longrightarrow> e \<in> set es1"
    using dictScan_step [OF d(1), of v] d(2) by auto
  show ?case
  proof (cases "v' = 0 \<or> rv ?h < rv v'")
    case True
    then have "e \<in> set es1" using r(2) e(1) h Cons.prems(2) by simp
    moreover have "set es1 \<subseteq> set es"
      using Cons.prems(3) by (auto simp: scan_run_Cons [OF r(1)] split: if_splits)
    ultimately show ?thesis using e(2) by blast
  next
    case False
    then obtain es2 where "scan_run ds v' = Some (es2, True)" "es = es1 @ es2"
      using Cons.prems(3) by (auto simp: scan_run_Cons [OF r(1)])
    moreover have "rv v' \<le> rv ?h" using False by simp
    ultimately show ?thesis using Cons.IH [of v' es2] Cons.prems(1) by auto
  qed
qed simp

end

lemma scan_run_ends:
  assumes "\<forall>d \<in> set ds. dict_wf d \<and> ht_size (ht0 d) \<le> 2 ^ K" and K: "K \<le> 64"
    and "2 ^ (64 - K) dvd rv v" and "2 ^ K \<le> length ds + rv v div 2 ^ (64 - K)"
  shows "\<exists>es. scan_run ds v = Some (es, True)"
  using assms(1,3,4)
proof (induction ds arbitrary: v)
  case Nil
  have "rv v < 2 ^ K * 2 ^ (64 - K)" using rv_less [of v] K by (simp flip: power_add)
  then have "rv v div 2 ^ (64 - K) < 2 ^ K" by (simp add: less_mult_imp_div_less)
  then show ?case using Nil by simp
next
  case (Cons d ds)
  obtain v' es where r: "dictScan d v = Some (v', es)" "v' = 0 \<or> rv v < rv v'" "2 ^ (64 - K) dvd rv v'"
    using dictScan_step [of d v] Cons.prems(1) K by auto
  show ?case
  proof (cases "v' = 0")
    case False
    let ?w = "2 ^ (64 - K) :: nat"
    have "rv v div ?w < rv v' div ?w"
      using r(2,3) False Cons.prems(2) by (auto elim!: dvdE)
    then have "2 ^ K \<le> length ds + rv v' div ?w" using Cons.prems(3) by simp
    then show ?thesis
      using Cons.IH [of v'] Cons.prems(1) r(3) False by (auto simp: scan_run_Cons [OF r(1)])
  qed (simp add: scan_run_Cons [OF r(1)])
qed

section \<open>Properties\<close>

text \<open>C4: The guarantee of \<open>dictScan\<close>: in a scan from cursor 0 to its end, whatever happens to the
  dictionary between the calls (insertions, deletions, growing, shrinking, steps of rehashing), every
  key that is in the dictionary at each call is emitted. No call reads outside the tables, and
  only entries of the dictionary are emitted.\<close>

theorem dictScan_complete:
  assumes "dict_type T" and "\<forall>d \<in> set ds. dict_wf d \<and> dtype d = T"
  shows "\<exists>es fin. scan_run ds 0 = Some (es, fin) \<and> set es \<subseteq> (\<Union>d \<in> set ds. set (dict_entries d)) \<and>
    (\<forall>k. fin \<and> (\<forall>d \<in> set ds. dict_map d k \<noteq> None) \<longrightarrow> (\<exists>e \<in> set es. key_eq T k (fst e)))"
proof -
  have "\<forall>d \<in> set ds. dict_wf d" using assms(2) by blast
  from scan_run_sound [OF this, of 0] obtain es fin where
    r: "scan_run ds 0 = Some (es, fin)" "set es \<subseteq> (\<Union>d \<in> set ds. set (dict_entries d))" by blast
  have "\<exists>e \<in> set es. key_eq T k (fst e)" if "fin" "\<forall>d \<in> set ds. dict_map d k \<noteq> None" for k
    using dict_type.scan_run_complete [OF assms(1), of ds k 0 es] that assms(2) r(1) by simp
  then show ?thesis using r by blast
qed

theorem dictScan_complete_witness:
  "\<exists>es fin. scan_run (replicate 4 num_dict) 0 = Some (es, fin) \<and> (fin \<longrightarrow> (\<exists>e \<in> set es. key_eq num_type 5 (fst e)))"
proof -
  have "\<forall>d \<in> set (replicate 4 num_dict). dict_wf d \<and> dtype d = num_type"
    using num_dict_wf dtype_num_dict by simp
  from dictScan_complete [OF num_type_ok this] num_dict_map show ?thesis by fastforce
qed

text \<open>C12: A scan ends: if at every call the first table has at most \<open>2 ^ K\<close> buckets, at most \<open>2 ^ K\<close> calls
  bring the cursor back to 0.\<close>

theorem dictScan_ends:
  assumes "\<forall>d \<in> set ds. dict_wf d \<and> ht_size (ht0 d) \<le> 2 ^ K" and "K \<le> 64" and "2 ^ K \<le> length ds"
  shows "\<exists>es. scan_run ds 0 = Some (es, True)"
  using scan_run_ends [OF assms(1,2), of 0] assms(3) by simp

theorem dictScan_ends_witness: "\<exists>es. scan_run (replicate 4 num_dict) 0 = Some (es, True)"
proof (rule dictScan_ends [where K = 2])
  show "\<forall>d \<in> set (replicate 4 num_dict). dict_wf d \<and> ht_size (ht0 d) \<le> 2 ^ 2"
    using num_dict_wf by (simp add: num_dict_def)
qed simp_all

text \<open>The loop of shifts and masks in \<open>rev\<close> reverses the order of the 64 bits.\<close>

theorem rev_bits_correct: "bit (rev_bits v) n \<longleftrightarrow> n < 64 \<and> bit v (63 - n)"
  by (simp add: rev_bits_reverse bit_word_reverse_iff)

end
