(* ===== verification/Dict_Iter.thy ===== *)
theory Dict_Iter
  imports Dict_Types
begin

text \<open>
  The rest of \<open>dict.c\<close>: clearing and releasing a dictionary, the iterators with their fingerprint, and the
  random sampling of entries. An iterator is the record of its C structure; the pointers to entries in
  it are locations, so that the field \<open>next\<close> of an entry that was deleted cannot be read. The
  addresses of the bucket arrays, which the fingerprint mixes, are an argument, and so are the results of
  \<open>random()\<close> and \<open>rand()\<close>.
\<close>

unbundle bit_operations_syntax

section \<open>Clearing\<close>

text \<open>
  The loop of \<open>_dictClear\<close>. The result is the table header, the entries in the order in which their key,
  value and memory are released, and the number of calls of the callback, which is made at every
  65536th bucket if there is one.
\<close>

function dictClear_loop :: "bool \<Rightarrow> ('k, 'v) dictht \<Rightarrow> nat \<Rightarrow> ('k, 'v) dictEntry list \<Rightarrow> nat \<Rightarrow>
    (('k, 'v) dictht \<times> ('k, 'v) dictEntry list \<times> nat) option" where
  "dictClear_loop callback ht i freed calls =
     (if i < ht_size ht \<and> used ht > 0 then
        (let calls = (if callback \<and> i AND 65535 = 0 then calls + 1 else calls) in
         do { he \<leftarrow> bucket ht i;
              dictClear_loop callback (ht\<lparr>used := fold (\<lambda>_ u. u64_sub u 1) he (used ht)\<rparr>) (i + 1)
                (freed @ he) calls })
      else Some (ht, freed, calls))"
  by pat_completeness auto
termination by (relation "measure (\<lambda>(callback, ht, i, freed, calls). ht_size ht - i)") auto

declare dictClear_loop.simps [simp del]

definition dictClear :: "bool \<Rightarrow> ('k, 'v) dictht \<Rightarrow>
    (('k, 'v) dictht \<times> ('k, 'v) dictEntry list \<times> nat) option" where
  "dictClear callback ht =
     map_option (\<lambda>(ht, freed, calls). (dictReset, freed, calls)) (dictClear_loop callback ht 0 [] 0)"

text \<open>The entries that are released, in this order.\<close>

definition dictRelease :: "('k, 'v) dict \<Rightarrow> ('k, 'v) dictEntry list option" where
  "dictRelease d =
     do { (h0, freed0, _) \<leftarrow> dictClear False (ht0 d);
          (h1, freed1, _) \<leftarrow> dictClear False (ht1 d);
          Some (freed0 @ freed1) }"

definition dictEmpty :: "bool \<Rightarrow> ('k, 'v) dict \<Rightarrow>
    (('k, 'v) dict \<times> ('k, 'v) dictEntry list \<times> nat) option" where
  "dictEmpty callback d =
     do { (h0, freed0, calls0) \<leftarrow> dictClear callback (ht0 d);
          (h1, freed1, calls1) \<leftarrow> dictClear callback (ht1 d);
          Some (d\<lparr>ht0 := h0, ht1 := h1, rehashidx := - 1, iterators := 0\<rparr>, freed0 @ freed1,
                calls0 + calls1) }"

section \<open>Iterators\<close>

text \<open>The 64 bit mixing of \<open>dictFingerprint\<close>, on \<open>long long\<close>: the shifts to the right are arithmetic.\<close>

definition wang_hash :: "64 word \<Rightarrow> 64 word" where
  "wang_hash hash =
     (let hash = NOT hash + push_bit 21 hash;
          hash = hash XOR signed_drop_bit 24 hash;
          hash = (hash + push_bit 3 hash) + push_bit 8 hash;
          hash = hash XOR signed_drop_bit 14 hash;
          hash = (hash + push_bit 2 hash) + push_bit 4 hash;
          hash = hash XOR signed_drop_bit 28 hash
      in hash + push_bit 31 hash)"

text \<open>The argument has the addresses of the two bucket arrays.\<close>

definition dictFingerprint :: "64 word \<times> 64 word \<Rightarrow> ('k, 'v) dict \<Rightarrow> 64 word" where
  "dictFingerprint addr d =
     foldl (\<lambda>hash i. wang_hash (hash + i)) 0
       [fst addr, of_nat (ht_size (ht0 d)), of_nat (used (ht0 d)),
        snd addr, of_nat (ht_size (ht1 d)), of_nat (used (ht1 d))]"

record 'k dictIterator =
  it_index :: int
  it_table :: nat
  it_safe :: bool
  it_entry :: "'k de_ref option"
  it_nextEntry :: "'k de_ref option"
  it_fingerprint :: "64 word"

text \<open>The fingerprint of a new iterator is not initialised.\<close>

definition dictGetIterator :: "64 word \<Rightarrow> 'k dictIterator" where
  "dictGetIterator junk =
     \<lparr>it_index = - 1, it_table = 0, it_safe = False, it_entry = None, it_nextEntry = None,
      it_fingerprint = junk\<rparr>"

definition dictGetSafeIterator :: "64 word \<Rightarrow> 'k dictIterator" where
  "dictGetSafeIterator junk = (dictGetIterator junk)\<lparr>it_safe := True\<rparr>"

text \<open>The pointer to the first entry of a chain, and the field \<open>next\<close> of the entry at a location (\<open>None\<close> if
  there is no such entry any more).\<close>

definition chain_head :: "nat \<Rightarrow> nat \<Rightarrow> ('k, 'v) dictEntry list \<Rightarrow> 'k de_ref option" where
  "chain_head t i b = (case b of [] \<Rightarrow> None | e # _ \<Rightarrow> Some (t, i, fst e))"

definition entry_next :: "('k, 'v) dict \<Rightarrow> 'k de_ref \<Rightarrow> 'k de_ref option option" where
  "entry_next d r =
     (case r of (t, i, k) \<Rightarrow>
        do { b \<leftarrow> bucket (get_ht d t) i;
             case dropWhile (\<lambda>e. fst e \<noteq> k) b of
               [] \<Rightarrow> None
             | e # es \<Rightarrow> Some (chain_head t i es) })"

text \<open>The first step of an iterator: a safe one is counted in the dictionary, another one takes the fingerprint.\<close>

definition dictNext_first :: "64 word \<times> 64 word \<Rightarrow> ('k, 'v) dict \<Rightarrow> 'k dictIterator \<Rightarrow>
    ('k, 'v) dict \<times> 'k dictIterator" where
  "dictNext_first addr d iter =
     (if it_index iter = - 1 \<and> it_table iter = 0 then
        (if it_safe iter then (d\<lparr>iterators := u64 (iterators d + 1)\<rparr>, iter)
         else (d, iter\<lparr>it_fingerprint := dictFingerprint addr d\<rparr>))
      else (d, iter))"

text \<open>The part of the loop of \<open>dictNext\<close> up to the test of \<open>iter->entry\<close>; the flag is the \<open>break\<close>.\<close>

definition dictNext_advance :: "64 word \<times> 64 word \<Rightarrow> ('k, 'v) dict \<Rightarrow> 'k dictIterator \<Rightarrow>
    (('k, 'v) dict \<times> 'k dictIterator \<times> bool) option" where
  "dictNext_advance addr d iter =
     (if it_entry iter = None then
        (let (d, iter) = dictNext_first addr d iter;
             ht = get_ht d (it_table iter);
             iter = iter\<lparr>it_index := it_index iter + 1\<rparr>
         in if it_index iter \<ge> int (ht_size ht) then
              (if dictIsRehashing d \<and> it_table iter = 0 then
                 (let iter = iter\<lparr>it_table := it_table iter + 1, it_index := 0\<rparr>
                  in do { b \<leftarrow> bucket (ht1 d) 0;
                          Some (d, iter\<lparr>it_entry := chain_head (it_table iter) 0 b\<rparr>, False) })
               else Some (d, iter, True))
            else do { b \<leftarrow> bucket ht (nat (it_index iter));
                      Some (d, iter\<lparr>it_entry := chain_head (it_table iter) (nat (it_index iter)) b\<rparr>, False) })
      else Some (d, iter\<lparr>it_entry := it_nextEntry iter\<rparr>, False))"

partial_function (option) dictNext :: "64 word \<times> 64 word \<Rightarrow> ('k, 'v) dict \<Rightarrow> 'k dictIterator \<Rightarrow>
    (('k, 'v) dict \<times> 'k dictIterator \<times> 'k de_ref option) option" where
  "dictNext addr d iter =
     Option.bind (dictNext_advance addr d iter) (\<lambda>(d, iter, brk).
       if brk then Some (d, iter, None)
       else case it_entry iter of
              None \<Rightarrow> dictNext addr d iter
            | Some r \<Rightarrow> Option.bind (entry_next d r) (\<lambda>nx.
                Some (d, iter\<lparr>it_nextEntry := nx\<rparr>, Some r)))"

text \<open>\<open>None\<close> is the failing assertion of an unsafe iterator.\<close>

definition dictReleaseIterator :: "64 word \<times> 64 word \<Rightarrow> ('k, 'v) dict \<Rightarrow> 'k dictIterator \<Rightarrow>
    ('k, 'v) dict option" where
  "dictReleaseIterator addr d iter =
     (if \<not> (it_index iter = - 1 \<and> it_table iter = 0) then
        (if it_safe iter then Some (d\<lparr>iterators := u64_sub (iterators d) 1\<rparr>)
         else if it_fingerprint iter = dictFingerprint addr d then Some d else None)
      else Some d)"

section \<open>Random entries\<close>

text \<open>The two loops of \<open>dictGetRandomKey\<close>: the chain and the number of calls of \<open>random()\<close> so far.\<close>

partial_function (option) random_bucket2 :: "(nat \<Rightarrow> nat) \<Rightarrow> ('k, 'v) dict \<Rightarrow> nat \<Rightarrow>
    (('k, 'v) dictEntry list \<times> nat) option" where
  "random_bucket2 random d n =
     (let m = u64_sub (u64 (ht_size (ht0 d) + ht_size (ht1 d))) (nat (rehashidx d));
          h = u64 (nat (rehashidx d) + random n mod m)
      in if m = 0 then None
         else Option.bind
           (if h \<ge> ht_size (ht0 d) then bucket (ht1 d) (h - ht_size (ht0 d)) else bucket (ht0 d) h)
           (\<lambda>he. if he = [] then random_bucket2 random d (n + 1) else Some (he, n + 1)))"

partial_function (option) random_bucket1 :: "(nat \<Rightarrow> nat) \<Rightarrow> ('k, 'v) dict \<Rightarrow> nat \<Rightarrow>
    (('k, 'v) dictEntry list \<times> nat) option" where
  "random_bucket1 random d n =
     Option.bind (bucket (ht0 d) (ht_index (ht0 d) (of_nat (random n))))
       (\<lambda>he. if he = [] then random_bucket1 random d (n + 1) else Some (he, n + 1))"

definition dictGetRandomKey :: "(nat \<Rightarrow> nat) \<Rightarrow> ('k, 'v) dict \<Rightarrow>
    (('k, 'v) dict \<times> ('k, 'v) dictEntry option) option" where
  "dictGetRandomKey random d =
     (if dictSize d = 0 then Some (d, None)
      else do { d \<leftarrow> (if dictIsRehashing d then dictRehashStep d else Some d);
                (he, n) \<leftarrow> (if dictIsRehashing d then random_bucket2 random d 0
                             else random_bucket1 random d 0);
                Some (d, Some (he ! (random n mod length he))) })"

text \<open>The steps of rehashing at the start of \<open>dictGetSomeKeys\<close>.\<close>

primrec some_keys_rehash :: "nat \<Rightarrow> ('k, 'v) dict \<Rightarrow> ('k, 'v) dict option" where
  "some_keys_rehash 0 d = Some d"
| "some_keys_rehash (Suc n) d =
     (if dictIsRehashing d then do { d \<leftarrow> dictRehashStep d; some_keys_rehash n d } else Some d)"

text \<open>Storing a chain into \<open>des\<close>, and whether \<open>count\<close> was reached.\<close>

primrec some_keys_store :: "nat \<Rightarrow> ('k, 'v) dictEntry list \<Rightarrow> ('k, 'v) dictEntry list \<Rightarrow>
    ('k, 'v) dictEntry list \<times> bool" where
  "some_keys_store cnt des [] = (des, False)"
| "some_keys_store cnt des (he # hes) =
     (let des = des @ [he] in if length des = cnt then (des, True) else some_keys_store cnt des hes)"

record ('k, 'v) some_keys =
  sk_i :: nat
  sk_emptylen :: nat
  sk_des :: "('k, 'v) dictEntry list"
  sk_calls :: nat

text \<open>The body of the loop over the tables, with \<open>tables\<close> and \<open>maxsizemask\<close>; the flag is the \<open>return\<close>.\<close>

definition random_index :: "(nat \<Rightarrow> nat) \<Rightarrow> nat \<Rightarrow> nat \<Rightarrow> nat" where
  "random_index random maxsizemask n = unat ((of_nat (random n) :: 64 word) AND of_nat maxsizemask)"

definition some_keys_table :: "(nat \<Rightarrow> nat) \<Rightarrow> nat \<Rightarrow> nat \<Rightarrow> nat \<Rightarrow> ('k, 'v) dict \<Rightarrow> nat \<Rightarrow>
    ('k, 'v) some_keys \<Rightarrow> (('k, 'v) some_keys \<times> bool) option" where
  "some_keys_table random cnt tables maxsizemask d j s =
     (let behind = (tables = 2 \<and> j = 0 \<and> sk_i s < nat (rehashidx d));
          jump = (behind \<and> sk_i s \<ge> ht_size (ht1 d));
          s = (if jump then s\<lparr>sk_i := nat (rehashidx d)\<rparr> else s)
      in if behind \<and> \<not> jump then Some (s, False)
         else if sk_i s \<ge> ht_size (get_ht d j) then Some (s, False)
         else do { he \<leftarrow> bucket (get_ht d j) (sk_i s);
                   if he = [] then
                     (let e = u64 (sk_emptylen s + 1)
                      in if e \<ge> 5 \<and> e > cnt
                         then Some (s\<lparr>sk_i := random_index random maxsizemask (sk_calls s), sk_emptylen := 0,
                                      sk_calls := sk_calls s + 1\<rparr>, False)
                         else Some (s\<lparr>sk_emptylen := e\<rparr>, False))
                   else (let (des, full) = some_keys_store cnt (sk_des s) he
                         in Some (s\<lparr>sk_emptylen := 0, sk_des := des\<rparr>, full)) })"

primrec some_keys_loop :: "(nat \<Rightarrow> nat) \<Rightarrow> nat \<Rightarrow> nat \<Rightarrow> nat \<Rightarrow> ('k, 'v) dict \<Rightarrow> nat \<Rightarrow>
    ('k, 'v) some_keys \<Rightarrow> ('k, 'v) some_keys option" where
  "some_keys_loop random cnt tables maxsizemask d 0 s = Some s"
| "some_keys_loop random cnt tables maxsizemask d (Suc maxsteps) s =
     (if \<not> length (sk_des s) < cnt then Some s
      else do { (s, full) \<leftarrow> some_keys_table random cnt tables maxsizemask d 0 s;
                if full then Some s
                else do { (s, full) \<leftarrow> (if tables > 1
                            then some_keys_table random cnt tables maxsizemask d 1 s else Some (s, False));
                          if full then Some s
                          else some_keys_loop random cnt tables maxsizemask d maxsteps
                            (s\<lparr>sk_i := unat ((of_nat (sk_i s + 1) :: 64 word) AND of_nat maxsizemask)\<rparr>) } })"

text \<open>The dictionary, what is stored into \<open>des\<close> and the number of calls of \<open>random()\<close>. The type of \<open>count\<close> is
  \<open>unsigned int\<close>, also in the product \<open>count*10\<close>.\<close>

definition dictGetSomeKeys :: "(nat \<Rightarrow> nat) \<Rightarrow> ('k, 'v) dict \<Rightarrow> nat \<Rightarrow>
    (('k, 'v) dict \<times> ('k, 'v) dictEntry list \<times> nat) option" where
  "dictGetSomeKeys random d cnt =
     (let cnt = (if dictSize d < cnt then dictSize d else cnt);
          maxsteps = u32 (cnt * 10)
      in do { d \<leftarrow> some_keys_rehash cnt d;
              let tables = (if dictIsRehashing d then 2 else 1);
              let maxsizemask = (if tables > 1 \<and> sizemask (ht0 d) < sizemask (ht1 d)
                                 then sizemask (ht1 d) else sizemask (ht0 d));
              s \<leftarrow> some_keys_loop random cnt tables maxsizemask d maxsteps
                     \<lparr>sk_i = random_index random maxsizemask 0, sk_emptylen = 0, sk_des = [], sk_calls = 1\<rparr>;
              Some (d, sk_des s, sk_calls s) })"

definition GETFAIR_NUM_ENTRIES :: nat where
  "GETFAIR_NUM_ENTRIES = 15"

text \<open>\<open>rnd\<close> is the result of \<open>rand()\<close>.\<close>

definition dictGetFairRandomKey :: "(nat \<Rightarrow> nat) \<Rightarrow> nat \<Rightarrow> ('k, 'v) dict \<Rightarrow>
    (('k, 'v) dict \<times> ('k, 'v) dictEntry option) option" where
  "dictGetFairRandomKey random rnd d =
     do { (d, entries, n) \<leftarrow> dictGetSomeKeys random d GETFAIR_NUM_ENTRIES;
          if length entries = 0 then dictGetRandomKey (\<lambda>i. random (n + i)) d
          else Some (d, Some (entries ! (rnd mod length entries))) }"

section \<open>Clearing releases every entry once\<close>

lemma fold_u64_sub:
  "length b \<le> u \<Longrightarrow> u < 2 ^ 64 \<Longrightarrow> fold (\<lambda>_ u. u64_sub u 1) b u = u - length b"
  by (induction b arbitrary: u) (auto simp: u64_sub_id Suc_le_eq)

lemma dictClear_loop_frees:
  assumes "ht_table ht = Some t" and "length t = ht_size ht" and "used ht = length (concat (drop i t))"
    and "used ht < 2 ^ 64"
  shows "\<exists>ht' calls'. dictClear_loop cb ht i freed calls = Some (ht', freed @ concat (drop i t), calls')"
  using assms
proof (induction cb ht i freed calls rule: dictClear_loop.induct)
  case (1 cb ht i freed calls)
  show ?case
  proof (cases "i < ht_size ht \<and> used ht > 0")
    case True
    then have b: "bucket ht i = Some (t ! i)" and d: "drop i t = t ! i # drop (Suc i) t"
      using 1(2,3) by (simp_all add: bucket_def Cons_nth_drop_Suc)
    let ?calls = "if cb \<and> i AND 65535 = 0 then calls + 1 else calls"
    let ?ht = "ht\<lparr>used := fold (\<lambda>_ u. u64_sub u 1) (t ! i) (used ht)\<rparr>"
    have u: "used ?ht = length (concat (drop (i + 1) t))"
      using 1(4,5) fold_u64_sub [of "t ! i" "used ht"] by (simp add: d)
    have l: "used ?ht < 2 ^ 64" unfolding u using 1(4,5) by (simp add: d)
    have "ht_table ?ht = Some t" "length t = ht_size ?ht" using 1(2,3) by simp_all
    then obtain ht' calls' where
      "dictClear_loop cb ?ht (i + 1) (freed @ t ! i) ?calls = Some (ht', (freed @ t ! i) @ concat (drop (i + 1) t), calls')"
      using 1(1) [OF True refl b _ _ u l] by blast
    then show ?thesis using True b d by (subst dictClear_loop.simps) (simp add: Let_def)
  next
    case False
    then have "concat (drop i t) = []" using 1(3,4) by auto
    then show ?thesis using False by (subst dictClear_loop.simps) auto
  qed
qed

lemma dictClear_frees:
  assumes "ht_ok hash ht" and "length (ht_entries ht) < 2 ^ 64"
  shows "\<exists>calls. dictClear cb ht = Some (dictReset, ht_entries ht, calls)"
proof (cases "ht_table ht")
  case None
  then have "ht_size ht = 0" using assms(1) by (simp add: ht_ok_def)
  then show ?thesis using None by (simp add: dictClear_def ht_entries_def dictClear_loop.simps)
next
  case (Some t)
  then have "length t = ht_size ht" "used ht = length (concat (drop 0 t))" "used ht < 2 ^ 64"
    using assms by (auto simp: ht_ok_def ht_entries_def)
  from dictClear_loop_frees [OF Some this, of cb "[]" 0] show ?thesis
    using Some by (auto simp: dictClear_def ht_entries_def)
qed

lemma dictEmpty_frees:
  assumes "dict_wf d"
  shows "\<exists>calls. dictEmpty cb d = Some (dictCreate (dtype d), dict_entries d, calls)"
proof -
  have l: "length (ht_entries (ht0 d)) < 2 ^ 64" "length (ht_entries (ht1 d)) < 2 ^ 64"
    using assms by (auto simp: dict_wf_def dict_entries_def)
  obtain c0 c1 where "dictClear cb (ht0 d) = Some (dictReset, ht_entries (ht0 d), c0)"
      "dictClear cb (ht1 d) = Some (dictReset, ht_entries (ht1 d), c1)"
    using assms dictClear_frees [OF _ l(1), of "hashFunction (dtype d)" cb]
      dictClear_frees [OF _ l(2), of "hashFunction (dtype d)" cb]
    by (auto simp: dict_wf_def)
  then show ?thesis by (cases d) (simp add: dictEmpty_def dict_entries_def dictCreate_def dictInit_def)
qed

lemma dictRelease_frees:
  assumes "dict_wf d"
  shows "dictRelease d = Some (dict_entries d)"
proof -
  have l: "length (ht_entries (ht0 d)) < 2 ^ 64" "length (ht_entries (ht1 d)) < 2 ^ 64"
    using assms by (auto simp: dict_wf_def dict_entries_def)
  then show ?thesis
    using assms dictClear_frees [OF _ l(1), of "hashFunction (dtype d)" False]
      dictClear_frees [OF _ l(2), of "hashFunction (dtype d)" False]
    by (auto simp: dictRelease_def dict_wf_def dict_entries_def)
qed

section \<open>Iterating\<close>

lemma keys_differ_distinct:
  assumes "keys_differ T es"
  shows "distinct (map fst es)"
  using assms by (induction es) (auto simp: keys_differ_def key_eq_def)

lemma distinct_bucket:
  assumes "dict_wf d" and "bucket (get_ht d t) i = Some b"
  shows "distinct (map fst b)"
proof -
  have "distinct (map fst (dict_entries d))"
    using assms(1) by (auto simp: dict_wf_def intro: keys_differ_distinct)
  then have "distinct (map fst (ht_entries (get_ht d t)))"
    by (auto simp: dict_entries_def get_ht_def)
  then obtain tb where "distinct (map fst (concat tb))" "i < length tb" "b = tb ! i"
    using assms(2) by (auto simp: bucket_def ht_entries_def split: option.splits if_splits)
  then show ?thesis
    by (metis distinct_concat_iff distinct_map map_concat nth_mem length_map nth_map)
qed

lemma entry_next_split:
  assumes "bucket (get_ht d t) i = Some (pre @ e # suf)" and "distinct (map fst (pre @ e # suf))"
  shows "entry_next d (t, i, fst e) = Some (chain_head t i suf)"
proof -
  have "dropWhile (\<lambda>x. fst x \<noteq> fst e) (pre @ e # suf) = e # suf"
    using assms(2) by (subst dropWhile_append2) (auto simp: rev_image_eqI)
  then show ?thesis using assms(1) by (simp add: entry_next_def)
qed

text \<open>The entries in the buckets after a position, and the entries that an iterator has still to return.\<close>

definition entries_after :: "('k, 'v) dict \<Rightarrow> nat \<Rightarrow> int \<Rightarrow> ('k, 'v) dictEntry list" where
  "entries_after d t i =
     (case ht_table (get_ht d t) of None \<Rightarrow> [] | Some b \<Rightarrow> concat (drop (nat (i + 1)) b)) @
     (if t = 0 \<and> dictIsRehashing d then ht_entries (ht1 d) else [])"

definition iter_todo :: "('k, 'v) dict \<Rightarrow> 'k dictIterator \<Rightarrow> ('k, 'v) dictEntry list \<Rightarrow> bool" where
  "iter_todo d iter es \<longleftrightarrow> - 1 \<le> it_index iter \<and> it_table iter \<le> 1 \<and>
     (it_table iter = 1 \<longrightarrow> dictIsRehashing d) \<and>
     (case it_entry iter of
        None \<Rightarrow> es = entries_after d (it_table iter) (it_index iter)
      | Some r \<Rightarrow>
         (\<exists>pre suf. 0 \<le> it_index iter \<and>
            bucket (get_ht d (it_table iter)) (nat (it_index iter)) = Some (pre @ suf) \<and>
            it_nextEntry iter = chain_head (it_table iter) (nat (it_index iter)) suf \<and>
            es = suf @ entries_after d (it_table iter) (it_index iter)))"

text \<open>The state in the middle of the loop: \<open>iter->entry\<close> is the head of what is left of a chain.\<close>

definition iter_at :: "('k, 'v) dict \<Rightarrow> 'k dictIterator \<Rightarrow> ('k, 'v) dictEntry list \<Rightarrow>
    ('k, 'v) dictEntry list \<Rightarrow> bool" where
  "iter_at d iter suf es \<longleftrightarrow> 0 \<le> it_index iter \<and> it_table iter \<le> 1 \<and>
     (it_table iter = 1 \<longrightarrow> dictIsRehashing d) \<and>
     (\<exists>pre. bucket (get_ht d (it_table iter)) (nat (it_index iter)) = Some (pre @ suf)) \<and>
     it_entry iter = chain_head (it_table iter) (nat (it_index iter)) suf \<and>
     es = suf @ entries_after d (it_table iter) (it_index iter)"

definition same_tables :: "('k, 'v) dict \<Rightarrow> ('k, 'v) dict \<Rightarrow> bool" where
  "same_tables d d' \<longleftrightarrow> (\<exists>n. d' = d\<lparr>iterators := n\<rparr>)"

lemma same_tables_simps:
  assumes "same_tables d d'"
  shows "ht0 d' = ht0 d" "ht1 d' = ht1 d" "dictIsRehashing d' = dictIsRehashing d" "get_ht d' t = get_ht d t"
    "entries_after d' t i = entries_after d t i" "dict_wf d' = dict_wf d" "dict_entries d' = dict_entries d"
    "entry_next d' r = entry_next d r" "dictFingerprint a d' = dictFingerprint a d"
  using assms
  by (auto simp: same_tables_def get_ht_def dictIsRehashing_def entries_after_def dict_wf_def dict_entries_def
      entry_next_def dictFingerprint_def split: prod.split)

lemma entries_after_next:
  assumes "dict_wf d" and "- 1 \<le> i" and "t \<le> 1"
  shows "i + 1 < int (ht_size (get_ht d t)) \<Longrightarrow>
      \<exists>b. bucket (get_ht d t) (nat (i + 1)) = Some b \<and> entries_after d t i = b @ entries_after d t (i + 1)"
    and "\<not> i + 1 < int (ht_size (get_ht d t)) \<Longrightarrow>
      entries_after d t i = (if t = 0 \<and> dictIsRehashing d then ht_entries (ht1 d) else [])"
proof -
  have ok: "ht_ok (hashFunction (dtype d)) (get_ht d t)" using dict_wf_get_ht [OF assms(1)] .
  have n: "nat (i + 2) = Suc (nat (i + 1))" using assms(2) by simp
  {
    assume l: "i + 1 < int (ht_size (get_ht d t))"
    then obtain tb where tb: "ht_table (get_ht d t) = Some tb" "nat (i + 1) < length tb"
      using ok assms(2) by (auto simp: ht_ok_def split: option.splits)
    then have "drop (nat (i + 1)) tb = tb ! nat (i + 1) # drop (nat (i + 2)) tb"
      unfolding n by (simp add: Cons_nth_drop_Suc)
    then show "\<exists>b. bucket (get_ht d t) (nat (i + 1)) = Some b \<and> entries_after d t i = b @ entries_after d t (i + 1)"
      using tb by (simp add: bucket_def entries_after_def algebra_simps)
  }
  {
    assume "\<not> i + 1 < int (ht_size (get_ht d t))"
    then show "entries_after d t i = (if t = 0 \<and> dictIsRehashing d then ht_entries (ht1 d) else [])"
      using ok by (auto simp: entries_after_def ht_ok_def split: option.splits)
  }
qed

lemma entries_table1:
  assumes "dict_wf d" and "dictIsRehashing d"
  shows "\<exists>b. bucket (ht1 d) 0 = Some b \<and> ht_entries (ht1 d) = b @ entries_after d 1 0"
proof -
  obtain tb k where tb: "ht_table (ht1 d) = Some tb" "length tb = 2 ^ k"
    using assms by (auto simp: dict_wf_def ht_ok_def split: option.splits)
  then show ?thesis by (cases tb) (auto simp: bucket_def ht_entries_def entries_after_def get_ht_def)
qed

text \<open>The iterator has announced itself: a safe one in the dictionary, another one by the fingerprint.\<close>

definition iter_started :: "64 word \<times> 64 word \<Rightarrow> ('k, 'v) dict \<Rightarrow> ('k, 'v) dict \<Rightarrow> 'k dictIterator \<Rightarrow> bool" where
  "iter_started addr d0 d iter \<longleftrightarrow>
     (if it_index iter = - 1 \<and> it_table iter = 0 then d = d0
      else if it_safe iter then d = d0\<lparr>iterators := u64 (iterators d0 + 1)\<rparr>
      else d = d0 \<and> it_fingerprint iter = dictFingerprint addr d0)"

lemma dictNext_advance_correct:
  assumes wf: "dict_wf d" and todo: "iter_todo d iter es" and st: "iter_started addr d0 d iter"
  shows "\<exists>d' iter' brk. dictNext_advance addr d iter = Some (d', iter', brk) \<and> same_tables d d' \<and>
    iter_started addr d0 d' iter' \<and> 0 \<le> it_index iter' \<and> it_safe iter' = it_safe iter \<and>
    (if brk then es = [] else \<exists>suf. iter_at d iter' suf es)"
proof (cases "it_entry iter")
  case (Some r)
  let ?iter = "iter\<lparr>it_entry := it_nextEntry iter\<rparr>"
  obtain suf where "iter_at d ?iter suf es" "0 \<le> it_index iter"
    using todo Some by (auto simp: iter_todo_def iter_at_def)
  moreover have "same_tables d d" by (auto simp: same_tables_def intro: exI [of _ "iterators d"])
  ultimately show ?thesis using Some st by (auto simp: dictNext_advance_def iter_started_def)
next
  case None
  let ?t = "it_table iter" and ?i = "it_index iter"
  obtain d1 it where f: "dictNext_first addr d iter = (d1, it)" by fastforce
  have es: "es = entries_after d ?t ?i" and t: "?t \<le> 1" "?t = 1 \<longrightarrow> dictIsRehashing d" and i: "- 1 \<le> ?i"
    using todo None by (simp_all add: iter_todo_def)
  have sd: "same_tables d d1"
    using f by (auto simp: dictNext_first_def same_tables_def intro: exI [of _ "iterators d"] split: if_splits)
  note s = same_tables_simps [OF sd]
  have it: "it_index it = ?i" "it_table it = ?t" "it_safe it = it_safe iter"
    using f by (auto simp: dictNext_first_def split: if_splits)
  have st': "iter_started addr d0 d1 (it\<lparr>it_table := n, it_index := j, it_entry := r\<rparr>)" if "0 \<le> j" for n j r
    using st that f by (auto simp: iter_started_def dictNext_first_def split: if_splits)
  have st2: "iter_started addr d0 d1 (it\<lparr>it_index := j, it_entry := r\<rparr>)" if "0 \<le> j" for j r
    using st' [where n = ?t and r = r, OF that] it that by (auto simp: iter_started_def split: if_splits)
  show ?thesis
  proof (cases "?i + 1 < int (ht_size (get_ht d ?t))")
    case True
    obtain b where b: "bucket (get_ht d ?t) (nat (?i + 1)) = Some b" "es = b @ entries_after d ?t (?i + 1)"
      using entries_after_next(1) [OF wf i t(1) True] es by auto
    let ?it' = "it\<lparr>it_index := ?i + 1, it_entry := chain_head ?t (nat (?i + 1)) b\<rparr>"
    have "dictNext_advance addr d iter = Some (d1, ?it', False)"
      using True None b(1) s it f by (simp add: dictNext_advance_def Let_def)
    moreover have "iter_at d ?it' b es" using b t i it by (simp add: iter_at_def)
    ultimately show ?thesis using sd st2 [where j = "?i + 1"] i it by auto
  next
    case False
    note after = entries_after_next(2) [OF wf i t(1) False]
    show ?thesis
    proof (cases "dictIsRehashing d \<and> ?t = 0")
      case True
      obtain b where b: "bucket (ht1 d) 0 = Some b" "es = b @ entries_after d 1 0"
        using entries_table1 [OF wf] after es True by auto
      let ?it' = "it\<lparr>it_table := 1, it_index := 0, it_entry := chain_head 1 0 b\<rparr>"
      have "dictNext_advance addr d iter = Some (d1, ?it', False)"
        using True False None b(1) s it f by (simp add: dictNext_advance_def Let_def)
      moreover have "iter_at d ?it' b es" using b True by (simp add: iter_at_def get_ht_def)
      ultimately show ?thesis using sd st' [where j = 0] it by auto
    next
      case nr: False
      let ?it' = "it\<lparr>it_index := ?i + 1\<rparr>"
      have "dictNext_advance addr d iter = Some (d1, ?it', True)"
        using nr False None s f it by (auto simp: dictNext_advance_def Let_def)
      moreover have "es = []" using after es nr by auto
      moreover have "iter_started addr d0 d1 ?it'" using st2 [where j = "?i + 1" and r = "it_entry it"] i by simp
      ultimately show ?thesis using sd i it by auto
    qed
  qed
qed

lemma chain_head_simps [simp]:
  "chain_head t i [] = None" "chain_head t i (e # es) = Some (t, i, fst e)"
  by (simp_all add: chain_head_def)

lemma iter_at_todo:
  assumes "iter_at d iter [] es"
  shows "iter_todo d iter es"
  using assms by (auto simp: iter_todo_def iter_at_def chain_head_def)

lemma iter_at_return:
  assumes "dict_wf d" and "iter_at d iter (e # suf) es"
  shows "\<exists>r. it_entry iter = Some r \<and> r = (it_table iter, nat (it_index iter), fst e) \<and>
    entry_next d r = Some (chain_head (it_table iter) (nat (it_index iter)) suf) \<and>
    iter_todo d (iter\<lparr>it_nextEntry := chain_head (it_table iter) (nat (it_index iter)) suf\<rparr>) (tl es) \<and> hd es = e"
proof -
  obtain pre where b: "bucket (get_ht d (it_table iter)) (nat (it_index iter)) = Some (pre @ e # suf)"
    and r: "it_entry iter = Some (it_table iter, nat (it_index iter), fst e)"
    using assms(2) by (auto simp: iter_at_def chain_head_def)
  have "distinct (map fst (pre @ e # suf))" using distinct_bucket [OF assms(1) b] .
  note nx = entry_next_split [OF b this]
  have es: "es = e # suf @ entries_after d (it_table iter) (it_index iter)" using assms(2) by (simp add: iter_at_def)
  have "iter_todo d (iter\<lparr>it_nextEntry := chain_head (it_table iter) (nat (it_index iter)) suf\<rparr>) (tl es)"
    using assms(2) b r es by (auto simp: iter_todo_def iter_at_def intro!: exI [of _ "pre @ [e]"] exI [of _ suf])
  then show ?thesis using r nx es by simp
qed

definition iter_measure :: "('k, 'v) dict \<Rightarrow> 'k dictIterator \<Rightarrow> nat" where
  "iter_measure d iter = nat (int (ht_size (get_ht d (it_table iter))) - it_index iter) +
     (if it_table iter = 0 then ht_size (ht1 d) + 2 else 0)"

lemma dictNext_advance_measure:
  assumes "dictNext_advance addr d iter = Some (d', iter', False)" and "it_entry iter = None"
  shows "iter_measure d iter' < iter_measure d iter"
  using assms
  by (auto simp: dictNext_advance_def dictNext_first_def iter_measure_def Let_def get_ht_def
      split: if_splits bind_splits)

lemma dictNext_correct:
  assumes "dict_wf d" and "iter_todo d iter es" and "iter_started addr d0 d iter"
  shows "\<exists>d' iter' r. dictNext addr d iter = Some (d', iter', r) \<and> same_tables d d' \<and>
    iter_started addr d0 d' iter' \<and> 0 \<le> it_index iter' \<and> it_safe iter' = it_safe iter \<and>
    (case es of [] \<Rightarrow> r = None
     | e # es' \<Rightarrow> (\<exists>t i. r = Some (t, i, fst e) \<and> (\<exists>b. bucket (get_ht d t) i = Some b \<and> e \<in> set b)) \<and>
                 iter_todo d' iter' es')"
  using assms
proof (induction "2 * iter_measure d iter + (if it_entry iter = None then 0 else 1)" arbitrary: d iter es
    rule: less_induct)
  case less
  obtain d1 it1 brk where a: "dictNext_advance addr d iter = Some (d1, it1, brk)" "same_tables d d1"
      "iter_started addr d0 d1 it1" "0 \<le> it_index it1" "it_safe it1 = it_safe iter"
      "if brk then es = [] else \<exists>suf. iter_at d it1 suf es"
    using dictNext_advance_correct [OF less.prems] by blast
  note s = same_tables_simps [OF a(2)]
  have t: "iter_todo d1 it x \<longleftrightarrow> iter_todo d it x" for it x using s by (simp add: iter_todo_def split: option.split)
  show ?case
  proof (cases brk)
    case True
    then show ?thesis using a by (subst dictNext.simps) auto
  next
    case False
    then obtain suf where at: "iter_at d it1 suf es" using a(6) by auto
    show ?thesis
    proof (cases suf)
      case Nil
      then have e1: "it_entry it1 = None" using at by (simp add: iter_at_def chain_head_def)
      have m: "iter_measure d1 it1 = iter_measure d it1" using s by (simp add: iter_measure_def)
      have lt: "2 * iter_measure d1 it1 + (if it_entry it1 = None then 0 else 1) <
          2 * iter_measure d iter + (if it_entry iter = None then 0 else 1)"
      proof (cases "it_entry iter")
        case None
        then show ?thesis using dictNext_advance_measure [of addr d iter d1 it1] a(1) False m e1 by simp
      next
        case (Some r)
        then show ?thesis using a(1) m e1 by (auto simp: dictNext_advance_def iter_measure_def)
      qed
      have wf1: "dict_wf d1" using s(6) less.prems(1) by simp
      have td: "iter_todo d1 it1 es" unfolding t using iter_at_todo at Nil by blast
      have "dictNext addr d iter = dictNext addr d1 it1"
        using a(1) False e1 by (subst dictNext.simps) simp
      moreover obtain d2 it2 r where "dictNext addr d1 it1 = Some (d2, it2, r)" "same_tables d1 d2"
          "iter_started addr d0 d2 it2" "0 \<le> it_index it2" "it_safe it2 = it_safe it1"
          "case es of [] \<Rightarrow> r = None
           | e # es' \<Rightarrow> (\<exists>t i. r = Some (t, i, fst e) \<and> (\<exists>b. bucket (get_ht d1 t) i = Some b \<and> e \<in> set b)) \<and>
                       iter_todo d2 it2 es'"
        using less.hyps [OF lt wf1 td a(3)] by (elim exE conjE) (rule that)
      moreover have "same_tables d d2" if "same_tables d1 d2" for d2
        using that a(2) by (auto simp: same_tables_def)
      ultimately show ?thesis using a(5) s(4) by (cases es) auto
    next
      case (Cons e suf')
      obtain r where r: "it_entry it1 = Some r" "r = (it_table it1, nat (it_index it1), fst e)"
          "entry_next d r = Some (chain_head (it_table it1) (nat (it_index it1)) suf')"
          "iter_todo d (it1\<lparr>it_nextEntry := chain_head (it_table it1) (nat (it_index it1)) suf'\<rparr>) (tl es)" "hd es = e"
        using iter_at_return [OF less.prems(1)] at Cons by blast
      obtain pre where "bucket (get_ht d (it_table it1)) (nat (it_index it1)) = Some (pre @ e # suf')" "es \<noteq> []"
        using at Cons by (auto simp: iter_at_def)
      moreover have "iter_started addr d0 d1 (it1\<lparr>it_nextEntry := n\<rparr>)" for n
        using a(3) by (auto simp: iter_started_def split: if_splits)
      moreover have "dictNext addr d iter =
          Some (d1, it1\<lparr>it_nextEntry := chain_head (it_table it1) (nat (it_index it1)) suf'\<rparr>, Some r)"
        using a(1) False r(1,3) s(8) by (subst dictNext.simps) simp
      ultimately show ?thesis using a(2,4,5) r t by (cases es) auto
    qed
  qed
qed

text \<open>The loop of a client: it collects what \<open>dictNext\<close> returns until \<open>NULL\<close>.\<close>

partial_function (option) iterate :: "64 word \<times> 64 word \<Rightarrow> ('k, 'v) dict \<Rightarrow> 'k dictIterator \<Rightarrow> 'k de_ref list \<Rightarrow>
    (('k, 'v) dict \<times> 'k dictIterator \<times> 'k de_ref list) option" where
  "iterate addr d iter rs =
     Option.bind (dictNext addr d iter) (\<lambda>(d, iter, r).
       case r of None \<Rightarrow> Some (d, iter, rs) | Some r \<Rightarrow> iterate addr d iter (rs @ [r]))"

definition holds_entry :: "('k, 'v) dict \<Rightarrow> 'k de_ref \<Rightarrow> ('k, 'v) dictEntry \<Rightarrow> bool" where
  "holds_entry d r e \<longleftrightarrow> (case r of (t, i, k) \<Rightarrow> k = fst e \<and> (\<exists>b. bucket (get_ht d t) i = Some b \<and> e \<in> set b))"

lemma iterate_correct:
  assumes "dict_wf d" and "iter_todo d iter es" and "iter_started addr d0 d iter"
  shows "\<exists>d' iter' rs'. iterate addr d iter rs = Some (d', iter', rs @ rs') \<and> iter_started addr d0 d' iter' \<and>
    0 \<le> it_index iter' \<and> it_safe iter' = it_safe iter \<and> list_all2 (holds_entry d) rs' es"
  using assms
proof (induction es arbitrary: d iter rs)
  case Nil
  then show ?case using dictNext_correct [OF Nil] by (subst iterate.simps) auto
next
  case (Cons e es)
  obtain d1 it1 t i where n: "dictNext addr d iter = Some (d1, it1, Some (t, i, fst e))" "same_tables d d1"
      "iter_started addr d0 d1 it1" "it_safe it1 = it_safe iter" "iter_todo d1 it1 es"
    and h: "holds_entry d (t, i, fst e) e"
    using dictNext_correct [OF Cons.prems] by (auto simp: holds_entry_def)
  note s = same_tables_simps [OF n(2)]
  obtain d' iter' rs' where "iterate addr d1 it1 (rs @ [(t, i, fst e)]) = Some (d', iter', (rs @ [(t, i, fst e)]) @ rs')"
      "iter_started addr d0 d' iter'" "0 \<le> it_index iter'" "it_safe iter' = it_safe it1"
      "list_all2 (holds_entry d1) rs' es"
    using Cons.IH [OF _ n(5,3), of "rs @ [(t, i, fst e)]"] s(6) Cons.prems(1) by auto
  moreover have "holds_entry d1 = holds_entry d" using s by (simp add: holds_entry_def fun_eq_iff)
  ultimately show ?case using n(1,4) h by (subst iterate.simps) auto
qed

lemma iterate_new:
  assumes "dict_wf d" and "iterators d < 2 ^ 64"
    and "iter = dictGetIterator junk \<or> iter = dictGetSafeIterator junk"
  shows "\<exists>d' iter' rs. iterate addr d iter [] = Some (d', iter', rs) \<and> list_all2 (holds_entry d) rs (dict_entries d) \<and>
    dictReleaseIterator addr d' iter' = Some d"
proof -
  have "ht_entries (ht1 d) = []" if "\<not> dictIsRehashing d"
    using that assms(1) by (simp add: dict_wf_def ht_entries_def)
  then have "iter_todo d iter (dict_entries d)" "iter_started addr d d iter"
    using assms(3)
    by (auto simp: iter_todo_def iter_started_def dictGetSafeIterator_def dictGetIterator_def entries_after_def
        dict_entries_def ht_entries_def get_ht_def split: option.split)
  from iterate_correct [OF assms(1) this, of "[]"] obtain d' iter' rs where
    r: "iterate addr d iter [] = Some (d', iter', rs)" "iter_started addr d d' iter'" "0 \<le> it_index iter'"
      "list_all2 (holds_entry d) rs (dict_entries d)" by auto
  have "u64_sub (u64 (iterators d + 1)) 1 = iterators d"
    using assms(2) by (cases "iterators d = 2 ^ 64 - 1") (auto simp: u64_sub_def u64_def)
  then have "dictReleaseIterator addr d' iter' = Some d"
    using r(2,3) by (auto simp: dictReleaseIterator_def iter_started_def split: if_splits)
  then show ?thesis using r by blast
qed

section \<open>Random entries\<close>

lemma random_loop:
  assumes f: "\<And>n. f n = Option.bind (g n) (\<lambda>he. if he = [] then f (n + 1) else Some (he, n + 1))"
    and g: "\<And>n. g n \<noteq> None" "g N \<noteq> Some []" and n: "n \<le> (N :: nat)"
  shows "\<exists>m he. f n = Some (he, m + 1) \<and> g m = Some he \<and> he \<noteq> []"
  using n
proof (induction "N - n" arbitrary: n rule: less_induct)
  case less
  obtain he where he: "g n = Some he" using g(1) [of n] by blast
  show ?case
  proof (cases "he = []")
    case True
    then have "n < N" using he g(2) less.prems by (cases "n = N") auto
    then obtain m he' where "f (n + 1) = Some (he', m + 1)" "g m = Some he'" "he' \<noteq> []"
      using less.hyps [of "n + 1"] by fastforce
    then show ?thesis using f [of n] he True by auto
  next
    case False
    then show ?thesis using f [of n] he by auto
  qed
qed

definition random_hits :: "(nat \<Rightarrow> nat) \<Rightarrow> bool" where
  "random_hits random \<longleftrightarrow> (\<forall>m i. i < m \<and> m \<le> 2 ^ 31 \<longrightarrow> (\<exists>n. random n mod m = i))"

lemma nonempty_bucket:
  assumes "ht_ok hash ht" and "e \<in> set (ht_entries ht)"
  shows "\<exists>i b. bucket ht i = Some b \<and> b \<noteq> [] \<and> i < ht_size ht"
proof -
  obtain b where "bucket ht (ht_index ht (hash (fst e))) = Some b" "e \<in> set b"
    using entries_bucket [OF assms refl] by blast
  moreover from this assms(1) have "ht_index ht (hash (fst e)) < ht_size ht"
    by (intro ht_ok_index(1) [of hash]) (auto simp: bucket_def split: option.splits)
  ultimately show ?thesis by (metis empty_iff empty_set)
qed

lemma random_bucket1_correct:
  assumes wf: "dict_wf d" and nr: "\<not> dictIsRehashing d" and ne: "dict_entries d \<noteq> []"
    and sz: "ht_size (ht0 d) \<le> 2 ^ 31" and r: "random_hits random"
  shows "\<exists>he n. random_bucket1 random d 0 = Some (he, n) \<and> he \<noteq> [] \<and> set he \<subseteq> set (dict_entries d)"
proof -
  let ?g = "\<lambda>n. bucket (ht0 d) (ht_index (ht0 d) (of_nat (random n)))"
  have ok: "ht_ok (hashFunction (dtype d)) (ht0 d)" using wf by (simp add: dict_wf_def)
  have "ht_entries (ht1 d) = []" using wf nr by (simp add: dict_wf_def ht_entries_def)
  then have "hd (ht_entries (ht0 d)) \<in> set (ht_entries (ht0 d))" using ne by (simp add: dict_entries_def)
  then obtain i b where b: "bucket (ht0 d) i = Some b" "b \<noteq> []" "i < ht_size (ht0 d)"
    using nonempty_bucket [OF ok] by blast
  then have tb: "ht_table (ht0 d) \<noteq> None" by (auto simp: bucket_def split: option.splits)
  then obtain k where k: "ht_size (ht0 d) = 2 ^ k" "sizemask (ht0 d) = 2 ^ k - 1" "k \<le> 60"
    using ok by (auto simp: ht_ok_def)
  have dv: "2 ^ k dvd (2 ^ 64 :: nat)" using k(3) by (intro le_imp_power_dvd) simp
  obtain N where "random N mod ht_size (ht0 d) = i" using r sz b(3) by (auto simp: random_hits_def)
  then have "ht_index (ht0 d) (of_nat (random N)) = i"
    using mod_mod_cancel [OF dv, of "random N"] k by (simp add: ht_index_mod [OF k(2)] unat_of_nat)
  then have N: "?g N \<noteq> Some []" using b by simp
  have s: "?g n \<noteq> None" for n using ht_ok_index(2) [OF ok tb, of "of_nat (random n)"] by auto
  obtain m he where m: "random_bucket1 random d 0 = Some (he, m + 1)" "?g m = Some he" "he \<noteq> []"
    using random_loop [where f = "random_bucket1 random d" and g = ?g, OF random_bucket1.simps s N, of 0] by blast
  then show ?thesis using bucket_entries [OF m(2)] by (auto simp: dict_entries_def)
qed


lemma random_bucket2_correct:
  assumes wf: "dict_wf d" and re: "dictIsRehashing d" and ne: "dict_entries d \<noteq> []"
    and sz: "ht_size (ht0 d) + ht_size (ht1 d) \<le> 2 ^ 31" and r: "random_hits random"
  shows "\<exists>he n. random_bucket2 random d 0 = Some (he, n) \<and> he \<noteq> [] \<and> set he \<subseteq> set (dict_entries d)"
proof -
  let ?s0 = "ht_size (ht0 d)" and ?s1 = "ht_size (ht1 d)" and ?r = "nat (rehashidx d)"
  let ?m = "?s0 + ?s1 - ?r"
  let ?at = "\<lambda>h. if h \<ge> ?s0 then bucket (ht1 d) (h - ?s0) else bucket (ht0 d) h"
  let ?g = "\<lambda>n. ?at (?r + random n mod ?m)"
  have ok: "ht_ok (hashFunction (dtype d)) (ht0 d)" "ht_ok (hashFunction (dtype d)) (ht1 d)"
    and tb: "ht_table (ht0 d) \<noteq> None" "ht_table (ht1 d) \<noteq> None" and rs: "?r \<le> ?s0" "0 \<le> rehashidx d"
    and empty: "\<forall>i < ?r. bucket (ht0 d) i = Some []"
    using wf re by (auto simp: dict_wf_def)
  have s1: "0 < ?s1" and len: "\<exists>t0 t1. ht_table (ht0 d) = Some t0 \<and> ht_table (ht1 d) = Some t1 \<and>
      length t0 = ?s0 \<and> length t1 = ?s1"
    using ok tb by (auto simp: ht_ok_def)
  then have m: "0 < ?m" using rs by simp
  have at: "?at h \<noteq> None" if "h < ?s0 + ?s1" for h using that len by (auto simp: bucket_def)
  have h: "?r + random n mod ?m < ?s0 + ?s1" for n
    using mod_less_divisor [OF m, of "random n"] rs by linarith
  have step: "random_bucket2 random d n =
      Option.bind (?g n) (\<lambda>he. if he = [] then random_bucket2 random d (n + 1) else Some (he, n + 1))" for n
  proof -
    have "u64 (?s0 + ?s1) = ?s0 + ?s1" using sz by (intro u64_id) simp
    moreover have "u64_sub (?s0 + ?s1) ?r = ?m" using rs sz by (intro u64_sub_id) simp_all
    moreover have "u64 (?r + random n mod ?m) = ?r + random n mod ?m" using h [of n] sz by (intro u64_id) simp
    ultimately show ?thesis using m by (subst random_bucket2.simps) (simp add: Let_def)
  qed
  have "\<exists>h. ?r \<le> h \<and> h < ?s0 + ?s1 \<and> ?at h \<noteq> Some []"
  proof (cases "ht_entries (ht0 d) = []")
    case True
    then have "hd (ht_entries (ht1 d)) \<in> set (ht_entries (ht1 d))" using ne by (simp add: dict_entries_def)
    then obtain i b where "bucket (ht1 d) i = Some b" "b \<noteq> []" "i < ?s1"
      using nonempty_bucket [OF ok(2)] by blast
    then show ?thesis using rs by (intro exI [of _ "?s0 + i"]) auto
  next
    case False
    then have "hd (ht_entries (ht0 d)) \<in> set (ht_entries (ht0 d))" by simp
    then obtain i b where i: "bucket (ht0 d) i = Some b" "b \<noteq> []" "i < ?s0"
      using nonempty_bucket [OF ok(1)] by blast
    then have "?r \<le> i" using empty by (metis not_le option.inject)
    then show ?thesis using i by (intro exI [of _ i]) auto
  qed
  then obtain h0 where h0: "?r \<le> h0" "h0 < ?s0 + ?s1" "?at h0 \<noteq> Some []" by blast
  have "h0 - ?r < ?m" "?m \<le> 2 ^ 31" using h0 sz by linarith+
  then obtain N where "random N mod ?m = h0 - ?r" using r unfolding random_hits_def by blast
  then have N: "?g N \<noteq> Some []" using h0 by auto
  obtain m he where m: "random_bucket2 random d 0 = Some (he, m + 1)" "?g m = Some he" "he \<noteq> []"
    using random_loop [where f = "random_bucket2 random d" and g = ?g, OF step at [OF h] N, of 0] by blast
  then have "set he \<subseteq> set (dict_entries d)"
    using bucket_entries [of "ht0 d" _ he] bucket_entries [of "ht1 d" _ he]
    by (auto simp: dict_entries_def split: if_splits)
  then show ?thesis using m by blast
qed

lemma rehash_move_sizes:
  "rehash_move d b = Some d' \<Longrightarrow> ht_size (ht0 d') = ht_size (ht0 d) \<and> ht_size (ht1 d') = ht_size (ht1 d)"
  by (induction b arbitrary: d) (auto simp: Let_def split: bind_splits dest!: spec)

lemma rehash_loop_sizes:
  "rehash_loop n d ev = Some (d', out) \<Longrightarrow> ht_size (ht0 d') = ht_size (ht0 d) \<and> ht_size (ht1 d') = ht_size (ht1 d)"
  by (induction n arbitrary: d ev) (fastforce split: bind_splits if_splits dest: rehash_move_sizes)+

lemma dictRehashStep_sizes:
  assumes "dictRehashStep d = Some d'"
  shows "ht_size (ht0 d') + ht_size (ht1 d') \<le> ht_size (ht0 d) + ht_size (ht1 d)"
  using assms
  by (auto simp: dictRehashStep_def dictRehash_def dictReset_def split: if_splits bind_splits
      simp del: rehash_loop.simps dest!: rehash_loop_sizes)

context dict_type
begin

lemma dictGetRandomKey_correct:
  assumes "dict_wf d" and "dtype d = T" and "ht_size (ht0 d) + ht_size (ht1 d) \<le> 2 ^ 31" and "random_hits random"
  shows "\<exists>d' e. dictGetRandomKey random d = Some (d', e) \<and> same_entries d d' \<and>
    (case e of None \<Rightarrow> dict_entries d = [] | Some e \<Rightarrow> e \<in> set (dict_entries d))"
proof (cases "dict_entries d = []")
  case True
  then show ?thesis
    using assms(1) by (simp add: dictGetRandomKey_def dictSize_eq same_entries_refl)
next
  case False
  obtain d' where d': "(if dictIsRehashing d then dictRehashStep d else Some d) = Some d'" "same_entries d d'"
    using rehash_if_rehashing [OF assms(1,2)] by blast
  note s = same_entries_wf [OF d'(2) assms(2)]
  have sz: "ht_size (ht0 d') + ht_size (ht1 d') \<le> 2 ^ 31"
    using d'(1) assms(3) dictRehashStep_sizes [of d d'] by (auto split: if_splits)
  have ne: "dict_entries d' \<noteq> []" using s(4) False by auto
  have "\<exists>he n. (if dictIsRehashing d' then random_bucket2 random d' 0 else random_bucket1 random d' 0) =
      Some (he, n) \<and> he \<noteq> [] \<and> set he \<subseteq> set (dict_entries d')"
    using random_bucket1_correct [OF s(1) _ ne _ assms(4)] random_bucket2_correct [OF s(1) _ ne sz assms(4)] sz
    by auto
  then obtain he n where he: "(if dictIsRehashing d' then random_bucket2 random d' 0 else random_bucket1 random d' 0) =
      Some (he, n)" "he \<noteq> []" "set he \<subseteq> set (dict_entries d)" using s(5) by auto
  have "he ! (random n mod length he) \<in> set (dict_entries d)" using he(2,3) by (metis length_greater_0_conv mod_less_divisor nth_mem subsetD)
  then show ?thesis
    using False d' he(1) assms(1) by (simp add: dictGetRandomKey_def dictSize_eq)
qed

end

lemma some_keys_store_correct:
  assumes "length des < cnt" and "some_keys_store cnt des b = (des', full)"
  shows "set des' \<subseteq> set des \<union> set b \<and> length des' \<le> cnt \<and> (\<not> full \<longrightarrow> length des' < cnt) \<and>
    length des \<le> length des'"
  using assms
proof (induction b arbitrary: des)
  case (Cons e b)
  show ?case
  proof (cases "length (des @ [e]) = cnt")
    case False
    then have "length (des @ [e]) < cnt" "some_keys_store cnt (des @ [e]) b = (des', full)"
      using Cons.prems by (simp_all add: Let_def)
    from Cons.IH [OF this] show ?thesis by auto
  qed (use Cons.prems in auto)
qed auto

lemma some_keys_table_correct:
  assumes wf: "dict_wf d" and j: "j < tables" and t: "tables = (if dictIsRehashing d then 2 else 1)"
    and l: "length (sk_des s) < cnt" and e: "set (sk_des s) \<subseteq> set (dict_entries d)"
  shows "\<exists>s' full. some_keys_table random cnt tables m d j s = Some (s', full) \<and>
    set (sk_des s') \<subseteq> set (dict_entries d) \<and> length (sk_des s') \<le> cnt \<and> (\<not> full \<longrightarrow> length (sk_des s') < cnt)"
proof -
  let ?behind = "tables = 2 \<and> j = 0 \<and> sk_i s < nat (rehashidx d)"
  let ?s = "if ?behind \<and> sk_i s \<ge> ht_size (ht1 d) then s\<lparr>sk_i := nat (rehashidx d)\<rparr> else s"
  have des: "sk_des ?s = sk_des s" by simp
  show ?thesis
  proof (cases "?behind \<and> \<not> sk_i s \<ge> ht_size (ht1 d) \<or> sk_i ?s \<ge> ht_size (get_ht d j)")
    case True
    then show ?thesis using l e des by (auto simp: some_keys_table_def Let_def)
  next
    case False
    have "ht_ok (hashFunction (dtype d)) (get_ht d j)" using dict_wf_get_ht [OF wf] .
    then obtain b where b: "bucket (get_ht d j) (sk_i ?s) = Some b"
      using False by (fastforce simp: ht_ok_def bucket_def split: option.splits)
    have sb: "set b \<subseteq> set (dict_entries d)"
      using bucket_entries [OF b] by (cases "j = 0") (auto simp: dict_entries_def get_ht_def)
    obtain des' full where st: "some_keys_store cnt (sk_des ?s) b = (des', full)" by fastforce
    have "set des' \<subseteq> set (dict_entries d) \<and> length des' \<le> cnt \<and> (\<not> full \<longrightarrow> length des' < cnt)"
      using some_keys_store_correct [OF _ st] l e sb des by auto
    then show ?thesis
      using False b st l e des unfolding some_keys_table_def Let_def
      by (cases "b = []") (auto simp: Let_def)
  qed
qed

lemma some_keys_loop_correct:
  assumes wf: "dict_wf d" and t: "tables = (if dictIsRehashing d then 2 else 1)"
    and "length (sk_des s) \<le> cnt" and "set (sk_des s) \<subseteq> set (dict_entries d)"
  shows "\<exists>s'. some_keys_loop random cnt tables m d n s = Some s' \<and>
    set (sk_des s') \<subseteq> set (dict_entries d) \<and> length (sk_des s') \<le> cnt"
  using assms(3,4)
proof (induction n arbitrary: s)
  case (Suc n)
  show ?case
  proof (cases "length (sk_des s) < cnt")
    case True
    have t0: "0 < tables" using t by simp
    obtain s1 full where s1: "some_keys_table random cnt tables m d 0 s = Some (s1, full)"
        "set (sk_des s1) \<subseteq> set (dict_entries d)" "length (sk_des s1) \<le> cnt" "\<not> full \<longrightarrow> length (sk_des s1) < cnt"
      using some_keys_table_correct [OF wf t0 t True Suc.prems(2)] by blast
    show ?thesis
    proof (cases full)
      case False
      have "\<exists>s2 full. (if tables > 1 then some_keys_table random cnt tables m d 1 s1 else Some (s1, False)) = Some (s2, full) \<and>
          set (sk_des s2) \<subseteq> set (dict_entries d) \<and> length (sk_des s2) \<le> cnt"
        using some_keys_table_correct [OF wf _ t _ s1(2), of 1 cnt random m] s1 False by auto
      then obtain s2 full2 where "(if tables > 1 then some_keys_table random cnt tables m d 1 s1 else Some (s1, False)) = Some (s2, full2)"
          "set (sk_des s2) \<subseteq> set (dict_entries d)" "length (sk_des s2) \<le> cnt" by blast
      then show ?thesis
        using True s1(1) False Suc.IH [of "s2\<lparr>sk_i := unat ((of_nat (sk_i s2 + 1) :: 64 word) AND of_nat m)\<rparr>"] by simp
    qed (use True s1 in simp)
  qed (use Suc.prems in simp)
qed simp

context dict_type
begin

lemma some_keys_rehash_correct:
  assumes "dict_wf d" and "dtype d = T"
  shows "\<exists>d'. some_keys_rehash n d = Some d' \<and> same_entries d d' \<and>
    ht_size (ht0 d') + ht_size (ht1 d') \<le> ht_size (ht0 d) + ht_size (ht1 d)"
  using assms
proof (induction n arbitrary: d)
  case (Suc n)
  show ?case
  proof (cases "dictIsRehashing d")
    case True
    obtain d1 where d1: "dictRehashStep d = Some d1" "same_entries d d1"
      using dictRehashStep_correct [OF Suc.prems] by blast
    note s = same_entries_wf [OF d1(2) Suc.prems(2)]
    show ?thesis
      using True d1 Suc.IH [OF s(1,2)] dictRehashStep_sizes [OF d1(1)]
      by (fastforce intro: same_entries_trans)
  qed (use Suc.prems same_entries_refl in simp)
qed (simp add: same_entries_refl)

lemma dictGetSomeKeys_correct:
  assumes "dict_wf d" and "dtype d = T"
  shows "\<exists>d' des n. dictGetSomeKeys random d cnt = Some (d', des, n) \<and> same_entries d d' \<and>
    set des \<subseteq> set (dict_entries d) \<and> length des \<le> min cnt (length (dict_entries d)) \<and>
    ht_size (ht0 d') + ht_size (ht1 d') \<le> ht_size (ht0 d) + ht_size (ht1 d)"
proof -
  let ?cnt = "if dictSize d < cnt then dictSize d else cnt"
  obtain d' where d': "some_keys_rehash ?cnt d = Some d'" "same_entries d d'"
      "ht_size (ht0 d') + ht_size (ht1 d') \<le> ht_size (ht0 d) + ht_size (ht1 d)"
    using some_keys_rehash_correct [OF assms] by blast
  note s = same_entries_wf [OF d'(2) assms(2)]
  let ?tables = "if dictIsRehashing d' then 2 else 1 :: nat"
  let ?m = "if ?tables > 1 \<and> sizemask (ht0 d') < sizemask (ht1 d') then sizemask (ht1 d') else sizemask (ht0 d')"
  let ?s = "\<lparr>sk_i = random_index random ?m 0, sk_emptylen = 0, sk_des = [], sk_calls = 1\<rparr>"
  obtain s' where "some_keys_loop random ?cnt ?tables ?m d' (u32 (?cnt * 10)) ?s = Some s'"
      "set (sk_des s') \<subseteq> set (dict_entries d)" "length (sk_des s') \<le> ?cnt"
    using some_keys_loop_correct [OF s(1) refl, of ?s ?cnt random ?m "u32 (?cnt * 10)"] s(5) by auto
  then show ?thesis using d' assms(1) by (auto simp: dictGetSomeKeys_def Let_def dictSize_eq split: if_splits)
qed

lemma dictGetFairRandomKey_correct:
  assumes "dict_wf d" and "dtype d = T" and "ht_size (ht0 d) + ht_size (ht1 d) \<le> 2 ^ 31"
    and "\<forall>n. random_hits (\<lambda>i. random (n + i))"
  shows "\<exists>d' e. dictGetFairRandomKey random rnd d = Some (d', e) \<and> same_entries d d' \<and>
    (case e of None \<Rightarrow> dict_entries d = [] | Some e \<Rightarrow> e \<in> set (dict_entries d))"
proof -
  obtain d1 des n where d1: "dictGetSomeKeys random d GETFAIR_NUM_ENTRIES = Some (d1, des, n)" "same_entries d d1"
      "set des \<subseteq> set (dict_entries d)" "ht_size (ht0 d1) + ht_size (ht1 d1) \<le> 2 ^ 31"
    using dictGetSomeKeys_correct [OF assms(1,2), of random GETFAIR_NUM_ENTRIES] assms(3) by fastforce
  note s = same_entries_wf [OF d1(2) assms(2)]
  have e: "dict_entries d1 = [] \<longleftrightarrow> dict_entries d = []" using s(4) by auto
  show ?thesis
  proof (cases "des = []")
    case True
    obtain d2 x where "dictGetRandomKey (\<lambda>i. random (n + i)) d1 = Some (d2, x)" "same_entries d1 d2"
        "case x of None \<Rightarrow> dict_entries d1 = [] | Some x \<Rightarrow> x \<in> set (dict_entries d1)"
      using dictGetRandomKey_correct [OF s(1,2) d1(4) assms(4) [rule_format, of n]] by blast
    then show ?thesis
      using True d1 e s(5) same_entries_trans [OF d1(2)] by (cases x) (simp_all add: dictGetFairRandomKey_def)
  next
    case False
    then have "des ! (rnd mod length des) \<in> set (dict_entries d)"
      using d1(3) by (metis length_greater_0_conv mod_less_divisor nth_mem subsetD)
    then show ?thesis using False d1 by (simp add: dictGetFairRandomKey_def)
  qed
qed

end

section \<open>Properties\<close>

text \<open>C11: An iteration over a dictionary, with a safe or an unsafe iterator and also in the middle of a
  rehashing, returns every entry exactly once, in the order of the buckets, and then \<open>NULL\<close>; releasing the
  iterator passes the check of the fingerprint and leaves the dictionary as it was.\<close>

theorem dictNext_all:
  assumes "dict_wf d" and "iterators d < 2 ^ 64"
    and "iter = dictGetIterator junk \<or> iter = dictGetSafeIterator junk"
  shows "\<exists>d' iter' rs. iterate addr d iter [] = Some (d', iter', rs) \<and> list_all2 (holds_entry d) rs (dict_entries d) \<and>
    distinct rs \<and> dictReleaseIterator addr d' iter' = Some d"
proof -
  obtain d' iter' rs where r: "iterate addr d iter [] = Some (d', iter', rs)" "list_all2 (holds_entry d) rs (dict_entries d)"
      "dictReleaseIterator addr d' iter' = Some d"
    using iterate_new [OF assms] by blast
  have "map (snd \<circ> snd) rs = map fst (dict_entries d)"
    using r(2) by (induction rule: list_all2_induct) (auto simp: holds_entry_def)
  moreover have "distinct (map fst (dict_entries d))"
    using assms(1) by (auto simp: dict_wf_def intro: keys_differ_distinct)
  ultimately have "distinct rs" by (metis distinct_map)
  then show ?thesis using r by blast
qed

theorem dictNext_all_witness:
  "\<exists>d' iter' rs. iterate (1, 2) num_dict (dictGetSafeIterator 0) [] = Some (d', iter', rs) \<and>
    list_all2 (holds_entry num_dict) rs (dict_entries num_dict) \<and> dictReleaseIterator (1, 2) d' iter' = Some num_dict"
proof -
  have "iterators num_dict < 2 ^ 64" by (simp add: num_dict_def)
  from dictNext_all [OF num_dict_wf this, of "dictGetSafeIterator 0" 0 "(1, 2)"] show ?thesis by blast
qed

text \<open>\<open>dictEmpty\<close> and \<open>dictRelease\<close> release every entry of the dictionary exactly once, and \<open>dictEmpty\<close> leaves
  the state of a new dictionary.\<close>

theorem dictEmpty_correct:
  assumes "dict_wf d"
  shows "dictRelease d = Some (dict_entries d) \<and>
    (\<exists>calls. dictEmpty callback d = Some (dictCreate (dtype d), dict_entries d, calls))"
  using dictRelease_frees [OF assms] dictEmpty_frees [OF assms] by blast

theorem dictEmpty_correct_witness:
  "\<exists>calls. dictEmpty True num_dict = Some (dictCreate num_type, dict_entries num_dict, calls)"
  using dictEmpty_correct [OF num_dict_wf, of True] dtype_num_dict by simp


lemma random_hits_id: "random_hits (\<lambda>i. n + i)"
  unfolding random_hits_def
proof (intro allI impI)
  fix m i :: nat assume "i < m \<and> m \<le> 2 ^ 31"
  then have "n + (n * m - n + i) = i + n * m" by (cases m) auto
  then have "(n + (n * m - n + i)) mod m = i" using \<open>i < m \<and> m \<le> 2 ^ 31\<close> by simp
  then show "\<exists>k. (n + k) mod m = i" by blast
qed


text \<open>\<open>dictGetSomeKeys\<close> stores at most \<open>count\<close> entries, never more than the dictionary has, and only entries of the
  dictionary, whatever \<open>random()\<close> returns.\<close>

theorem dictGetSomeKeys_bounds:
  assumes "dict_type (dtype d)" and "dict_wf d"
  shows "\<exists>d' des n. dictGetSomeKeys random d cnt = Some (d', des, n) \<and> same_entries d d' \<and>
    set des \<subseteq> set (dict_entries d) \<and> length des \<le> min cnt (length (dict_entries d))"
  using dict_type.dictGetSomeKeys_correct [OF assms(1,2) refl, of random cnt] by blast

theorem dictGetSomeKeys_bounds_witness:
  "\<exists>d' des n. dictGetSomeKeys id num_dict 2 = Some (d', des, n) \<and> length des \<le> 2"
  using dictGetSomeKeys_bounds [of num_dict id 2] num_type_ok dtype_num_dict num_dict_wf by fastforce

end
