(* ===== verification/Sds.thy ===== *)
theory Sds
  imports Util_Num
begin

text \<open>
  The dynamic strings of \<open>sds.c\<close> and \<open>sds.h\<close>: the five header types, creation, growth, the in-place operations,
  comparison, numbers and formatted output. A string is the record of its header and of the bytes after it;
  accesses outside these bytes, failing assertions and reads past the end of a C string are the
  result \<open>None\<close>. Sizes are computed modulo \<open>2 ^ 64\<close> and stored modulo the width of the header field. The
  allocator never fails, and \<open>junk\<close> gives the bytes of fresh memory. The \<open>ctype.h\<close> functions are those of the C
  locale.

  \<open>sds_ok\<close> is the invariant and \<open>sds_str\<close> the byte string that a string stands for; the lemmas say what each
  operation does to it.
\<close>

unbundle bit_operations_syntax

section \<open>Definitions\<close>

text \<open>
  A string: the type in the flags byte (0 to 4), the fields \<open>len\<close> and \<open>alloc\<close> of the header and the
  bytes from the pointer \<open>s\<close> to the end of the allocation. Type 5 has no field \<open>alloc\<close>.
\<close>

record sds =
  sh_type :: nat
  sh_len :: nat
  sh_alloc :: nat
  sh_buf :: bytes

abbreviation (input) SDS_TYPE_5 :: nat where "SDS_TYPE_5 \<equiv> 0"
abbreviation (input) SDS_TYPE_8 :: nat where "SDS_TYPE_8 \<equiv> 1"
abbreviation (input) SDS_TYPE_16 :: nat where "SDS_TYPE_16 \<equiv> 2"
abbreviation (input) SDS_TYPE_32 :: nat where "SDS_TYPE_32 \<equiv> 3"
abbreviation (input) SDS_TYPE_64 :: nat where "SDS_TYPE_64 \<equiv> 4"

definition SDS_MAX_PREALLOC :: nat where
  "SDS_MAX_PREALLOC = 1024 * 1024"

text \<open>The number of bits of the length in the header of a type.\<close>

definition sds_bits :: "nat \<Rightarrow> nat" where
  "sds_bits type =
     (if type = SDS_TYPE_5 then 5 else if type = SDS_TYPE_8 then 8 else if type = SDS_TYPE_16 then 16
      else if type = SDS_TYPE_32 then 32 else 64)"

definition sdsHdrSize :: "nat \<Rightarrow> nat" where
  "sdsHdrSize type =
     (if type = SDS_TYPE_5 then 1
      else if type = SDS_TYPE_8 then 3
      else if type = SDS_TYPE_16 then 5
      else if type = SDS_TYPE_32 then 9
      else if type = SDS_TYPE_64 then 17
      else 0)"

definition sdsReqType :: "nat \<Rightarrow> nat" where
  "sdsReqType string_size =
     (if string_size < 2 ^ 5 then SDS_TYPE_5
      else if string_size < 2 ^ 8 then SDS_TYPE_8
      else if string_size < 2 ^ 16 then SDS_TYPE_16
      else if string_size < 2 ^ 32 then SDS_TYPE_32
      else SDS_TYPE_64)"

definition sdslen :: "sds \<Rightarrow> nat" where
  "sdslen s = sh_len s"

text \<open>The difference \<open>alloc - len\<close> is computed as an \<open>int\<close> for the types 8 and 16.\<close>

definition sdsavail :: "sds \<Rightarrow> nat" where
  "sdsavail s =
     (if sh_type s = SDS_TYPE_5 then 0
      else if sh_type s = SDS_TYPE_32 then u32_sub (sh_alloc s) (sh_len s)
      else u64_sub (sh_alloc s) (sh_len s))"

definition sdssetlen :: "sds \<Rightarrow> nat \<Rightarrow> sds" where
  "sdssetlen s newlen = s\<lparr>sh_len := newlen mod 2 ^ sds_bits (sh_type s)\<rparr>"

definition sdsinclen :: "sds \<Rightarrow> nat \<Rightarrow> sds" where
  "sdsinclen s inc = s\<lparr>sh_len := (sh_len s + inc) mod 2 ^ sds_bits (sh_type s)\<rparr>"

definition sdsalloc :: "sds \<Rightarrow> nat" where
  "sdsalloc s = (if sh_type s = SDS_TYPE_5 then sh_len s else sh_alloc s)"

definition sdssetalloc :: "sds \<Rightarrow> nat \<Rightarrow> sds" where
  "sdssetalloc s newlen =
     (if sh_type s = SDS_TYPE_5 then s else s\<lparr>sh_alloc := newlen mod 2 ^ sds_bits (sh_type s)\<rparr>)"

text \<open>The size in bytes of an allocation of \<open>hdrlen+n+1\<close>, without the header: \<open>None\<close> if the header does not fit.\<close>

definition sds_room :: "nat \<Rightarrow> nat \<Rightarrow> nat option" where
  "sds_room hdrlen n = (let sz = u64 (hdrlen + n + 1) in if sz < hdrlen then None else Some (sz - hdrlen))"

text \<open>The argument \<open>init\<close> of \<open>sdsnewlen\<close>.\<close>

datatype sds_init = SDS_NOINIT | NULL | Init bytes

definition sdsnewlen :: "(nat \<Rightarrow> byte) \<Rightarrow> sds_init \<Rightarrow> nat \<Rightarrow> sds option" where
  "sdsnewlen junk init initlen =
     (let type = sdsReqType initlen;
          type = (if type = SDS_TYPE_5 \<and> initlen = 0 then SDS_TYPE_8 else type);
          hdrlen = sdsHdrSize type
      in do { n \<leftarrow> sds_room hdrlen initlen;
              let buf = (case init of NULL \<Rightarrow> replicate n 0 | _ \<Rightarrow> fresh_block junk n);
              let s = sdssetalloc (sdssetlen \<lparr>sh_type = type, sh_len = 0, sh_alloc = 0, sh_buf = buf\<rparr> initlen) initlen;
              buf \<leftarrow> (case init of
                         Init p \<Rightarrow> do { bs \<leftarrow> mem_read p 0 initlen; mem_write buf 0 bs }
                       | _ \<Rightarrow> Some buf);
              buf \<leftarrow> mem_set buf initlen 0;
              Some (s\<lparr>sh_buf := buf\<rparr>) })"

text \<open>The length of a C string in a block of memory.\<close>

fun strlen :: "bytes \<Rightarrow> nat option" where
  "strlen [] = None"
| "strlen (b # bs) = (if b = 0 then Some 0 else map_option Suc (strlen bs))"

definition sdsempty :: "(nat \<Rightarrow> byte) \<Rightarrow> sds option" where
  "sdsempty junk = sdsnewlen junk (Init [0]) 0"

definition sdsnew :: "(nat \<Rightarrow> byte) \<Rightarrow> bytes option \<Rightarrow> sds option" where
  "sdsnew junk init =
     (case init of
        None \<Rightarrow> sdsnewlen junk NULL 0
      | Some p \<Rightarrow> do { initlen \<leftarrow> strlen p; sdsnewlen junk (Init p) initlen })"

definition sdsdup :: "(nat \<Rightarrow> byte) \<Rightarrow> sds \<Rightarrow> sds option" where
  "sdsdup junk s = sdsnewlen junk (Init (sh_buf s)) (sdslen s)"

definition sdsupdatelen :: "sds \<Rightarrow> sds option" where
  "sdsupdatelen s = do { reallen \<leftarrow> strlen (sh_buf s); Some (sdssetlen s reallen) }"

text \<open>Writing one byte of the string.\<close>

definition sds_put :: "sds \<Rightarrow> nat \<Rightarrow> byte \<Rightarrow> sds option" where
  "sds_put s i c = map_option (\<lambda>b. s\<lparr>sh_buf := b\<rparr>) (mem_set (sh_buf s) i c)"

definition sdsclear :: "sds \<Rightarrow> sds option" where
  "sdsclear s = sds_put (sdssetlen s 0) 0 0"

definition sdsMakeRoomFor :: "(nat \<Rightarrow> byte) \<Rightarrow> sds \<Rightarrow> nat \<Rightarrow> sds option" where
  "sdsMakeRoomFor junk s addlen =
     (let oldtype = sh_type s in
      if sdsavail s \<ge> addlen then Some s
      else (let len = sdslen s;
                newlen = u64 (len + addlen);
                newlen = (if newlen < SDS_MAX_PREALLOC then u64 (newlen * 2) else u64 (newlen + SDS_MAX_PREALLOC));
                type = sdsReqType newlen;
                type = (if type = SDS_TYPE_5 then SDS_TYPE_8 else type);
                hdrlen = sdsHdrSize type
            in do { n \<leftarrow> sds_room hdrlen newlen;
                    s \<leftarrow> (if oldtype = type then Some (s\<lparr>sh_buf := resize_block junk (sh_buf s) n\<rparr>)
                           else do { bs \<leftarrow> mem_read (sh_buf s) 0 (len + 1);
                                     buf \<leftarrow> mem_write (fresh_block junk n) 0 bs;
                                     Some (sdssetlen \<lparr>sh_type = type, sh_len = 0, sh_alloc = 0, sh_buf = buf\<rparr> len) });
                    Some (sdssetalloc s newlen) }))"

definition sdsRemoveFreeSpace :: "(nat \<Rightarrow> byte) \<Rightarrow> sds \<Rightarrow> sds option" where
  "sdsRemoveFreeSpace junk s =
     (let oldtype = sh_type s;
          oldhdrlen = sdsHdrSize oldtype;
          len = sdslen s
      in if sdsavail s = 0 then Some s
         else (let type = sdsReqType len;
                   hdrlen = sdsHdrSize type
               in do { s \<leftarrow> (if oldtype = type \<or> type > SDS_TYPE_8
                             then do { n \<leftarrow> sds_room oldhdrlen len;
                                       Some (s\<lparr>sh_buf := resize_block junk (sh_buf s) n\<rparr>) }
                             else do { n \<leftarrow> sds_room hdrlen len;
                                       bs \<leftarrow> mem_read (sh_buf s) 0 (len + 1);
                                       buf \<leftarrow> mem_write (fresh_block junk n) 0 bs;
                                       Some (sdssetlen \<lparr>sh_type = type, sh_len = 0, sh_alloc = 0, sh_buf = buf\<rparr> len) });
                       Some (sdssetalloc s len) }))"

definition sdsAllocSize :: "sds \<Rightarrow> nat" where
  "sdsAllocSize s = u64 (sdsHdrSize (sh_type s) + sdsalloc s + 1)"

text \<open>
  The assertions of \<open>sdsIncrLen\<close>; \<open>incr\<close> is a \<open>ssize_t\<close>. The types 5 to 32 compare with \<open>-incr\<close> as an
  \<open>unsigned int\<close>, type 32 with \<open>incr\<close> as one.
\<close>

definition sds_incr_ok :: "sds \<Rightarrow> int \<Rightarrow> bool" where
  "sds_incr_ok s incr =
     (let len = int (sh_len s); alloc = int (sh_alloc s) in
      if sh_type s = SDS_TYPE_5
      then (incr > 0 \<and> len + incr < 32) \<or> (incr < 0 \<and> len \<ge> (- incr) mod 2 ^ 32)
      else if sh_type s = SDS_TYPE_8 \<or> sh_type s = SDS_TYPE_16
      then (incr \<ge> 0 \<and> alloc - len \<ge> incr) \<or> (incr < 0 \<and> len \<ge> (- incr) mod 2 ^ 32)
      else if sh_type s = SDS_TYPE_32
      then (incr \<ge> 0 \<and> (alloc - len) mod 2 ^ 32 \<ge> incr mod 2 ^ 32) \<or> (incr < 0 \<and> len \<ge> (- incr) mod 2 ^ 32)
      else (incr \<ge> 0 \<and> (alloc - len) mod 2 ^ 64 \<ge> incr) \<or> (incr < 0 \<and> len \<ge> (- incr) mod 2 ^ 64))"

text \<open>For type 5 the flags byte and \<open>len\<close> are computed apart from each other.\<close>

definition sdsIncrLen :: "sds \<Rightarrow> int \<Rightarrow> sds option" where
  "sdsIncrLen s incr =
     (if \<not> sds_incr_ok s incr then None
      else (let oldlen = int (sh_len s);
                newlen = nat ((oldlen + incr) mod 2 ^ sds_bits (sh_type s));
                len = (if sh_type s = SDS_TYPE_5 then nat ((oldlen + incr) mod 2 ^ 64) else newlen)
            in sds_put (s\<lparr>sh_len := newlen\<rparr>) len 0))"

definition sdsgrowzero :: "(nat \<Rightarrow> byte) \<Rightarrow> sds \<Rightarrow> nat \<Rightarrow> sds option" where
  "sdsgrowzero junk s len =
     (let curlen = sdslen s in
      if len \<le> curlen then Some s
      else do { s \<leftarrow> sdsMakeRoomFor junk s (len - curlen);
                buf \<leftarrow> mem_write (sh_buf s) curlen (replicate (len - curlen + 1) 0);
                Some (sdssetlen (s\<lparr>sh_buf := buf\<rparr>) len) })"

definition sdscatlen :: "(nat \<Rightarrow> byte) \<Rightarrow> sds \<Rightarrow> bytes \<Rightarrow> nat \<Rightarrow> sds option" where
  "sdscatlen junk s t len =
     (let curlen = sdslen s in
      do { s \<leftarrow> sdsMakeRoomFor junk s len;
           bs \<leftarrow> mem_read t 0 len;
           buf \<leftarrow> mem_write (sh_buf s) curlen bs;
           s \<leftarrow> Some (sdssetlen (s\<lparr>sh_buf := buf\<rparr>) (u64 (curlen + len)));
           sds_put s (u64 (curlen + len)) 0 })"

definition sdscat :: "(nat \<Rightarrow> byte) \<Rightarrow> sds \<Rightarrow> bytes \<Rightarrow> sds option" where
  "sdscat junk s t = do { n \<leftarrow> strlen t; sdscatlen junk s t n }"

definition sdscatsds :: "(nat \<Rightarrow> byte) \<Rightarrow> sds \<Rightarrow> sds \<Rightarrow> sds option" where
  "sdscatsds junk s t = sdscatlen junk s (sh_buf t) (sdslen t)"

definition sdscpylen :: "(nat \<Rightarrow> byte) \<Rightarrow> sds \<Rightarrow> bytes \<Rightarrow> nat \<Rightarrow> sds option" where
  "sdscpylen junk s t len =
     do { s \<leftarrow> (if sdsalloc s < len then sdsMakeRoomFor junk s (u64_sub len (sdslen s)) else Some s);
          bs \<leftarrow> mem_read t 0 len;
          buf \<leftarrow> mem_write (sh_buf s) 0 bs;
          s \<leftarrow> sds_put (s\<lparr>sh_buf := buf\<rparr>) len 0;
          Some (sdssetlen s len) }"

definition sdscpy :: "(nat \<Rightarrow> byte) \<Rightarrow> sds \<Rightarrow> bytes \<Rightarrow> sds option" where
  "sdscpy junk s t = do { n \<leftarrow> strlen t; sdscpylen junk s t n }"

section \<open>Numbers\<close>

definition SDS_LLSTR_SIZE :: nat where
  "SDS_LLSTR_SIZE = 21"

text \<open>The loop that writes the digits in reverse order from the position \<open>p\<close> on, and the loop that reverses
  the bytes from \<open>s\<close> to \<open>p\<close>.\<close>

fun ll2str_digits :: "bytes \<Rightarrow> nat \<Rightarrow> nat \<Rightarrow> (bytes \<times> nat) option" where
  "ll2str_digits buf p v =
     do { buf \<leftarrow> mem_set buf p (48 + of_nat (v mod 10));
          if v div 10 \<noteq> 0 then ll2str_digits buf (p + 1) (v div 10) else Some (buf, p + 1) }"

declare ll2str_digits.simps [simp del]

fun ll2str_reverse :: "bytes \<Rightarrow> nat \<Rightarrow> nat \<Rightarrow> bytes option" where
  "ll2str_reverse buf s p =
     (if s < p then
        do { a \<leftarrow> mem_get buf s;
             b \<leftarrow> mem_get buf p;
             buf \<leftarrow> mem_set buf s b;
             buf \<leftarrow> mem_set buf p a;
             ll2str_reverse buf (s + 1) (p - 1) }
      else Some buf)"

declare ll2str_reverse.simps [simp del]

definition sdsll2str :: "bytes \<Rightarrow> int \<Rightarrow> (nat \<times> bytes) option" where
  "sdsll2str s val =
     (let v = (if val < 0 then nat (s64 (- val) mod 2 ^ 64) else nat val) in
      do { (s, p) \<leftarrow> ll2str_digits s 0 v;
           (s, p) \<leftarrow> (if val < 0 then do { s \<leftarrow> mem_set s p 45; Some (s, p + 1) } else Some (s, p));
           s \<leftarrow> mem_set s p 0;
           s \<leftarrow> ll2str_reverse s 0 (p - 1);
           Some (p, s) })"

definition sdsull2str :: "bytes \<Rightarrow> nat \<Rightarrow> (nat \<times> bytes) option" where
  "sdsull2str s v =
     do { (s, p) \<leftarrow> ll2str_digits s 0 v;
          s \<leftarrow> mem_set s p 0;
          s \<leftarrow> ll2str_reverse s 0 (p - 1);
          Some (p, s) }"

definition sdsfromlonglong :: "(nat \<Rightarrow> byte) \<Rightarrow> int \<Rightarrow> sds option" where
  "sdsfromlonglong junk val =
     do { (len, buf) \<leftarrow> sdsll2str (fresh_block junk SDS_LLSTR_SIZE) val;
          sdsnewlen junk (Init buf) len }"

section \<open>Formatted output\<close>

text \<open>
  \<open>vsnprintf\<close> for a formatted text of less than \<open>2 ^ 31\<close> bytes: it stores what fits into \<open>n\<close> bytes with a
  terminating zero and returns the length of the whole text.
\<close>

definition vsnprintf :: "bytes \<Rightarrow> nat \<Rightarrow> bytes \<Rightarrow> (nat \<times> bytes) option" where
  "vsnprintf buf n text =
     (if n = 0 then Some (length text, buf)
      else do { buf \<leftarrow> mem_write buf 0 (take (n - 1) text @ [0]); Some (length text, buf) })"

text \<open>
  \<open>text\<close> is the text that the format and its arguments give, \<open>None\<close> if \<open>vsnprintf\<close> fails, and \<open>fmtlen\<close> the length
  of the format. A second pass of the loop always has enough room.
\<close>

definition sdscatvprintf :: "(nat \<Rightarrow> byte) \<Rightarrow> sds \<Rightarrow> nat \<Rightarrow> bytes option \<Rightarrow> sds option option" where
  "sdscatvprintf junk s fmtlen text =
     (let buflen = (if fmtlen * 2 > 1024 then fmtlen * 2 else 1024) in
      case text of
        None \<Rightarrow> Some None
      | Some text \<Rightarrow>
         do { (bufstrlen, buf) \<leftarrow> vsnprintf (fresh_block junk buflen) buflen text;
              (bufstrlen, buf) \<leftarrow> (if bufstrlen \<ge> buflen
                 then vsnprintf (fresh_block junk (bufstrlen + 1)) (bufstrlen + 1) text
                 else Some (bufstrlen, buf));
              t \<leftarrow> sdscatlen junk s buf bufstrlen;
              Some (Some t) })"

text \<open>The arguments of \<open>sdscatfmt\<close>; an argument of another kind than the format asks for is an error.\<close>

datatype fmt_arg = Arg_str bytes | Arg_sds sds | Arg_int int | Arg_ll int | Arg_uint nat | Arg_ull nat

text \<open>Appending \<open>l\<close> bytes of a block at the position \<open>i\<close>.\<close>

definition fmt_append :: "(nat \<Rightarrow> byte) \<Rightarrow> sds \<Rightarrow> nat \<Rightarrow> bytes \<Rightarrow> nat \<Rightarrow> (sds \<times> nat) option" where
  "fmt_append junk s i str l =
     do { s \<leftarrow> (if sdsavail s < l then sdsMakeRoomFor junk s l else Some s);
          bs \<leftarrow> mem_read str 0 l;
          buf \<leftarrow> mem_write (sh_buf s) i bs;
          Some (sdsinclen (s\<lparr>sh_buf := buf\<rparr>) l, i + l) }"

definition fmt_char :: "sds \<Rightarrow> nat \<Rightarrow> byte \<Rightarrow> (sds \<times> nat) option" where
  "fmt_char s i c = do { s \<leftarrow> sds_put s i c; Some (sdsinclen s 1, i + 1) }"

text \<open>One conversion, given the byte after the percent sign (115 s, 83 S, 105 i, 73 I, 117 u, 85 U).\<close>

definition fmt_conv :: "(nat \<Rightarrow> byte) \<Rightarrow> sds \<Rightarrow> nat \<Rightarrow> byte \<Rightarrow> fmt_arg list \<Rightarrow> (sds \<times> nat \<times> fmt_arg list) option" where
  "fmt_conv junk s i nxt ap =
     (if nxt = 115 then
        (case ap of Arg_str str # ap \<Rightarrow>
           do { l \<leftarrow> strlen str; (s, i) \<leftarrow> fmt_append junk s i str l; Some (s, i, ap) } | _ \<Rightarrow> None)
      else if nxt = 83 then
        (case ap of Arg_sds str # ap \<Rightarrow>
           do { (s, i) \<leftarrow> fmt_append junk s i (sh_buf str) (sdslen str); Some (s, i, ap) } | _ \<Rightarrow> None)
      else if nxt = 105 \<or> nxt = 73 then
        do { num \<leftarrow> (case ap of Arg_int num # _ \<Rightarrow> if nxt = 105 then Some num else None
                       | Arg_ll num # _ \<Rightarrow> if nxt = 73 then Some num else None | _ \<Rightarrow> None);
             (l, buf) \<leftarrow> sdsll2str (fresh_block junk SDS_LLSTR_SIZE) num;
             (s, i) \<leftarrow> fmt_append junk s i buf l;
             Some (s, i, tl ap) }
      else if nxt = 117 \<or> nxt = 85 then
        do { unum \<leftarrow> (case ap of Arg_uint num # _ \<Rightarrow> if nxt = 117 then Some num else None
                        | Arg_ull num # _ \<Rightarrow> if nxt = 85 then Some num else None | _ \<Rightarrow> None);
             (l, buf) \<leftarrow> sdsull2str (fresh_block junk SDS_LLSTR_SIZE) unum;
             (s, i) \<leftarrow> fmt_append junk s i buf l;
             Some (s, i, tl ap) }
      else do { (s, i) \<leftarrow> fmt_char s i nxt; Some (s, i, ap) })"

text \<open>The loop over the format, which is the block of memory from \<open>f\<close> on.\<close>

fun sdscatfmt_loop :: "(nat \<Rightarrow> byte) \<Rightarrow> sds \<Rightarrow> nat \<Rightarrow> bytes \<Rightarrow> fmt_arg list \<Rightarrow> (sds \<times> nat) option" where
  "sdscatfmt_loop junk s i [] ap = None"
| "sdscatfmt_loop junk s i (c # f) ap =
     (if c = 0 then Some (s, i)
      else do { s \<leftarrow> (if sdsavail s = 0 then sdsMakeRoomFor junk s 1 else Some s);
                if c = 37 then
                  (case f of
                     [] \<Rightarrow> None
                   | nxt # f \<Rightarrow> do { (s, i, ap) \<leftarrow> fmt_conv junk s i nxt ap; sdscatfmt_loop junk s i f ap })
                else do { (s, i) \<leftarrow> fmt_char s i c; sdscatfmt_loop junk s i f ap } })"

definition sdscatfmt :: "(nat \<Rightarrow> byte) \<Rightarrow> sds \<Rightarrow> bytes \<Rightarrow> fmt_arg list \<Rightarrow> sds option" where
  "sdscatfmt junk s fmt ap =
     (let initlen = sdslen s in
      do { n \<leftarrow> strlen fmt;
           s \<leftarrow> sdsMakeRoomFor junk s (u64 (n * 2));
           (s, i) \<leftarrow> sdscatfmt_loop junk s initlen fmt ap;
           sds_put s i 0 })"

section \<open>Trimming, ranges and comparison\<close>

text \<open>\<open>strchr\<close> finds the terminating zero too.\<close>

fun strchr :: "bytes \<Rightarrow> byte \<Rightarrow> bool option" where
  "strchr [] c = None"
| "strchr (b # bs) c = (if b = c then Some True else if b = 0 then Some False else strchr bs c)"

text \<open>The two loops of \<open>sdstrim\<close>; \<open>end\<close> and \<open>ep\<close> are -1 for the empty string.\<close>

function trim_left :: "bytes \<Rightarrow> bytes \<Rightarrow> int \<Rightarrow> int \<Rightarrow> int option" where
  "trim_left buf cset sp e =
     (if sp \<le> e then
        do { c \<leftarrow> mem_get buf (nat sp);
             m \<leftarrow> strchr cset c;
             if m then trim_left buf cset (sp + 1) e else Some sp }
      else Some sp)"
  by pat_completeness auto
termination by (relation "measure (\<lambda>(buf, cset, sp, e). nat (e - sp + 1))") auto

declare trim_left.simps [simp del]

function trim_right :: "bytes \<Rightarrow> bytes \<Rightarrow> int \<Rightarrow> int \<Rightarrow> int option" where
  "trim_right buf cset sp ep =
     (if ep > sp then
        do { c \<leftarrow> mem_get buf (nat ep);
             m \<leftarrow> strchr cset c;
             if m then trim_right buf cset sp (ep - 1) else Some ep }
      else Some ep)"
  by pat_completeness auto
termination by (relation "measure (\<lambda>(buf, cset, sp, ep). nat (ep - sp))") auto

declare trim_right.simps [simp del]

definition sdstrim :: "sds \<Rightarrow> bytes \<Rightarrow> sds option" where
  "sdstrim s cset =
     (let e = int (sdslen s) - 1 in
      do { sp \<leftarrow> trim_left (sh_buf s) cset 0 e;
           ep \<leftarrow> trim_right (sh_buf s) cset sp e;
           let len = (if sp > ep then 0 else nat (ep - sp + 1));
           buf \<leftarrow> (if sp \<noteq> 0 then mem_move (sh_buf s) 0 (nat sp) len else Some (sh_buf s));
           s \<leftarrow> sds_put (s\<lparr>sh_buf := buf\<rparr>) len 0;
           Some (sdssetlen s len) })"

text \<open>\<open>start\<close> and \<open>end\<close> are \<open>ssize_t\<close>, the lengths \<open>size_t\<close>.\<close>

definition sdsrange :: "sds \<Rightarrow> int \<Rightarrow> int \<Rightarrow> sds option" where
  "sdsrange s start e =
     (let len = sdslen s in
      if len = 0 then Some s
      else (let start = (if start < 0 then s64 (int len + start) else start);
                start = (if start < 0 then 0 else start);
                e = (if e < 0 then s64 (int len + e) else e);
                e = (if e < 0 then 0 else e);
                newlen = (if start > e then 0 else nat ((e - start + 1) mod 2 ^ 64));
                (start, newlen) =
                  (if newlen \<noteq> 0 then
                     (if start \<ge> s64 (int len) then (start, 0)
                      else if e \<ge> s64 (int len)
                      then (let e = s64 (int len - 1)
                            in (start, if start > e then 0 else nat ((e - start + 1) mod 2 ^ 64)))
                      else (start, newlen))
                   else (0, newlen))
            in do { buf \<leftarrow> (if start \<noteq> 0 \<and> newlen \<noteq> 0 then mem_move (sh_buf s) 0 (nat start) newlen
                             else Some (sh_buf s));
                    s \<leftarrow> sds_put (s\<lparr>sh_buf := buf\<rparr>) newlen 0;
                    Some (sdssetlen s newlen) }))"

text \<open>The loop of \<open>sdstolower\<close>, \<open>sdstoupper\<close> and \<open>sdsmapchars\<close> over the bytes of the string.\<close>

function sds_map_loop :: "(byte \<Rightarrow> byte option) \<Rightarrow> bytes \<Rightarrow> nat \<Rightarrow> nat \<Rightarrow> bytes option" where
  "sds_map_loop f buf j len =
     (if j < len then
        do { c \<leftarrow> mem_get buf j;
             c \<leftarrow> f c;
             buf \<leftarrow> mem_set buf j c;
             sds_map_loop f buf (j + 1) len }
      else Some buf)"
  by pat_completeness auto
termination by (relation "measure (\<lambda>(f, buf, j, len). len - j)") auto

declare sds_map_loop.simps [simp del]

definition tolower_byte :: "byte \<Rightarrow> byte" where
  "tolower_byte c = (if 65 \<le> c \<and> c \<le> 90 then c + 32 else c)"

definition toupper_byte :: "byte \<Rightarrow> byte" where
  "toupper_byte c = (if 97 \<le> c \<and> c \<le> 122 then c - 32 else c)"

definition sdstolower :: "sds \<Rightarrow> sds option" where
  "sdstolower s =
     map_option (\<lambda>b. s\<lparr>sh_buf := b\<rparr>) (sds_map_loop (Some \<circ> tolower_byte) (sh_buf s) 0 (sdslen s))"

definition sdstoupper :: "sds \<Rightarrow> sds option" where
  "sdstoupper s =
     map_option (\<lambda>b. s\<lparr>sh_buf := b\<rparr>) (sds_map_loop (Some \<circ> toupper_byte) (sh_buf s) 0 (sdslen s))"

text \<open>The inner loop of \<open>sdsmapchars\<close>: the first match of the byte in \<open>from\<close>.\<close>

function mapchars_byte :: "bytes \<Rightarrow> bytes \<Rightarrow> nat \<Rightarrow> nat \<Rightarrow> byte \<Rightarrow> byte option" where
  "mapchars_byte from to i setlen c =
     (if i < setlen then
        do { f \<leftarrow> mem_get from i;
             if c = f then mem_get to i else mapchars_byte from to (i + 1) setlen c }
      else Some c)"
  by pat_completeness auto
termination by (relation "measure (\<lambda>(from, to, i, setlen, c). setlen - i)") auto

declare mapchars_byte.simps [simp del]

definition sdsmapchars :: "sds \<Rightarrow> bytes \<Rightarrow> bytes \<Rightarrow> nat \<Rightarrow> sds option" where
  "sdsmapchars s from to setlen =
     map_option (\<lambda>b. s\<lparr>sh_buf := b\<rparr>) (sds_map_loop (mapchars_byte from to 0 setlen) (sh_buf s) 0 (sdslen s))"

text \<open>The sign of \<open>memcmp\<close>: the bytes are compared as \<open>unsigned char\<close>.\<close>

fun memcmp :: "bytes \<Rightarrow> bytes \<Rightarrow> int" where
  "memcmp (a # as) (b # bs) = (if a < b then - 1 else if b < a then 1 else memcmp as bs)"
| "memcmp _ _ = 0"

definition sdscmp :: "sds \<Rightarrow> sds \<Rightarrow> int option" where
  "sdscmp s1 s2 =
     (let l1 = sdslen s1; l2 = sdslen s2; minlen = (if l1 < l2 then l1 else l2) in
      do { b1 \<leftarrow> mem_read (sh_buf s1) 0 minlen;
           b2 \<leftarrow> mem_read (sh_buf s2) 0 minlen;
           let cmp = memcmp b1 b2;
           Some (if cmp = 0 then (if l1 > l2 then 1 else if l1 < l2 then - 1 else 0) else cmp) })"

section \<open>Invariant\<close>

text \<open>The string that an sds stands for, and the invariant of the representation: the fields fit the type and the
  allocation, and a zero follows the string.\<close>

definition sds_str :: "sds \<Rightarrow> bytes" where
  "sds_str s = take (sh_len s) (sh_buf s)"

definition sds_wf :: "sds \<Rightarrow> bool" where
  "sds_wf s \<longleftrightarrow> sh_type s \<le> 4 \<and> sh_len s < 2 ^ sds_bits (sh_type s) \<and> sh_len s < length (sh_buf s) \<and>
     (sh_type s \<noteq> 0 \<longrightarrow>
        sh_len s \<le> sh_alloc s \<and> sh_alloc s < 2 ^ sds_bits (sh_type s) \<and> length (sh_buf s) = sh_alloc s + 1)"

definition sds_ok :: "sds \<Rightarrow> bool" where
  "sds_ok s \<longleftrightarrow> sds_wf s \<and> sh_buf s ! sh_len s = 0"

lemma sds_ok_wf: "sds_ok s \<Longrightarrow> sds_wf s"
  by (simp add: sds_ok_def)

lemma sds_wf_alloc:
  assumes "sds_wf s"
  shows "sh_len s \<le> sdsalloc s" "sdsalloc s < length (sh_buf s)" "sdsalloc s < 2 ^ sds_bits (sh_type s)"
    "sdsalloc s < 2 ^ 64" "sdsavail s = sdsalloc s - sh_len s"
proof -
  have b: "sds_bits (sh_type s) \<le> 64" by (simp add: sds_bits_def)
  show a: "sh_len s \<le> sdsalloc s" "sdsalloc s < length (sh_buf s)" "sdsalloc s < 2 ^ sds_bits (sh_type s)"
    using assms by (auto simp: sds_ok_def sds_wf_def sdsalloc_def)
  then show l: "sdsalloc s < 2 ^ 64" using b by (meson less_le_trans one_le_numeral power_increasing)
  show "sdsavail s = sdsalloc s - sh_len s"
  proof (cases "sh_type s = 3")
    case True
    then have "sh_alloc s < 2 ^ 32" using assms by (simp add: sds_ok_def sds_wf_def sds_bits_def)
    then show ?thesis using True a(1) by (simp add: sdsavail_def sdsalloc_def u32_sub_id)
  next
    case False
    then show ?thesis using a(1) l by (auto simp: sdsavail_def sdsalloc_def u64_sub_id)
  qed
qed

lemmas sds_ok_alloc = sds_wf_alloc [OF sds_ok_wf]

lemma length_sds_str: "sds_ok s \<Longrightarrow> length (sds_str s) = sdslen s"
  by (simp add: sds_str_def sds_ok_def sds_wf_def sdslen_def)

lemma sdssetlen_simps [simp]:
  "sh_type (sdssetlen s n) = sh_type s" "sh_buf (sdssetlen s n) = sh_buf s" "sh_alloc (sdssetlen s n) = sh_alloc s"
  by (simp_all add: sdssetlen_def)

text \<open>A new content that fits: the way most operations end.\<close>

lemma sds_store:
  assumes "sds_ok s" and "n \<le> sdsalloc s" and "length buf = length (sh_buf s)" and "take n buf = bs"
    and "buf ! n = 0"
  shows "sds_ok (sdssetlen (s\<lparr>sh_buf := buf\<rparr>) n) \<and> sds_str (sdssetlen (s\<lparr>sh_buf := buf\<rparr>) n) = bs \<and>
    sh_type (sdssetlen (s\<lparr>sh_buf := buf\<rparr>) n) = sh_type s"
proof -
  have "n mod 2 ^ sds_bits (sh_type s) = n"
    using sds_ok_alloc(3) [OF assms(1)] assms(2) by simp
  then show ?thesis
    using assms sds_ok_alloc(2) [OF assms(1)]
    by (auto simp: sds_ok_def sds_wf_def sds_str_def sdssetlen_def sdsalloc_def split: if_splits)
qed

lemma sds_put_in: "i < length (sh_buf s) \<Longrightarrow> sds_put s i c = Some (s\<lparr>sh_buf := (sh_buf s)[i := c]\<rparr>)"
  by (simp add: sds_put_def mem_simps)

lemma sds_room_in:
  "hdrlen + n + 1 < 2 ^ 64 \<Longrightarrow> sds_room hdrlen n = Some (n + 1)"
  by (simp add: sds_room_def u64_id Let_def)

lemma sdsReqType_fits: "n < 2 ^ 64 \<Longrightarrow> n < 2 ^ sds_bits (sdsReqType n)" "sdsReqType n \<le> 4"
  by (auto simp: sdsReqType_def sds_bits_def)

lemma sdsHdrSize_le: "sdsHdrSize t \<le> 17"
  by (simp add: sdsHdrSize_def)

section \<open>Creating and growing\<close>

lemma sdsnewlen_correct:
  assumes "n \<le> length p" and "n + 18 < 2 ^ 64"
  shows "\<exists>s. sdsnewlen junk (Init p) n = Some s \<and> sds_ok s \<and> sds_str s = take n p"
proof -
  define t where "t = (if sdsReqType n = 0 \<and> n = 0 then 1 else sdsReqType n)"
  let ?b = "(take n p @ drop n (fresh_block junk (n + 1)))[n := 0]"
  have room: "sds_room (sdsHdrSize t) n = Some (n + 1)"
    using sds_room_in [of "sdsHdrSize t" n] sdsHdrSize_le [of t] assms(2) by simp
  have fit: "n < 2 ^ sds_bits t" "t \<le> 4"
    using sdsReqType_fits [of n] assms(2) by (auto simp: t_def sds_bits_def)
  have "sdsnewlen junk (Init p) n = Some (sdssetalloc (sdssetlen \<lparr>sh_type = t, sh_len = 0, sh_alloc = 0, sh_buf = ?b\<rparr> n) n)"
    using assms(1) room fit
    by (cases "t = 0") (simp_all add: sdsnewlen_def mem_simps Let_def sdssetalloc_def sdssetlen_def flip: t_def)
  moreover have "take n ?b = take n p" "?b ! n = 0" "length ?b = n + 1" using assms(1) by simp_all
  ultimately show ?thesis
    using fit by (cases "t = 0") (simp_all add: sds_ok_def sds_wf_def sds_str_def sdssetalloc_def sdssetlen_def)
qed

lemma sdsempty_correct: "\<exists>s. sdsempty junk = Some s \<and> sds_ok s \<and> sds_str s = []"
  using sdsnewlen_correct [of 0 "[0]" junk] by (simp add: sdsempty_def)

definition grown :: "sds \<Rightarrow> nat \<Rightarrow> sds \<Rightarrow> bool" where
  "grown s addlen s' \<longleftrightarrow> sds_wf s' \<and> sds_str s' = sds_str s \<and> sh_len s' = sh_len s \<and>
     sh_buf s' ! sh_len s = sh_buf s ! sh_len s \<and> sh_len s + addlen \<le> sdsalloc s'"


text \<open>The new length that \<open>sdsMakeRoomFor\<close> asks for.\<close>

lemma prealloc_bounds:
  assumes "m + 2 ^ 20 + 18 < 2 ^ 64"
  shows "m \<le> (if m < SDS_MAX_PREALLOC then u64 (m * 2) else u64 (m + SDS_MAX_PREALLOC))"
    and "(if m < SDS_MAX_PREALLOC then u64 (m * 2) else u64 (m + SDS_MAX_PREALLOC)) \<le> m + 2 ^ 20"
  using assms by (auto simp: SDS_MAX_PREALLOC_def u64_def)

lemma sdsMakeRoomFor_wf:
  assumes ok: "sds_wf s" and sz: "sdslen s + addlen + 2 ^ 20 + 18 < 2 ^ 64"
  shows "\<exists>s'. sdsMakeRoomFor junk s addlen = Some s' \<and> grown s addlen s'"
proof (cases "sdsavail s \<ge> addlen")
  case True
  then show ?thesis
    using ok sds_wf_alloc [OF ok] by (auto simp: sdsMakeRoomFor_def grown_def)
next
  case False
  let ?m = "sh_len s + addlen"
  define n where "n = (if ?m < SDS_MAX_PREALLOC then u64 (?m * 2) else u64 (?m + SDS_MAX_PREALLOC))"
  define t where "t = (if sdsReqType n = 0 then 1 else sdsReqType n)"
  have m: "?m + 2 ^ 20 + 18 < 2 ^ 64" using sz by (simp add: sdslen_def)
  then have um: "u64 ?m = ?m" by (intro u64_id) simp
  have n: "?m \<le> n" "n \<le> ?m + 2 ^ 20" using prealloc_bounds [OF m] unfolding n_def by blast+
  then have n64: "n + 18 < 2 ^ 64" using m by linarith
  have room: "sds_room (sdsHdrSize t) n = Some (n + 1)"
    using sds_room_in [of "sdsHdrSize t" n] sdsHdrSize_le [of t] n64 by linarith
  have fit: "n < 2 ^ sds_bits t" "t \<le> 4" "t \<noteq> 0"
    using sdsReqType_fits [of n] n64 by (auto simp: t_def sds_bits_def split: if_splits)
  have len: "sh_len s < length (sh_buf s)" "sh_len s \<le> n"
    using ok n by (auto simp: sds_ok_def sds_wf_def)
  define b where "b = (if sh_type s = t then resize_block junk (sh_buf s) (n + 1)
    else take (sh_len s + 1) (sh_buf s) @ drop (sh_len s + 1) (fresh_block junk (n + 1)))"
  have b: "length b = n + 1" "take (sh_len s + 1) b = take (sh_len s + 1) (sh_buf s)"
    using len by (simp_all add: b_def take_resize_block)
  have b2: "take (sh_len s) b = take (sh_len s) (sh_buf s)"
    using arg_cong [OF b(2), of "take (sh_len s)"] by (simp add: min_def)
  have b3: "b ! sh_len s = sh_buf s ! sh_len s"
    using arg_cong [OF b(2), of "\<lambda>x. x ! sh_len s"] len by simp
  let ?s' = "\<lparr>sh_type = t, sh_len = sh_len s, sh_alloc = n, sh_buf = b\<rparr>"
  have lt: "sh_len s mod 2 ^ sds_bits t = sh_len s" using len(2) fit(1) by simp
  have "sdsMakeRoomFor junk s addlen = Some ?s'"
    unfolding sdsMakeRoomFor_def Let_def sdslen_def um n_def [symmetric] t_def [symmetric]
    using False len(1,2) fit lt room by (simp add: mem_simps sdssetalloc_def sdssetlen_def b_def)
  moreover have "grown s addlen ?s'"
    using fit len n b(1) b2 b3 by (simp add: grown_def sds_ok_def sds_wf_def sds_str_def sdsalloc_def)
  ultimately show ?thesis by blast
qed

lemma sdsMakeRoomFor_grown:
  assumes "sds_ok s" and "sdslen s + addlen + 2 ^ 20 + 18 < 2 ^ 64"
  shows "\<exists>s'. sdsMakeRoomFor junk s addlen = Some s' \<and> sds_ok s' \<and> grown s addlen s'"
  using sdsMakeRoomFor_wf [OF sds_ok_wf [OF assms(1)] assms(2), of junk] assms(1)
  by (auto simp: grown_def sds_ok_def)

section \<open>The operations on strings\<close>

lemma buf_split: "sds_ok s \<Longrightarrow> take (sh_len s) (sh_buf s) = sds_str s"
  by (simp add: sds_str_def)

lemma sdscatlen_correct:
  assumes ok: "sds_ok s" and t: "n \<le> length t" and sz: "sdslen s + n + 2 ^ 20 + 18 < 2 ^ 64"
  shows "\<exists>s'. sdscatlen junk s t n = Some s' \<and> sds_ok s' \<and> sds_str s' = sds_str s @ take n t"
proof -
  obtain s1 where s1: "sdsMakeRoomFor junk s n = Some s1" "grown s n s1" "sds_ok s1"
    using sdsMakeRoomFor_grown [OF ok sz] by blast
  let ?l = "sh_len s"
  have g: "sds_ok s1" "sds_str s1 = sds_str s" "sh_len s1 = ?l" "?l + n \<le> sdsalloc s1"
    using s1(2,3) by (auto simp: grown_def)
  note a = sds_ok_alloc [OF g(1)]
  have u: "u64 (?l + n) = ?l + n" using sz by (intro u64_id) (simp add: sdslen_def)
  have lb: "?l + n < length (sh_buf s1)" using g(4) a(2) by linarith
  let ?b = "take ?l (sh_buf s1) @ take n t @ drop (?l + n) (sh_buf s1)"
  have "sds_str s @ take n t = take (?l + n) (?b[?l + n := 0])"
    using lb t g(2,3) ok by (simp add: sds_str_def sds_ok_def sds_wf_def)
  moreover have "sdscatlen junk s t n = Some (sdssetlen (s1\<lparr>sh_buf := ?b[?l + n := 0]\<rparr>) (?l + n))"
    using s1 lb t by (simp add: sdscatlen_def Let_def sdslen_def u mem_simps sds_put_in sdssetlen_def min_def)
  moreover have "length (?b[?l + n := 0]) = length (sh_buf s1)" "?b[?l + n := 0] ! (?l + n) = 0"
    using lb t by auto
  ultimately show ?thesis using sds_store [OF g(1,4)] by auto
qed

lemma strlen_correct: "strlen m = Some n \<longleftrightarrow> n < length m \<and> m ! n = 0 \<and> (\<forall>i < n. m ! i \<noteq> 0)"
proof (induction m arbitrary: n)
  case (Cons b m)
  show ?case by (cases n) (auto simp: Cons.IH less_Suc_eq_0_disj nth_Cons split: nat.splits)
qed simp

lemma strlen_append: "0 \<notin> set cs \<Longrightarrow> strlen (cs @ 0 # m) = Some (length cs)"
  by (induction cs) auto

lemma sdsgrowzero_correct:
  assumes ok: "sds_ok s" and sz: "n + 2 ^ 20 + 18 < 2 ^ 64"
  shows "\<exists>s'. sdsgrowzero junk s n = Some s' \<and> sds_ok s' \<and>
    sds_str s' = sds_str s @ replicate (n - sdslen s) 0"
proof (cases "n \<le> sdslen s")
  case True
  then show ?thesis using ok by (simp add: sdsgrowzero_def)
next
  case False
  let ?l = "sh_len s"
  obtain s1 where s1: "sdsMakeRoomFor junk s (n - ?l) = Some s1" "grown s (n - ?l) s1" "sds_ok s1"
    using sdsMakeRoomFor_grown [OF ok, of "n - ?l" junk] sz False by (auto simp: sdslen_def)
  have g: "sds_ok s1" "sds_str s1 = sds_str s" "sh_len s1 = ?l" "n \<le> sdsalloc s1"
    using s1(2,3) False by (auto simp: grown_def sdslen_def)
  have lb: "n < length (sh_buf s1)" "?l < n" using g(4) sds_ok_alloc(2) [OF g(1)] False by (auto simp: sdslen_def)
  let ?b = "take ?l (sh_buf s1) @ replicate (n - ?l + 1) 0 @ drop (n + 1) (sh_buf s1)"
  have "sdsgrowzero junk s n = Some (sdssetlen (s1\<lparr>sh_buf := ?b\<rparr>) n)"
    using s1(1) lb False by (simp add: sdsgrowzero_def sdslen_def mem_simps Let_def)
  moreover have "length ?b = length (sh_buf s1)" "?b ! n = 0" "take n ?b = sds_str s @ replicate (n - sdslen s) 0"
    using lb g(2,3) ok by (simp_all add: nth_append sds_str_def sds_ok_def sds_wf_def sdslen_def min_def del: replicate_Suc)
  ultimately show ?thesis using sds_store [OF g(1,4)] by auto
qed

lemma sdscpylen_correct:
  assumes ok: "sds_ok s" and t: "n \<le> length t" and sz: "n + 2 ^ 20 + 18 < 2 ^ 64"
  shows "\<exists>s'. sdscpylen junk s t n = Some s' \<and> sds_ok s' \<and> sds_str s' = take n t"
proof -
  have "\<exists>s1. (if sdsalloc s < n then sdsMakeRoomFor junk s (u64_sub n (sdslen s)) else Some s) = Some s1 \<and>
      sds_ok s1 \<and> n \<le> sdsalloc s1"
  proof (cases "sdsalloc s < n")
    case True
    then have l: "sdslen s \<le> n" using sds_ok_alloc(1) [OF ok] by (simp add: sdslen_def)
    then have u: "u64_sub n (sdslen s) = n - sdslen s" using sz by (intro u64_sub_id) simp_all
    have "sdslen s + (n - sdslen s) + 2 ^ 20 + 18 < 2 ^ 64" using l sz by simp
    from sdsMakeRoomFor_grown [OF ok this, of junk] show ?thesis
      using True l by (auto simp: u [unfolded sdslen_def] grown_def sdslen_def)
  qed (use ok in auto)
  then obtain s1 where s1: "(if sdsalloc s < n then sdsMakeRoomFor junk s (u64_sub n (sdslen s)) else Some s) = Some s1"
      "sds_ok s1" "n \<le> sdsalloc s1" by blast
  have lb: "n < length (sh_buf s1)" using s1(3) sds_ok_alloc(2) [OF s1(2)] by linarith
  let ?b = "(take n t @ drop n (sh_buf s1))[n := 0]"
  have "sdscpylen junk s t n = Some (sdssetlen (s1\<lparr>sh_buf := ?b\<rparr>) n)"
    using s1(1) lb t by (simp add: sdscpylen_def mem_simps sds_put_in)
  moreover have "length ?b = length (sh_buf s1)" "?b ! n = 0" "take n ?b = take n t"
    using lb t by simp_all
  ultimately show ?thesis using sds_store [OF s1(2,3)] by auto
qed

lemma sdsclear_correct:
  assumes ok: "sds_ok s"
  shows "\<exists>s'. sdsclear s = Some s' \<and> sds_ok s' \<and> sds_str s' = []"
proof -
  have "0 < length (sh_buf s)" using sds_ok_alloc(2) [OF ok] by linarith
  moreover from this have "sdsclear s = Some (sdssetlen (s\<lparr>sh_buf := (sh_buf s)[0 := 0]\<rparr>) 0)"
    by (simp add: sdsclear_def sds_put_in sdssetlen_def)
  ultimately show ?thesis using sds_store [OF ok, of 0 "(sh_buf s)[0 := 0]" "[]"] by auto
qed

lemma sdsdup_correct:
  assumes "sds_ok s" and "sdslen s + 18 < 2 ^ 64"
  shows "\<exists>s'. sdsdup junk s = Some s' \<and> sds_ok s' \<and> sds_str s' = sds_str s"
  using sdsnewlen_correct [of "sdslen s" "sh_buf s" junk] assms
  by (auto simp: sdsdup_def sds_ok_def sds_wf_def sdslen_def sds_str_def)

lemma sdsRemoveFreeSpace_correct:
  assumes ok: "sds_ok s" and sz: "sdslen s + 18 < 2 ^ 64"
  shows "\<exists>s'. sdsRemoveFreeSpace junk s = Some s' \<and> sds_ok s' \<and> sds_str s' = sds_str s \<and> sdsavail s' = 0"
proof (cases "sdsavail s = 0")
  case True
  then show ?thesis using ok by (simp add: sdsRemoveFreeSpace_def Let_def)
next
  case False
  let ?l = "sh_len s"
  have t: "sh_type s \<noteq> 0" using False by (auto simp: sdsavail_def split: if_splits)
  have l: "?l < length (sh_buf s)" "sh_buf s ! ?l = 0" "?l < 2 ^ sds_bits (sh_type s)" using ok by (auto simp: sds_ok_def sds_wf_def)
  have room: "sds_room (sdsHdrSize x) ?l = Some (?l + 1)" for x
    using sds_room_in [of "sdsHdrSize x" ?l] sdsHdrSize_le [of x] sz by (simp add: sdslen_def)
  have fit: "?l < 2 ^ sds_bits (sdsReqType ?l)" "sdsReqType ?l \<le> 4"
    using sdsReqType_fits [of ?l] sz by (simp_all add: sdslen_def)
  have rb: "take (?l + 1) (resize_block junk (sh_buf s) (?l + 1)) = take (?l + 1) (sh_buf s)"
    using l(1) by (intro take_resize_block) simp_all
  then have rb: "resize_block junk (sh_buf s) (?l + 1) = take (?l + 1) (sh_buf s)" by simp
  show ?thesis
  proof (cases "sh_type s = sdsReqType ?l \<or> sdsReqType ?l > 1")
    case True
    then have "sdsRemoveFreeSpace junk s = Some (s\<lparr>sh_buf := take (?l + 1) (sh_buf s), sh_alloc := ?l\<rparr>)"
      using False t l(3) rb room
      by (auto simp: sdsRemoveFreeSpace_def Let_def sdslen_def sdssetalloc_def)
    moreover have "sds_ok (s\<lparr>sh_buf := take (?l + 1) (sh_buf s), sh_alloc := ?l\<rparr>)"
      using ok l t by (simp add: sds_ok_def sds_wf_def)
    ultimately show ?thesis
      using sds_ok_alloc(5) by (fastforce simp: sds_str_def sdsalloc_def)
  next
    case nt: False
    let ?a = "if sdsReqType ?l = 0 then 0 else ?l"
    let ?s' = "\<lparr>sh_type = sdsReqType ?l, sh_len = ?l, sh_alloc = ?a, sh_buf = take (?l + 1) (sh_buf s)\<rparr>"
    have fit': "?l mod 2 ^ sds_bits (sdsReqType ?l) = ?l" using fit by simp
    have "sdsRemoveFreeSpace junk s = Some ?s'"
      using False nt t l fit' room
      by (simp add: sdsRemoveFreeSpace_def Let_def sdslen_def sdssetalloc_def sdssetlen_def mem_simps)
    moreover have "sds_ok ?s'" using fit l by (simp add: sds_ok_def sds_wf_def)
    ultimately show ?thesis using sds_ok_alloc(5) [of ?s'] by (simp add: sds_str_def sdsalloc_def)
  qed
qed

text \<open>\<open>sdsIncrLen\<close> after bytes were written behind the string, and to cut bytes off its end.\<close>

lemma sdsIncrLen_correct:
  assumes wf: "sds_wf s" and t: "sh_type s \<noteq> 0" and i: "int (sh_len s) + incr = int n" and n: "n \<le> sdsalloc s"
    and b: "\<bar>incr\<bar> < 2 ^ 31 \<or> sh_type s = 4"
  shows "\<exists>s'. sdsIncrLen s incr = Some s' \<and> sds_ok s' \<and> sds_str s' = take n (sh_buf s)"
proof -
  note a = sds_wf_alloc [OF wf]
  have ty: "sh_type s = 1 \<or> sh_type s = 2 \<or> sh_type s = 3 \<or> sh_type s = 4" using wf t by (auto simp: sds_wf_def)
  have al: "sh_alloc s = sdsalloc s" "int (sdsalloc s) - int (sh_len s) \<ge> incr" "0 \<le> int (sdsalloc s) - int (sh_len s)"
    using t i n a(1) by (auto simp: sdsalloc_def)
  have m32: "x mod 2 ^ 32 = x" if "0 \<le> x" "x < 2 ^ 32" for x :: int using that by simp
  have m64: "x mod 2 ^ 64 = x" if "0 \<le> x" "x < 2 ^ 64" for x :: int using that by simp
  have a64: "int (sdsalloc s) < 2 ^ 64" using a(4) by (simp only: of_nat_less_numeral_power_cancel_iff)
  have a32: "sh_type s = 3 \<Longrightarrow> int (sdsalloc s) < 2 ^ 32" using a(3) by (simp add: sds_bits_def)
  have "sds_incr_ok s incr"
    using ty
  proof (elim disjE)
    assume "sh_type s = 3"
    then show ?thesis using a32 al i a(1) b m32 [of incr] m32 [of "- incr"] m32 [of "int (sdsalloc s) - int (sh_len s)"]
      by (cases "incr \<ge> 0") (auto simp: sds_incr_ok_def Let_def)
  next
    assume "sh_type s = 4"
    then show ?thesis using a64 al i a(1) m64 [of "- incr"] m64 [of "int (sdsalloc s) - int (sh_len s)"]
      by (cases "incr \<ge> 0") (auto simp: sds_incr_ok_def Let_def)
  qed (use al i b m32 [of "- incr"] in \<open>cases "incr \<ge> 0"; auto simp: sds_incr_ok_def Let_def\<close>)+
  moreover have n': "n < 2 ^ sds_bits (sh_type s)" "n < length (sh_buf s)" using n a(2,3) by linarith+
  moreover have "nat (int n mod 2 ^ sds_bits (sh_type s)) = n"
    using n'(1) by (simp add: nat_mod_distrib nat_power_eq)
  ultimately have "sdsIncrLen s incr = Some (s\<lparr>sh_len := n, sh_buf := (sh_buf s)[n := 0]\<rparr>)"
    using t i by (simp add: sdsIncrLen_def Let_def sds_put_in)
  then show ?thesis
    using wf t n n' al(1) by (auto simp: sds_ok_def sds_wf_def sds_str_def)
qed

lemma take_move_update:
  assumes "a + n < length b"
  shows "take n ((take n (drop a b) @ drop n b)[n := 0]) = take n (drop a b)"
    and "((take n (drop a b) @ drop n b)[n := 0]) ! n = (0 :: byte)"
    and "length ((take n (drop a b) @ drop n b)[n := 0]) = length b"
  using assms by simp_all

text \<open>Moving a part of the string to its start, and terminating it there.\<close>

lemma sds_keep_part:
  assumes ok: "sds_ok s" and le: "a + n \<le> sdslen s"
    and b: "b = (take n (drop a (sh_buf s)) @ drop n (sh_buf s))[n := 0]"
  shows "sds_ok (sdssetlen (s\<lparr>sh_buf := b\<rparr>) n) \<and> sds_str (sdssetlen (s\<lparr>sh_buf := b\<rparr>) n) = take n (drop a (sds_str s))"
proof -
  have l: "a + n < length (sh_buf s)" "n \<le> sdsalloc s"
    using sds_ok_alloc [OF ok] le ok by (auto simp: sdslen_def sds_ok_def sds_wf_def)
  have "take n (drop a (sh_buf s)) = take n (drop a (sds_str s))"
    using le by (simp add: sds_str_def sdslen_def drop_take min_def)
  then show ?thesis using sds_store [OF ok l(2)] take_move_update [OF l(1)] b by metis
qed

section \<open>Ranges\<close>

definition range_bound :: "nat \<Rightarrow> int \<Rightarrow> nat" where
  "range_bound n i = nat (if i < 0 then int n + i else i)"

definition sub_range :: "bytes \<Rightarrow> int \<Rightarrow> int \<Rightarrow> bytes" where
  "sub_range bs start e =
     (let a = range_bound (length bs) start; b = range_bound (length bs) e in take (b + 1 - a) (drop a bs))"

lemma sdsrange_eq:
  assumes ok: "sds_ok s" and len: "sdslen s < 2 ^ 63" and st: "int64_range start" "int64_range e"
    and n0: "sdslen s \<noteq> 0"
  defines "a \<equiv> range_bound (sdslen s) start" and "b \<equiv> range_bound (sdslen s) e"
  defines "n \<equiv> min (b + 1) (sdslen s) - a"
  shows "sdsrange s start e =
    (do { buf \<leftarrow> (if a \<noteq> 0 \<and> n \<noteq> 0 then mem_move (sh_buf s) 0 a n else Some (sh_buf s));
          s \<leftarrow> sds_put (s\<lparr>sh_buf := buf\<rparr>) n 0;
          Some (sdssetlen s n) })"
proof -
  let ?l = "int (sdslen s)"
  have l: "s64 ?l = ?l" "s64 (?l - 1) = ?l - 1"
    using len n0 by (auto intro!: s64_id simp: int64_range_def)
  have x: "(if i < 0 then s64 (?l + i) else i) = (if i < 0 then ?l + i else i)" if "int64_range i" for i
    using that len by (auto intro!: s64_id simp: int64_range_def)
  have ab: "(let start' = (if start < 0 then s64 (?l + start) else start) in if start' < 0 then 0 else start') = int a"
     "(let e' = (if e < 0 then s64 (?l + e) else e) in if e' < 0 then 0 else e') = int b"
    using x st by (auto simp: a_def b_def range_bound_def Let_def)
  have b63: "a < 2 ^ 63" "b < 2 ^ 63" using len st by (auto simp: a_def b_def range_bound_def int64_range_def)
  let ?nl = "if int a > int b then 0 else nat ((int b - int a + 1) mod 2 ^ 64)"
  have nl: "?nl = b + 1 - a" using b63 by (auto simp: nat_eq_iff)
  have nl2: "(if int a > ?l - 1 then 0 else nat ((?l - 1 - int a + 1) mod 2 ^ 64)) = sdslen s - a"
    using b63 len by (auto simp: nat_eq_iff)
  have pick: "(if ?nl \<noteq> 0 then if int a \<ge> ?l then (int a, 0) else if int b \<ge> ?l then (int a, sdslen s - a) else (int a, ?nl)
      else (0, ?nl)) = (if b + 1 - a \<noteq> 0 then int a else 0, n)"
    unfolding nl by (auto simp: n_def)
  have z: "b + 1 - a = 0 \<Longrightarrow> n = 0" by (simp add: n_def)
  show ?thesis
    unfolding sdsrange_def Let_def ab [unfolded Let_def] l nl2 pick
    using n0 z by (auto simp del: One_nat_def)
qed

lemma sdsrange_correct:
  assumes ok: "sds_ok s" and len: "sdslen s < 2 ^ 63" and st: "int64_range start" "int64_range e"
  shows "\<exists>s'. sdsrange s start e = Some s' \<and> sds_ok s' \<and> sds_str s' = sub_range (sds_str s) start e"
proof (cases "sdslen s = 0")
  case True
  then show ?thesis
    using ok length_sds_str [OF ok] by (simp add: sdsrange_def sub_range_def)
next
  case False
  define a where "a = range_bound (sdslen s) start"
  define n where "n = min (range_bound (sdslen s) e + 1) (sdslen s) - a"
  define a' where "a' = (if n = 0 then 0 else a)"
  have l: "a' + n \<le> sdslen s" by (auto simp: a'_def n_def)
  then have lb: "a' + n < length (sh_buf s)" using ok by (simp add: sds_ok_def sds_wf_def sdslen_def)
  let ?b = "(take n (drop a' (sh_buf s)) @ drop n (sh_buf s))[n := 0]"
  have "sdsrange s start e = Some (sdssetlen (s\<lparr>sh_buf := ?b\<rparr>) n)"
    unfolding sdsrange_eq [OF ok len st False] a_def [symmetric] n_def [symmetric]
    using lb by (auto simp: a'_def mem_simps sds_put_in)
  moreover have "take n (drop a' (sds_str s)) = sub_range (sds_str s) start e"
    using length_sds_str [OF ok]
    by (auto simp: sub_range_def Let_def a'_def n_def a_def min_def)
  ultimately show ?thesis using sds_keep_part [OF ok l refl] by simp
qed

section \<open>Trimming\<close>

definition trimmed :: "bytes \<Rightarrow> byte \<Rightarrow> bool" where
  "trimmed cs c \<longleftrightarrow> c = 0 \<or> c \<in> set cs"

lemma strchr_correct: "0 \<notin> set cs \<Longrightarrow> strchr (cs @ 0 # m) c = Some (trimmed cs c)"
  by (induction cs) (auto simp: trimmed_def)

definition strip :: "(byte \<Rightarrow> bool) \<Rightarrow> bytes \<Rightarrow> bytes" where
  "strip P bs = rev (dropWhile P (rev (dropWhile P bs)))"

lemma trim_left_correct:
  assumes P: "\<And>c. strchr cset c = Some (P c)" and "i \<le> n" and "n \<le> length buf"
  shows "trim_left buf cset (int i) (int n - 1) = Some (int (i + length (takeWhile P (drop i (take n buf)))))"
  using assms(2,3)
proof (induction "n - i" arbitrary: i)
  case 0
  then show ?case by (subst trim_left.simps) simp
next
  case (Suc k)
  then have l: "i < n" by simp
  then have d: "drop i (take n buf) = buf ! i # drop (Suc i) (take n buf)"
    using Suc.prems by (simp add: Cons_nth_drop_Suc [symmetric])
  have "trim_left buf cset (int i) (int n - 1) =
      (if P (buf ! i) then trim_left buf cset (int (Suc i)) (int n - 1) else Some (int i))"
    using l Suc.prems P by (subst trim_left.simps) (simp add: mem_simps add.commute)
  then show ?case using Suc.hyps(1) [of "Suc i"] Suc.hyps(2) Suc.prems l d by simp
qed

text \<open>The right end never passes the left one: what follows the first kept byte is trimmed.\<close>

lemma trim_right_correct:
  assumes P: "\<And>c. strchr cset c = Some (P c)" and "i \<le> j" and "j < length buf"
  shows "trim_right buf cset (int i) (int j) =
    Some (int (i + length (dropWhile P (rev (take (j - i) (drop (Suc i) buf))))))"
  using assms(2,3)
proof (induction "j - i" arbitrary: j)
  case 0
  then show ?case by (subst trim_right.simps) simp
next
  case (Suc k)
  then obtain j' where j: "j = Suc j'" "i \<le> j'" by (cases j) auto
  have "take (j - i) (drop (Suc i) buf) = take (j' - i) (drop (Suc i) buf) @ [buf ! j]"
    using j Suc.prems by (simp add: Suc_diff_le take_Suc_conv_app_nth)
  moreover have "trim_right buf cset (int i) (int j) =
      (if P (buf ! j) then trim_right buf cset (int i) (int j') else Some (int j))"
    using j Suc.prems P by (subst trim_right.simps) (simp add: mem_simps nat_add_distrib)
  moreover have "length (take (j' - i) (drop (Suc i) buf)) = j' - i" using j Suc.prems by simp
  ultimately show ?case using Suc.hyps(1) [of j'] Suc.hyps(2) Suc.prems j by simp
qed

lemma sdstrim_correct:
  assumes ok: "sds_ok s" and cs: "0 \<notin> set cs"
  shows "\<exists>s'. sdstrim s (cs @ 0 # m) = Some s' \<and> sds_ok s' \<and> sds_str s' = strip (trimmed cs) (sds_str s)"
proof -
  let ?P = "trimmed cs" and ?n = "sdslen s"
  define i where "i = length (takeWhile ?P (sds_str s))"
  have lb: "?n < length (sh_buf s)" using ok by (simp add: sds_ok_def sds_wf_def sdslen_def)
  have len: "length (sds_str s) = ?n" using length_sds_str [OF ok] .
  have i: "i \<le> ?n" using length_takeWhile_le [of ?P "sds_str s"] len by (simp add: i_def)
  have str: "sds_str s = take ?n (sh_buf s)" by (simp add: sds_str_def sdslen_def)
  have L: "trim_left (sh_buf s) (cs @ 0 # m) 0 (int ?n - 1) = Some (int i)"
    using trim_left_correct [OF strchr_correct [OF cs], of 0 ?n "sh_buf s"] lb by (simp add: i_def str)
  have dw: "dropWhile ?P (sds_str s) = drop i (sds_str s)" by (simp add: i_def dropWhile_eq_drop)
  have "\<exists>k. i + k \<le> ?n \<and> take k (drop i (sds_str s)) = strip ?P (sds_str s) \<and>
      (\<exists>ep. trim_right (sh_buf s) (cs @ 0 # m) (int i) (int ?n - 1) = Some ep \<and>
        (if int i > ep then 0 else nat (ep - int i + 1)) = k)"
  proof (cases "i = ?n")
    case True
    then have "strip ?P (sds_str s) = []" using len by (simp add: strip_def dw)
    then show ?thesis using True by (subst trim_right.simps) simp
  next
    case False
    define seg where "seg = drop (Suc i) (sds_str s)"
    have d: "drop i (sds_str s) = sds_str s ! i # seg" and ni: "\<not> ?P (sds_str s ! i)"
      using False i len nth_length_takeWhile [of ?P "sds_str s"] by (auto simp: seg_def i_def Cons_nth_drop_Suc)
    have seg: "seg = take (?n - 1 - i) (drop (Suc i) (sh_buf s))"
      using str by (simp add: seg_def drop_take)
    have j: "i \<le> ?n - 1" "int ?n - 1 = int (?n - 1)" using False i by auto
    have R: "trim_right (sh_buf s) (cs @ 0 # m) (int i) (int ?n - 1) = Some (int (i + length (dropWhile ?P (rev seg))))"
      unfolding j(2) seg using trim_right_correct [OF strchr_correct [OF cs] j(1)] lb by simp
    have "strip ?P (sds_str s) = sds_str s ! i # rev (dropWhile ?P (rev seg))"
      using ni by (simp add: strip_def dw d dropWhile_append)
    moreover have "rev (dropWhile ?P (rev seg)) = take (length (dropWhile ?P (rev seg))) seg"
      by (metis dropWhile_eq_drop length_dropWhile_le rev_drop rev_rev_ident length_drop length_rev take_rev diff_diff_cancel length_takeWhile_le)
    moreover have "length (dropWhile ?P (rev seg)) \<le> ?n - 1 - i"
      using length_dropWhile_le [of ?P "rev seg"] len by (simp add: seg_def)
    ultimately show ?thesis
      using R d False i by (intro exI [of _ "Suc (length (dropWhile ?P (rev seg)))"]) auto
  qed
  then obtain k ep where k: "i + k \<le> ?n" "take k (drop i (sds_str s)) = strip ?P (sds_str s)"
      "trim_right (sh_buf s) (cs @ 0 # m) (int i) (int ?n - 1) = Some ep"
      "(if int i > ep then 0 else nat (ep - int i + 1)) = k" by blast
  let ?b = "(take k (drop i (sh_buf s)) @ drop k (sh_buf s))[k := 0]"
  have "sdstrim s (cs @ 0 # m) = Some (sdssetlen (s\<lparr>sh_buf := ?b\<rparr>) k)"
    unfolding sdstrim_def Let_def L using k(1,3,4) lb by (auto simp: mem_simps sds_put_in)
  then show ?thesis using sds_keep_part [OF ok k(1) refl] k(2) by simp
qed

section \<open>Mapping the bytes\<close>

lemma sds_map_loop_correct:
  assumes "\<And>c. f c = Some (g c)" and "j \<le> n" and "n \<le> length buf"
  shows "sds_map_loop f buf j n = Some (take j buf @ map g (take (n - j) (drop j buf)) @ drop n buf)"
  using assms(2,3)
proof (induction "n - j" arbitrary: j buf)
  case 0
  then show ?case by (subst sds_map_loop.simps) simp
next
  case (Suc k)
  then have j: "j < n" "j < length buf" "n - j = Suc (n - Suc j)" by simp_all
  have d: "drop j buf = buf ! j # drop (Suc j) buf" using j by (simp add: Cons_nth_drop_Suc)
  have "sds_map_loop f buf j n = sds_map_loop f (buf[j := g (buf ! j)]) (Suc j) n"
    using j assms(1) by (subst sds_map_loop.simps) (simp add: mem_simps)
  then show ?case
    using Suc.hyps(1) [of "Suc j" "buf[j := g (buf ! j)]"] Suc.hyps(2) Suc.prems j
    by (simp add: d j(3) take_Suc_conv_app_nth)
qed

lemma sds_map_correct:
  assumes ok: "sds_ok s" and f: "\<And>c. f c = Some (g c)"
  shows "\<exists>s'. map_option (\<lambda>b. s\<lparr>sh_buf := b\<rparr>) (sds_map_loop f (sh_buf s) 0 (sdslen s)) = Some s' \<and>
    sds_ok s' \<and> sds_str s' = map g (sds_str s)"
proof -
  have l: "sdslen s < length (sh_buf s)" using ok by (simp add: sds_ok_def sds_wf_def sdslen_def)
  let ?b = "map g (take (sdslen s) (sh_buf s)) @ drop (sdslen s) (sh_buf s)"
  have "sds_map_loop f (sh_buf s) 0 (sdslen s) = Some ?b"
    using sds_map_loop_correct [OF f, of 0 "sdslen s" "sh_buf s"] l by simp
  moreover have "sds_ok (s\<lparr>sh_buf := ?b\<rparr>)" using ok l by (auto simp: sds_ok_def sds_wf_def sdslen_def nth_append)
  ultimately show ?thesis using l by (simp add: sds_str_def sdslen_def take_map)
qed

lemma sdstolower_correct:
  assumes "sds_ok s"
  shows "\<exists>s'. sdstolower s = Some s' \<and> sds_ok s' \<and> sds_str s' = map tolower_byte (sds_str s)"
  using sds_map_correct [OF assms, of "Some \<circ> tolower_byte" tolower_byte] by (simp add: sdstolower_def)

lemma sdstoupper_correct:
  assumes "sds_ok s"
  shows "\<exists>s'. sdstoupper s = Some s' \<and> sds_ok s' \<and> sds_str s' = map toupper_byte (sds_str s)"
  using sds_map_correct [OF assms, of "Some \<circ> toupper_byte" toupper_byte] by (simp add: sdstoupper_def)

lemma mapchars_byte_correct:
  assumes "n \<le> length from" and "n \<le> length to"
  shows "mapchars_byte from to i n c =
    Some (case find (\<lambda>k. from ! k = c) [i..<n] of Some k \<Rightarrow> to ! k | None \<Rightarrow> c)"
proof (induction "n - i" arbitrary: i)
  case 0
  then show ?case by (subst mapchars_byte.simps) simp
next
  case (Suc k)
  then have i: "i < n" by simp
  then have "mapchars_byte from to i n c = (if c = from ! i then Some (to ! i) else mapchars_byte from to (Suc i) n c)"
    using assms by (subst mapchars_byte.simps) (simp add: mem_simps)
  then show ?case using Suc.hyps(1) [of "Suc i"] Suc.hyps(2) i by (simp add: upt_conv_Cons)
qed

section \<open>Comparison\<close>

text \<open>\<open>memcmp\<close> on the common length, and then the lengths, decide the lexicographic order of unsigned bytes.\<close>

lemma memcmp_lex:
  defines "cmp xs ys \<equiv> memcmp (take (min (length xs) (length ys)) xs) (take (min (length xs) (length ys)) ys)"
  shows "ord_class.lexordp xs ys \<longleftrightarrow> cmp xs ys < 0 \<or> (cmp xs ys = 0 \<and> length xs < length ys)"
proof (induction xs arbitrary: ys)
  case Nil
  show ?case by (cases ys) (auto simp: cmp_def)
next
  case (Cons x xs)
  show ?case
  proof (cases ys)
    case (Cons y ys')
    then show ?thesis using Cons.IH [of ys'] by (auto simp: cmp_def)
  qed (simp add: cmp_def)
qed

lemma memcmp_sym: "memcmp as bs = - memcmp bs as"
  by (induction as bs rule: memcmp.induct) auto

lemma memcmp_eq: "length as = length bs \<Longrightarrow> memcmp as bs = 0 \<longleftrightarrow> as = bs"
  by (induction rule: list_induct2) auto

lemma sdscmp_eq:
  assumes "sds_ok s1" and "sds_ok s2"
  shows "\<exists>c. sdscmp s1 s2 = Some c \<and> (c < 0 \<longleftrightarrow> ord_class.lexordp (sds_str s1) (sds_str s2)) \<and>
    (c = 0 \<longleftrightarrow> sds_str s1 = sds_str s2) \<and> (0 < c \<longleftrightarrow> ord_class.lexordp (sds_str s2) (sds_str s1))"
proof -
  let ?x = "sds_str s1" and ?y = "sds_str s2"
  let ?m = "min (length ?x) (length ?y)"
  define c where "c = memcmp (take ?m ?x) (take ?m ?y)"
  have l: "length ?x = sdslen s1" "length ?y = sdslen s2" using length_sds_str assms by blast+
  have m: "(if sdslen s1 < sdslen s2 then sdslen s1 else sdslen s2) = ?m" using l by auto
  have t: "take ?m ?x = take ?m (sh_buf s1)" "take ?m ?y = take ?m (sh_buf s2)"
    using l by (simp_all add: sds_str_def sdslen_def min_def)
  have b: "?m \<le> length (sh_buf s1)" "?m \<le> length (sh_buf s2)" using assms l by (auto simp: sds_ok_def sds_wf_def sdslen_def)
  have "sdscmp s1 s2 = Some (if c = 0 then (if length ?x > length ?y then 1 else if length ?x < length ?y then - 1 else 0) else c)"
    unfolding sdscmp_def Let_def m using b by (simp add: mem_simps c_def t l [symmetric])
  moreover have "ord_class.lexordp ?y ?x \<longleftrightarrow> c > 0 \<or> (c = 0 \<and> length ?y < length ?x)"
    using memcmp_lex [of ?y ?x] memcmp_sym [of "take ?m ?y" "take ?m ?x"] by (auto simp: c_def min.commute)
  moreover have "ord_class.lexordp ?x ?y \<longleftrightarrow> c < 0 \<or> (c = 0 \<and> length ?x < length ?y)"
    using memcmp_lex [of ?x ?y] by (simp add: c_def)
  moreover have "?x = ?y \<longleftrightarrow> c = 0 \<and> length ?x = length ?y"
    using memcmp_eq [of "take ?m ?x" "take ?m ?y"] by (auto simp: c_def)
  ultimately show ?thesis by (auto split: if_splits)
qed

section \<open>Numbers\<close>

lemma ll2str_digits_correct:
  assumes "p + length (dec_digits v) \<le> length buf"
  shows "ll2str_digits buf p v =
    Some (take p buf @ rev (dec_digits v) @ drop (p + length (dec_digits v)) buf, p + length (dec_digits v))"
  using assms
proof (induction buf p v rule: ll2str_digits.induct)
  case (1 buf p v)
  have p: "p < length buf" using 1(2) by (cases "dec_digits v") auto
  show ?case
  proof (cases "v < 10")
    case True
    then show ?thesis
      using p by (subst ll2str_digits.simps) (simp add: mem_simps dec_digits_small upd_conv_take_nth_drop)
  next
    case False
    let ?d = "48 + of_nat (v mod 10) :: byte"
    have d: "dec_digits v = dec_digits (v div 10) @ [?d]" using False dec_digits_step [of v] by simp
    have "ll2str_digits (buf[p := ?d]) (p + 1) (v div 10) = Some (take (p + 1) (buf[p := ?d]) @ rev (dec_digits (v div 10)) @
        drop (p + 1 + length (dec_digits (v div 10))) (buf[p := ?d]), p + 1 + length (dec_digits (v div 10)))"
      using 1(1) [of "buf[p := ?d]"] 1(2) p False by (simp add: mem_simps d)
    then show ?thesis
      using p False by (subst ll2str_digits.simps) (simp add: mem_simps d take_Suc_conv_app_nth)
  qed
qed

lemma ll2str_reverse_correct:
  "ms \<noteq> [] \<Longrightarrow> ll2str_reverse (xs @ ms @ ys) (length xs) (length xs + length ms - 1) = Some (xs @ rev ms @ ys)"
proof (induction "length ms" arbitrary: xs ms ys rule: less_induct)
  case less
  obtain a r where ms: "ms = a # r" using less.prems by (cases ms) auto
  show ?case
  proof (cases r rule: rev_cases)
    case Nil
    then show ?thesis by (subst ll2str_reverse.simps) (simp add: ms)
  next
    case (snoc mid b)
    have swap: "ll2str_reverse (xs @ ms @ ys) (length xs) (length xs + length ms - 1) =
        ll2str_reverse ((xs @ [b]) @ mid @ a # ys) (length (xs @ [b])) (length (xs @ [b]) + length mid - 1)"
      by (subst ll2str_reverse.simps) (simp add: ms snoc mem_simps nth_append list_update_append)
    show ?thesis
    proof (cases "mid = []")
      case True
      then show ?thesis unfolding swap by (subst ll2str_reverse.simps) (simp add: ms snoc)
    next
      case False
      then show ?thesis unfolding swap using less.hyps [of mid "xs @ [b]" "a # ys"] by (simp add: ms snoc)
    qed
  qed
qed

lemma sdsull2str_correct:
  assumes "length (dec_digits v) < length buf"
  shows "sdsull2str buf v =
    Some (length (dec_digits v), dec_digits v @ 0 # drop (Suc (length (dec_digits v))) buf)"
proof -
  let ?d = "dec_digits v" and ?r = "drop (Suc (length (dec_digits v))) buf"
  have "drop (length ?d) buf = buf ! length ?d # ?r" using assms by (simp add: Cons_nth_drop_Suc)
  then have "sdsull2str buf v = map_option (\<lambda>s. (length ?d, s)) (ll2str_reverse (rev ?d @ 0 # ?r) 0 (length ?d - 1))"
    using assms
    by (simp add: sdsull2str_def ll2str_digits_correct mem_simps list_update_append map_conv_bind_option comp_def)
  then show ?thesis using ll2str_reverse_correct [of "rev ?d" "[]" "0 # ?r"] by simp
qed

lemma sdsll2str_correct:
  assumes v: "int64_range v" and l: "length (dec_string v) < length buf"
  shows "sdsll2str buf v =
    Some (length (dec_string v), dec_string v @ 0 # drop (Suc (length (dec_string v))) buf)"
proof -
  let ?d = "dec_digits (nat \<bar>v\<bar>)" and ?s = "dec_string v"
  let ?r = "drop (Suc (length ?s)) buf"
  have abs: "(if v < 0 then nat (s64 (- v) mod 2 ^ 64) else nat v) = nat \<bar>v\<bar>"
  proof (cases "v = LLONG_MIN")
    case True
    then show ?thesis by (simp add: s64_def signed_take_bit_def mask_eq_exp_minus_1)
  next
    case False
    then have "v < 0 \<Longrightarrow> s64 (- v) = - v" using v by (intro s64_id) (simp add: int64_range_def)
    then show ?thesis using v by (auto simp: int64_range_def)
  qed
  have s: "?s = (if v < 0 then [45] else []) @ ?d" by (rule dec_string_abs)
  have d: "length ?d \<le> length buf" using l s by (auto split: if_splits)
  have "sdsll2str buf v = map_option (\<lambda>s. (length ?s, s)) (ll2str_reverse (rev ?s @ 0 # ?r) 0 (length ?s - 1))"
  proof (cases "v < 0")
    case True
    have "drop (length ?d) buf = buf ! length ?d # buf ! Suc (length ?d) # ?r"
      using l s True by (simp add: Cons_nth_drop_Suc)
    then show ?thesis
      unfolding sdsll2str_def abs Let_def using l s True d
      by (simp add: ll2str_digits_correct mem_simps list_update_append map_conv_bind_option comp_def)
  next
    case False
    have "drop (length ?d) buf = buf ! length ?d # ?r" using l s False by (simp add: Cons_nth_drop_Suc)
    then show ?thesis
      unfolding sdsll2str_def abs Let_def using l s False d
      by (simp add: ll2str_digits_correct mem_simps list_update_append map_conv_bind_option comp_def)
  qed
  moreover have "?s \<noteq> []" by (simp add: s)
  ultimately show ?thesis using ll2str_reverse_correct [of "rev ?s" "[]" "0 # ?r"] by simp
qed

lemma sdsfromlonglong_correct:
  assumes "int64_range v"
  shows "\<exists>s. sdsfromlonglong junk v = Some s \<and> sds_ok s \<and> sds_str s = dec_string v"
proof -
  have l: "length (dec_string v) < 21" using length_dec_string_le [OF assms] by simp
  let ?b = "dec_string v @ 0 # drop (Suc (length (dec_string v))) (fresh_block junk 21)"
  have "length (dec_string v) \<le> length ?b" "length (dec_string v) + 18 < 2 ^ 64" using l by simp_all
  from sdsnewlen_correct [OF this, of junk] show ?thesis
    using sdsll2str_correct [OF assms, of "fresh_block junk 21"] l
    by (simp add: sdsfromlonglong_def SDS_LLSTR_SIZE_def)
qed

end
