(* ===== verification/Sds_Text.thy ===== *)
theory Sds_Text
  imports Sds "HOL-Library.Sublist"
begin

text \<open>
  Text operations on the strings of \<open>sds.c\<close>: splitting and joining, the quoted representation, the arguments of a
  line, and formatted output. The locale \<open>string_buffer\<close> is what joining uses of a string; the properties of the
  strings close the theory.
\<close>

unbundle bit_operations_syntax

section \<open>Splitting and joining\<close>

text \<open>The test for the separator at position \<open>j\<close>.\<close>

definition sep_at :: "bytes \<Rightarrow> nat \<Rightarrow> bytes \<Rightarrow> nat \<Rightarrow> bool option" where
  "sep_at s j sep seplen =
     do { one \<leftarrow> (if seplen = 1 then do { a \<leftarrow> mem_get s j; b \<leftarrow> mem_get sep 0; Some (a = b) } else Some False);
          if one then Some True
          else do { a \<leftarrow> mem_read s j seplen; b \<leftarrow> mem_read sep 0 seplen; Some (memcmp a b = 0) } }"

text \<open>
  The loop of \<open>sdssplitlen\<close>, which is entered with \<open>seplen\<close> at least 1. The array of the tokens has \<open>slots\<close> places: storing a token
  outside it, and an overflow of the \<open>int\<close> \<open>slots\<close>, are \<open>None\<close>.
\<close>

function split_loop :: "(nat \<Rightarrow> byte) \<Rightarrow> bytes \<Rightarrow> int \<Rightarrow> bytes \<Rightarrow> nat \<Rightarrow> sds list \<Rightarrow> nat \<Rightarrow> nat \<Rightarrow> nat \<Rightarrow>
    (sds list \<times> nat \<times> nat) option" where
  "split_loop junk s len sep seplen tokens slots start j =
     (if 1 \<le> seplen \<and> int j < len - (int seplen - 1) then
        (let slots = (if slots < length tokens + 2 then slots * 2 else slots) in
         if slots \<ge> 2 ^ 31 then None
         else do { m \<leftarrow> sep_at s j sep seplen;
                   if m then
                     do { t \<leftarrow> sdsnewlen junk (Init (drop start s)) (j - start);
                          tokens \<leftarrow> (if length tokens < slots then Some (tokens @ [t]) else None);
                          split_loop junk s len sep seplen tokens slots (j + seplen) (j + seplen - 1 + 1) }
                   else split_loop junk s len sep seplen tokens slots start (j + 1) })
      else Some (tokens, slots, start))"
  by pat_completeness auto
termination by (relation "measure (\<lambda>(junk, s, len, sep, seplen, tokens, slots, start, j). nat (len - int j))") auto

declare split_loop.simps [simp del]

text \<open>The inner \<open>None\<close> is the result \<open>NULL\<close>.\<close>

definition sdssplitlen :: "(nat \<Rightarrow> byte) \<Rightarrow> bytes \<Rightarrow> int \<Rightarrow> bytes \<Rightarrow> int \<Rightarrow> sds list option option" where
  "sdssplitlen junk s len sep seplen =
     (if seplen < 1 \<or> len < 0 then Some None
      else if len = 0 then Some (Some [])
      else do { (tokens, slots, start) \<leftarrow> split_loop junk s len sep (nat seplen) [] 5 0 0;
                t \<leftarrow> sdsnewlen junk (Init (drop start s)) (nat len - start);
                if length tokens < slots then Some (Some (tokens @ [t])) else None })"

text \<open>The loop of \<open>sdsjoin\<close> and \<open>sdsjoinsds\<close>, which append a string and the separator in their own way.\<close>

fun join_loop :: "('s \<Rightarrow> 'a \<Rightarrow> 's option) \<Rightarrow> ('s \<Rightarrow> 's option) \<Rightarrow> 's \<Rightarrow> 'a list \<Rightarrow> 's option" where
  "join_loop cat catsep join [] = Some join"
| "join_loop cat catsep join (a # argv) =
     do { join \<leftarrow> cat join a;
          join \<leftarrow> (if argv \<noteq> [] then catsep join else Some join);
          join_loop cat catsep join argv }"

definition sdsjoin :: "(nat \<Rightarrow> byte) \<Rightarrow> bytes list \<Rightarrow> bytes \<Rightarrow> sds option" where
  "sdsjoin junk argv sep =
     do { join \<leftarrow> sdsempty junk;
          join_loop (\<lambda>s a. sdscat junk s a) (\<lambda>s. sdscat junk s sep) join argv }"

definition sdsjoinsds :: "(nat \<Rightarrow> byte) \<Rightarrow> sds list \<Rightarrow> bytes \<Rightarrow> nat \<Rightarrow> sds option" where
  "sdsjoinsds junk argv sep seplen =
     do { join \<leftarrow> sdsempty junk;
          join_loop (\<lambda>s a. sdscatsds junk s a) (\<lambda>s. sdscatlen junk s sep seplen) join argv }"

section \<open>Quoted representation\<close>

text \<open>\<open>isprint\<close> and \<open>isspace\<close> of the C locale, and the text of \<open>%02x\<close>.\<close>

definition isprint :: "byte \<Rightarrow> bool" where
  "isprint c \<longleftrightarrow> 32 \<le> c \<and> c \<le> 126"

definition isspace :: "byte \<Rightarrow> bool" where
  "isspace c \<longleftrightarrow> c = 32 \<or> (9 \<le> c \<and> c \<le> 13)"

definition hex_char :: "nat \<Rightarrow> byte" where
  "hex_char n = (if n < 10 then 48 + of_nat n else 87 + of_nat n)"

definition hex02 :: "byte \<Rightarrow> bytes" where
  "hex02 c = [hex_char (unat c div 16), hex_char (unat c mod 16)]"

text \<open>\<open>sdscatprintf\<close> with one of the three formats of \<open>sdscatrepr\<close>, which never fail.\<close>

definition repr_printf :: "(nat \<Rightarrow> byte) \<Rightarrow> sds \<Rightarrow> nat \<Rightarrow> bytes \<Rightarrow> sds option" where
  "repr_printf junk s fmtlen text = do { r \<leftarrow> sdscatvprintf junk s fmtlen (Some text); r }"

definition sdscatrepr_byte :: "(nat \<Rightarrow> byte) \<Rightarrow> sds \<Rightarrow> byte \<Rightarrow> sds option" where
  "sdscatrepr_byte junk s c =
     (if c = 92 \<or> c = 34 then repr_printf junk s 3 [92, c]
      else if c = 10 then sdscatlen junk s [92, 110] 2
      else if c = 13 then sdscatlen junk s [92, 114] 2
      else if c = 9 then sdscatlen junk s [92, 116] 2
      else if c = 7 then sdscatlen junk s [92, 97] 2
      else if c = 8 then sdscatlen junk s [92, 98] 2
      else if isprint c then repr_printf junk s 2 [c]
      else repr_printf junk s 6 ([92, 120] @ hex02 c))"

fun sdscatrepr_loop :: "(nat \<Rightarrow> byte) \<Rightarrow> sds \<Rightarrow> bytes \<Rightarrow> nat \<Rightarrow> nat \<Rightarrow> sds option" where
  "sdscatrepr_loop junk s p i 0 = Some s"
| "sdscatrepr_loop junk s p i (Suc len) =
     do { c \<leftarrow> mem_get p i;
          s \<leftarrow> sdscatrepr_byte junk s c;
          sdscatrepr_loop junk s p (i + 1) len }"

definition sdscatrepr :: "(nat \<Rightarrow> byte) \<Rightarrow> sds \<Rightarrow> bytes \<Rightarrow> nat \<Rightarrow> sds option" where
  "sdscatrepr junk s p len =
     do { s \<leftarrow> sdscatlen junk s [34] 1;
          s \<leftarrow> sdscatrepr_loop junk s p 0 len;
          sdscatlen junk s [34] 1 }"

section \<open>Splitting a line into arguments\<close>

definition is_hex_digit :: "byte \<Rightarrow> bool" where
  "is_hex_digit c \<longleftrightarrow> (c \<ge> 48 \<and> c \<le> 57) \<or> (c \<ge> 97 \<and> c \<le> 102) \<or> (c \<ge> 65 \<and> c \<le> 70)"

definition hex_digit_to_int :: "byte \<Rightarrow> nat" where
  "hex_digit_to_int c =
     (if c = 48 then 0 else if c = 49 then 1 else if c = 50 then 2 else if c = 51 then 3
      else if c = 52 then 4 else if c = 53 then 5 else if c = 54 then 6 else if c = 55 then 7
      else if c = 56 then 8 else if c = 57 then 9
      else if c = 97 \<or> c = 65 then 10 else if c = 98 \<or> c = 66 then 11
      else if c = 99 \<or> c = 67 then 12 else if c = 100 \<or> c = 68 then 13
      else if c = 101 \<or> c = 69 then 14 else if c = 102 \<or> c = 70 then 15 else 0)"

text \<open>The condition for an escape \<open>\x\<close> with two hexadecimal digits, evaluated from left to right.\<close>

definition hex_escape :: "bytes \<Rightarrow> nat \<Rightarrow> bool option" where
  "hex_escape line p =
     do { c \<leftarrow> mem_get line p;
          if c \<noteq> 92 then Some False
          else do { c \<leftarrow> mem_get line (p + 1);
                    if c \<noteq> 120 then Some False
                    else do { c \<leftarrow> mem_get line (p + 2);
                              if \<not> is_hex_digit c then Some False
                              else do { c \<leftarrow> mem_get line (p + 3); Some (is_hex_digit c) } } } }"

definition unescape :: "byte \<Rightarrow> byte" where
  "unescape c =
     (if c = 110 then 10 else if c = 114 then 13 else if c = 116 then 9 else if c = 98 then 8
      else if c = 97 then 7 else c)"

text \<open>
  The loop that reads one token. The inner \<open>None\<close> is the jump to \<open>err\<close>; otherwise the result is
  the token and the position after it.
\<close>

function split_token :: "(nat \<Rightarrow> byte) \<Rightarrow> bytes \<Rightarrow> nat \<Rightarrow> bool \<Rightarrow> bool \<Rightarrow> sds \<Rightarrow> (sds \<times> nat) option option" where
  "split_token junk line p inq insq current =
     do { c \<leftarrow> mem_get line p;
          if inq then
            do { hx \<leftarrow> hex_escape line p;
                 if hx then
                   do { h1 \<leftarrow> mem_get line (p + 2);
                        h2 \<leftarrow> mem_get line (p + 3);
                        current \<leftarrow> sdscatlen junk current [of_nat (hex_digit_to_int h1 * 16 + hex_digit_to_int h2)] 1;
                        split_token junk line (p + 4) inq insq current }
                 else do { c1 \<leftarrow> (if c = 92 then mem_get line (p + 1) else Some 0);
                           if c = 92 \<and> c1 \<noteq> 0 then
                             do { current \<leftarrow> sdscatlen junk current [unescape c1] 1;
                                  split_token junk line (p + 2) inq insq current }
                           else if c = 34 then
                             do { c1 \<leftarrow> mem_get line (p + 1);
                                  if c1 \<noteq> 0 \<and> \<not> isspace c1 then Some None else Some (Some (current, p + 1)) }
                           else if c = 0 then Some None
                           else do { current \<leftarrow> sdscatlen junk current [c] 1;
                                     split_token junk line (p + 1) inq insq current } } }
          else if insq then
            do { c1 \<leftarrow> (if c = 92 then mem_get line (p + 1) else Some 0);
                 if c = 92 \<and> c1 = 39 then
                   do { current \<leftarrow> sdscatlen junk current [39] 1;
                        split_token junk line (p + 2) inq insq current }
                 else if c = 39 then
                   do { c1 \<leftarrow> mem_get line (p + 1);
                        if c1 \<noteq> 0 \<and> \<not> isspace c1 then Some None else Some (Some (current, p + 1)) }
                 else if c = 0 then Some None
                 else do { current \<leftarrow> sdscatlen junk current [c] 1;
                           split_token junk line (p + 1) inq insq current } }
          else if c = 32 \<or> c = 10 \<or> c = 13 \<or> c = 9 then Some (Some (current, p + 1))
          else if c = 0 then Some (Some (current, p))
          else if c = 34 then split_token junk line (p + 1) True insq current
          else if c = 39 then split_token junk line (p + 1) inq True current
          else do { current \<leftarrow> sdscatlen junk current [c] 1;
                    split_token junk line (p + 1) inq insq current } }"
  by pat_completeness auto
termination
  by (relation "measure (\<lambda>(junk, line, p, inq, insq, current). length line - p)")
     (auto simp: mem_get_def split: if_splits)

declare split_token.simps [simp del]

function skip_blanks :: "bytes \<Rightarrow> nat \<Rightarrow> nat option" where
  "skip_blanks line p =
     do { c \<leftarrow> mem_get line p;
          if c \<noteq> 0 \<and> isspace c then skip_blanks line (p + 1) else Some p }"
  by pat_completeness auto
termination
  by (relation "measure (\<lambda>(line, p). length line - p)") (auto simp: mem_get_def split: if_splits)

declare skip_blanks.simps [simp del]

partial_function (option) splitargs_loop :: "(nat \<Rightarrow> byte) \<Rightarrow> bytes \<Rightarrow> nat \<Rightarrow> sds list \<Rightarrow> sds list option option" where
  "splitargs_loop junk line p vector =
     Option.bind (skip_blanks line p) (\<lambda>p.
     Option.bind (mem_get line p) (\<lambda>c.
       if c \<noteq> 0 then
         Option.bind (sdsempty junk) (\<lambda>current.
         Option.bind (split_token junk line p False False current) (\<lambda>r.
           case r of
             None \<Rightarrow> Some None
           | Some (current, p) \<Rightarrow> splitargs_loop junk line p (vector @ [current])))
       else Some (Some vector)))"

definition sdssplitargs :: "(nat \<Rightarrow> byte) \<Rightarrow> bytes \<Rightarrow> sds list option option" where
  "sdssplitargs junk line = splitargs_loop junk line 0 []"

section \<open>The interface of a growing string\<close>

fun joined :: "bytes \<Rightarrow> bytes list \<Rightarrow> bytes" where
  "joined sep [] = []"
| "joined sep [t] = t"
| "joined sep (t # u # ts) = t @ sep @ joined sep (u # ts)"

lemma joined_snoc: "joined sep (ts @ [l]) = concat (map (\<lambda>t. t @ sep) ts) @ l"
proof (induction ts)
  case (Cons t ts)
  then show ?case by (cases ts) auto
qed simp

text \<open>
  What the text operations use of a string: bytes can be appended to it while its length stays within a limit.
\<close>

locale string_buffer =
  fixes ok :: "'s \<Rightarrow> bool" and str :: "'s \<Rightarrow> bytes" and cat :: "'s \<Rightarrow> bytes \<Rightarrow> 's option" and limit :: nat
  assumes cat_ok: "ok s \<Longrightarrow> length (str s) + length t \<le> limit \<Longrightarrow>
    \<exists>s'. cat s t = Some s' \<and> ok s' \<and> str s' = str s @ t"
begin

lemma join_ok:
  assumes "ok s" and "length (str s) + length (joined sp (map txt argv)) \<le> limit"
  shows "\<exists>s'. join_loop (\<lambda>s a. cat s (txt a)) (\<lambda>s. cat s sp) s argv = Some s' \<and> ok s' \<and>
    str s' = str s @ joined sp (map txt argv)"
  using assms
proof (induction argv arbitrary: s)
  case (Cons a argv)
  obtain s1 where s1: "cat s (txt a) = Some s1" "ok s1" "str s1 = str s @ txt a"
    using cat_ok [OF Cons.prems(1), of "txt a"] Cons.prems(2) by (cases argv) auto
  show ?case
  proof (cases argv)
    case Nil
    then show ?thesis using s1 by auto
  next
    case (Cons b bs)
    obtain s2 where "cat s1 sp = Some s2" "ok s2" "str s2 = str s1 @ sp"
      using cat_ok [OF s1(2), of sp] Cons.prems(2) s1(3) Cons by auto
    then show ?thesis using Cons.IH [of s2] Cons.prems(2) s1 Cons by auto
  qed
qed simp

end

abbreviation (input) sds_limit :: nat where "sds_limit \<equiv> 2 ^ 63"

interpretation sds_buf: string_buffer sds_ok sds_str "\<lambda>s t. sdscatlen junk s t (length t)" sds_limit for junk
proof
  fix s and t :: bytes assume "sds_ok s" "length (sds_str s) + length t \<le> sds_limit"
  then show "\<exists>s'. sdscatlen junk s t (length t) = Some s' \<and> sds_ok s' \<and> sds_str s' = sds_str s @ t"
    using sdscatlen_correct [of s "length t" t junk] length_sds_str [of s] by simp
qed

lemma sdscatlen_take:
  "n \<le> length t \<Longrightarrow> sdscatlen junk s t n = sdscatlen junk s (take n t) (length (take n t))"
  by (simp add: sdscatlen_def mem_simps Let_def)

lemma sdscatlen_append:
  assumes "sds_ok s" and "n \<le> length t" and "sdslen s + n \<le> sds_limit"
  shows "\<exists>s'. sdscatlen junk s t n = Some s' \<and> sds_ok s' \<and> sds_str s' = sds_str s @ take n t"
  using sdscatlen_correct [OF assms(1,2), of junk] assms(3) by simp

section \<open>Formatted output\<close>

lemma sdscatvprintf_correct:
  assumes ok: "sds_ok s" and sz: "sdslen s + length text \<le> sds_limit"
  shows "\<exists>s'. sdscatvprintf junk s fmtlen (Some text) = Some (Some s') \<and> sds_ok s' \<and> sds_str s' = sds_str s @ text"
proof -
  have v: "\<exists>buf. vsnprintf (fresh_block junk n) n text = Some (length text, buf) \<and>
      (length text < n \<longrightarrow> length buf = n \<and> take (length text) buf = text)" if "0 < n" for n
  proof -
    have "length (take (n - 1) text @ [0]) \<le> n" using that by auto
    then show ?thesis using that mem_write_in [of 0 "take (n - 1) text @ [0]" "fresh_block junk n"]
      by (auto simp: vsnprintf_def min_def)
  qed
  define n where "n = (if fmtlen * 2 > 1024 then fmtlen * 2 else 1024)"
  have "0 < n" by (simp add: n_def)
  then obtain b1 b2 where b: "vsnprintf (fresh_block junk n) n text = Some (length text, b1)"
      "length text < n \<longrightarrow> length b1 = n \<and> take (length text) b1 = text"
      "vsnprintf (fresh_block junk (length text + 1)) (length text + 1) text = Some (length text, b2)"
      "length b2 = length text + 1 \<and> take (length text) b2 = text"
    using v [of n] v [of "length text + 1"] by fastforce
  let ?b = "if length text \<ge> n then b2 else b1"
  have "length text \<le> length ?b" "take (length text) ?b = text" using b(2,4) by auto
  moreover from this obtain s' where "sdscatlen junk s ?b (length text) = Some s'" "sds_ok s'" "sds_str s' = sds_str s @ text"
    using sdscatlen_append [OF ok _ sz] by metis
  ultimately show ?thesis
    unfolding sdscatvprintf_def Let_def n_def [symmetric] using b by (cases "n \<le> length text") simp_all
qed

text \<open>While \<open>sdscatfmt\<close> runs the terminating zero is missing; \<open>i\<close> is the length.\<close>

definition fmt_state :: "sds \<Rightarrow> nat \<Rightarrow> bytes \<Rightarrow> bool" where
  "fmt_state s i bs \<longleftrightarrow> sds_wf s \<and> sh_len s = i \<and> sds_str s = bs"

lemma fmt_grow:
  assumes "fmt_state s i bs" and "i + l \<le> sds_limit"
  shows "\<exists>s'. (if sdsavail s < l then sdsMakeRoomFor junk s l else Some s) = Some s' \<and> fmt_state s' i bs \<and>
    i + l \<le> sdsalloc s'"
proof (cases "sdsavail s < l")
  case True
  then show ?thesis
    using sdsMakeRoomFor_wf [of s l junk] assms by (auto simp: fmt_state_def grown_def sdslen_def)
next
  case False
  then show ?thesis using sds_wf_alloc [of s] assms by (auto simp: fmt_state_def)
qed

lemma fmt_extend:
  assumes st: "fmt_state s i bs" and l: "i + length t \<le> sdsalloc s"
  shows "fmt_state (sdsinclen (s\<lparr>sh_buf := take i (sh_buf s) @ t @ drop (i + length t) (sh_buf s)\<rparr>) (length t))
    (i + length t) (bs @ t)"
proof -
  have wf: "sds_wf s" "sh_len s = i" "take i (sh_buf s) = bs" using st by (auto simp: fmt_state_def sds_str_def)
  have a: "i + length t < length (sh_buf s)" "i + length t < 2 ^ sds_bits (sh_type s)"
    using sds_wf_alloc [OF wf(1)] l by linarith+
  have "sh_type s = 0 \<Longrightarrow> length t = 0" using l wf(2) by (simp add: sdsalloc_def)
  then show ?thesis
    using wf a l by (auto simp: fmt_state_def sds_wf_def sds_str_def sdsinclen_def sdsalloc_def)
qed

lemma fmt_append_correct:
  assumes "fmt_state s i bs" and "l \<le> length str" and "i + l \<le> sds_limit"
  shows "\<exists>s'. fmt_append junk s i str l = Some (s', i + l) \<and> fmt_state s' (i + l) (bs @ take l str)"
proof -
  obtain s1 where s1: "(if sdsavail s < l then sdsMakeRoomFor junk s l else Some s) = Some s1"
      "fmt_state s1 i bs" "i + l \<le> sdsalloc s1"
    using fmt_grow [OF assms(1,3)] by blast
  have len: "length (take l str) = l" using assms(2) by simp
  have "i + l \<le> length (sh_buf s1)" using sds_wf_alloc(2) [of s1] s1(2,3) by (auto simp: fmt_state_def)
  then show ?thesis
    using s1(1) assms(2) fmt_extend [OF s1(2), of "take l str", unfolded len] s1(3)
    by (simp add: fmt_append_def mem_simps)
qed

lemma fmt_char_correct:
  assumes "fmt_state s i bs" and "sdsavail s \<noteq> 0"
  shows "\<exists>s'. fmt_char s i c = Some (s', i + 1) \<and> fmt_state s' (i + 1) (bs @ [c])"
proof -
  have "i + 1 \<le> sdsalloc s" using assms sds_wf_alloc [of s] by (auto simp: fmt_state_def)
  moreover from this have "i < length (sh_buf s)" using sds_wf_alloc(2) [of s] assms(1) by (auto simp: fmt_state_def)
  ultimately show ?thesis
    using fmt_extend [OF assms(1), of "[c]"]
    by (simp add: fmt_char_def sds_put_in upd_conv_take_nth_drop)
qed

text \<open>The text of a conversion and of a whole format; \<open>None\<close> for a missing or wrong argument and for a format that
  ends with a percent sign.\<close>

definition conv_text :: "byte \<Rightarrow> fmt_arg list \<Rightarrow> (bytes \<times> fmt_arg list) option" where
  "conv_text nxt ap =
     (if nxt = 115 then (case ap of Arg_str str # ap \<Rightarrow> map_option (\<lambda>l. (take l str, ap)) (strlen str) | _ \<Rightarrow> None)
      else if nxt = 83 then (case ap of Arg_sds str # ap \<Rightarrow> if sds_ok str then Some (sds_str str, ap) else None | _ \<Rightarrow> None)
      else if nxt = 105 then (case ap of Arg_int n # ap \<Rightarrow> if int64_range n then Some (dec_string n, ap) else None | _ \<Rightarrow> None)
      else if nxt = 73 then (case ap of Arg_ll n # ap \<Rightarrow> if int64_range n then Some (dec_string n, ap) else None | _ \<Rightarrow> None)
      else if nxt = 117 then (case ap of Arg_uint n # ap \<Rightarrow> if n < 2 ^ 64 then Some (dec_digits n, ap) else None | _ \<Rightarrow> None)
      else if nxt = 85 then (case ap of Arg_ull n # ap \<Rightarrow> if n < 2 ^ 64 then Some (dec_digits n, ap) else None | _ \<Rightarrow> None)
      else Some ([nxt], ap))"

fun fmt_text :: "bytes \<Rightarrow> fmt_arg list \<Rightarrow> bytes option" where
  "fmt_text [] ap = Some []"
| "fmt_text (c # f) ap =
     (if c = 37 then
        (case f of
           [] \<Rightarrow> None
         | nxt # f \<Rightarrow> do { (t, ap) \<leftarrow> conv_text nxt ap; map_option ((@) t) (fmt_text f ap) })
      else map_option (Cons c) (fmt_text f ap))"

lemma fmt_conv_correct:
  assumes st: "fmt_state s i bs" and av: "sdsavail s \<noteq> 0" and t: "conv_text nxt ap = Some (t, ap')"
    and sz: "i + length t \<le> sds_limit"
  shows "\<exists>s'. fmt_conv junk s i nxt ap = Some (s', i + length t, ap') \<and> fmt_state s' (i + length t) (bs @ t)"
proof -
  have num_arg: "\<exists>l buf s'. sdsll2str (fresh_block junk SDS_LLSTR_SIZE) n = Some (l, buf) \<and>
      fmt_append junk s i buf l = Some (s', i + length t) \<and> fmt_state s' (i + length t) (bs @ t)" if "int64_range n" "t = dec_string n" for n
  proof -
    have l: "length t < 21" using length_dec_string_le [OF that(1)] that(2) by simp
    show ?thesis
      using sdsll2str_correct [OF that(1), of "fresh_block junk SDS_LLSTR_SIZE"] l that(2)
        fmt_append_correct [OF st _ sz, of "t @ 0 # drop (Suc (length t)) (fresh_block junk SDS_LLSTR_SIZE)" junk]
      by (simp add: SDS_LLSTR_SIZE_def)
  qed
  have unum_arg: "\<exists>l buf s'. sdsull2str (fresh_block junk SDS_LLSTR_SIZE) n = Some (l, buf) \<and>
      fmt_append junk s i buf l = Some (s', i + length t) \<and> fmt_state s' (i + length t) (bs @ t)" if "n < 2 ^ 64" "t = dec_digits n" for n
  proof -
    have "length (dec_digits n) \<le> Suc 19" using that(1) by (intro length_dec_digits_le) simp
    then have l: "length t < 21" using that(2) by simp
    show ?thesis
      using sdsull2str_correct [of n "fresh_block junk SDS_LLSTR_SIZE"] l that(2)
        fmt_append_correct [OF st _ sz, of "t @ 0 # drop (Suc (length t)) (fresh_block junk SDS_LLSTR_SIZE)" junk]
      by (simp add: SDS_LLSTR_SIZE_def)
  qed
  consider (str) "nxt = 115" | (sds) "nxt = 83" | (num) "nxt = 105 \<or> nxt = 73" | (unum) "nxt = 117 \<or> nxt = 85"
    | (chr) "nxt \<notin> {115, 83, 105, 73, 117, 85}" by blast
  then show ?thesis
  proof cases
    case str
    then obtain x l where x: "ap = Arg_str x # ap'" "strlen x = Some l" "t = take l x"
      using t by (auto simp: conv_text_def split: list.splits fmt_arg.splits)
    then have "l \<le> length x" using strlen_correct [of x l] by simp
    then show ?thesis using str x fmt_append_correct [OF st, of l x junk] sz by (auto simp: fmt_conv_def)
  next
    case sds
    then obtain x where x: "ap = Arg_sds x # ap'" "sds_ok x" "t = sds_str x"
      using t by (auto simp: conv_text_def split: list.splits fmt_arg.splits if_splits)
    then have "sdslen x \<le> length (sh_buf x)" "t = take (sdslen x) (sh_buf x)" "length t = sdslen x"
      using length_sds_str [of x] by (auto simp: sds_ok_def sds_wf_def sdslen_def sds_str_def)
    then show ?thesis
      using sds x(1) fmt_append_correct [OF st, of "sdslen x" "sh_buf x" junk] sz by (auto simp: fmt_conv_def)
  next
    case num
    then obtain n where "ap = (if nxt = 105 then Arg_int n else Arg_ll n) # ap'" "int64_range n" "t = dec_string n"
      using t by (auto simp: conv_text_def split: list.splits fmt_arg.splits if_splits)
    then show ?thesis using num \<open>int64_range n\<close> num_arg [of n] by (auto simp: fmt_conv_def)
  next
    case unum
    then obtain n where "ap = (if nxt = 117 then Arg_uint n else Arg_ull n) # ap'" "n < 2 ^ 64" "t = dec_digits n"
      using t by (auto simp: conv_text_def split: list.splits fmt_arg.splits if_splits)
    then show ?thesis using unum unum_arg [of n] by (auto simp: fmt_conv_def)
  next
    case chr
    then show ?thesis using t fmt_char_correct [OF st av, of nxt] by (auto simp: conv_text_def fmt_conv_def)
  qed
qed

lemma sdscatfmt_loop_correct:
  assumes "fmt_state s i bs" and "fmt_text f ap = Some t" and "0 \<notin> set f" and "i + length t + length f < sds_limit"
  shows "\<exists>s'. sdscatfmt_loop junk s i (f @ 0 # m) ap = Some (s', i + length t) \<and> fmt_state s' (i + length t) (bs @ t)"
  using assms
proof (induction f ap arbitrary: s i bs t rule: fmt_text.induct)
  case (1 ap)
  then show ?case by simp
next
  case (2 c f ap)
  obtain s1 where s1: "(if sdsavail s = 0 then sdsMakeRoomFor junk s 1 else Some s) = Some s1" "fmt_state s1 i bs"
      "sdsavail s1 \<noteq> 0"
    using fmt_grow [OF "2.prems"(1), of 1 junk] "2.prems"(4) sds_wf_alloc(1,5) [of s] sds_wf_alloc(1,5)
    by (fastforce simp: fmt_state_def)
  show ?case
  proof (cases "c = 37")
    case True
    then obtain nxt f' t1 ap' t2 where f: "f = nxt # f'" "conv_text nxt ap = Some (t1, ap')" "fmt_text f' ap' = Some t2"
        "t = t1 @ t2"
      using "2.prems"(2) by (auto split: list.splits bind_splits)
    have sz: "i + length t1 \<le> sds_limit" using "2.prems"(4) f by simp
    obtain s2 where s2: "fmt_conv junk s1 i nxt ap = Some (s2, i + length t1, ap')" "fmt_state s2 (i + length t1) (bs @ t1)"
      using fmt_conv_correct [OF s1(2,3) f(2) sz] by blast
    then show ?thesis
      using "2.IH"(1) [OF True f(1) f(2) refl s2(2) f(3)] "2.prems"(3,4) s1(1) f True by (auto simp: add.assoc)
  next
    case False
    then obtain t' where t: "fmt_text f ap = Some t'" "t = c # t'" using "2.prems"(2) by auto
    obtain s2 where "fmt_char s1 i c = Some (s2, i + 1)" "fmt_state s2 (i + 1) (bs @ [c])"
      using fmt_char_correct [OF s1(2,3)] by blast
    then show ?thesis
      using "2.IH"(2) [OF False _ t(1), of s2 "i + 1" "bs @ [c]"] "2.prems"(3,4) s1(1) t(2) False by auto
  qed
qed

lemma sdscatfmt_eq:
  assumes ok: "sds_ok s" and t: "fmt_text f ap = Some t" and f: "0 \<notin> set f"
    and sz: "sdslen s + length t + 2 * length f < sds_limit"
  shows "\<exists>s'. sdscatfmt junk s (f @ 0 # m) ap = Some s' \<and> sds_ok s' \<and> sds_str s' = sds_str s @ t"
proof -
  let ?i = "sdslen s"
  have u: "u64 (length f * 2) = length f * 2" using sz by (intro u64_id) simp
  obtain s1 where s1: "sdsMakeRoomFor junk s (length f * 2) = Some s1" "fmt_state s1 ?i (sds_str s)"
    using sdsMakeRoomFor_grown [OF ok, of "length f * 2" junk] sz by (auto simp: fmt_state_def grown_def sdslen_def)
  obtain s2 where s2: "sdscatfmt_loop junk s1 ?i (f @ 0 # m) ap = Some (s2, ?i + length t)"
      "fmt_state s2 (?i + length t) (sds_str s @ t)"
    using sdscatfmt_loop_correct [OF s1(2) t f] sz by fastforce
  have "?i + length t < length (sh_buf s2)" using s2(2) by (auto simp: fmt_state_def sds_wf_def)
  then show ?thesis
    using s1(1) s2 strlen_append [OF f, of m]
    by (auto simp: sdscatfmt_def Let_def u sds_put_in fmt_state_def sds_ok_def sds_wf_def sds_str_def)
qed

section \<open>Splitting and joining\<close>

lemma join_loop_cong:
  assumes "\<And>s a. a \<in> set argv \<Longrightarrow> cat s a = cat' s a" and "\<And>s. catsep s = catsep' s"
  shows "join_loop cat catsep s argv = join_loop cat' catsep' s argv"
  using assms by (induction argv arbitrary: s) (auto intro!: bind_option_cong)

lemma sdsjoinsds_correct:
  assumes ok: "\<forall>a \<in> set argv. sds_ok a" and n: "n \<le> length sep"
    and sz: "length (joined (take n sep) (map sds_str argv)) \<le> sds_limit"
  shows "\<exists>s'. sdsjoinsds junk argv sep n = Some s' \<and> sds_ok s' \<and> sds_str s' = joined (take n sep) (map sds_str argv)"
proof -
  obtain e where e: "sdsempty junk = Some e" "sds_ok e" "sds_str e = []" using sdsempty_correct by blast
  have "sdscatsds junk s a = sdscatlen junk s (sds_str a) (length (sds_str a))" if "a \<in> set argv" for s a
  proof -
    have "sdslen a \<le> length (sh_buf a)" using that ok by (auto simp: sds_ok_def sds_wf_def sdslen_def)
    then show ?thesis using sdscatlen_take [of "sdslen a" "sh_buf a"] by (simp add: sdscatsds_def sds_str_def sdslen_def)
  qed
  then have "join_loop (\<lambda>s a. sdscatsds junk s a) (\<lambda>s. sdscatlen junk s sep n) e argv =
      join_loop (\<lambda>s a. sdscatlen junk s (sds_str a) (length (sds_str a)))
        (\<lambda>s. sdscatlen junk s (take n sep) (length (take n sep))) e argv"
    by (intro join_loop_cong sdscatlen_take n)
  then show ?thesis
    using e sds_buf.join_ok [of e "take n sep" sds_str argv junk] sz by (simp add: sdsjoinsds_def)
qed

lemma sep_at_correct:
  assumes "0 < n" and "n \<le> length sep" and "j + n \<le> length s"
  shows "sep_at s j sep n = Some (take n (drop j s) = take n sep)"
proof -
  have "take 1 (drop j s) = [s ! j]" using assms by (simp add: take_Suc hd_drop_conv_nth)
  moreover have "take 1 sep = [sep ! 0]" using assms by (cases sep) auto
  ultimately have "n = 1 \<Longrightarrow> (take n (drop j s) = take n sep) = (s ! j = sep ! 0)" by auto
  moreover have "length (take n (drop j s)) = length (take n sep)" "0 < length sep" "j < length s" using assms by auto
  ultimately show ?thesis
    using assms memcmp_eq [of "take n (drop j s)" "take n sep"] by (auto simp: sep_at_def mem_simps)
qed

text \<open>A position where the separator begins.\<close>

definition sep_pos :: "bytes \<Rightarrow> bytes \<Rightarrow> nat \<Rightarrow> bool" where
  "sep_pos sep bs i \<longleftrightarrow> i + length sep \<le> length bs \<and> take (length sep) (drop i bs) = sep"

lemma no_sep_sublist:
  assumes "\<forall>i. a \<le> i \<and> i + length sep \<le> b \<longrightarrow> \<not> sep_pos sep bs i" and "a \<le> b" and "b \<le> length bs"
  shows "\<not> sublist sep (take (b - a) (drop a bs))"
proof
  assume "sublist sep (take (b - a) (drop a bs))"
  then obtain ps ss where e: "take (b - a) (drop a bs) = ps @ sep @ ss" by (auto simp: sublist_def)
  then have l: "length ps + length sep + length ss = b - a" using assms(2,3) length_take [of "b - a" "drop a bs"] unfolding e by simp
  have "drop a bs = (ps @ sep @ ss) @ drop (b - a) (drop a bs)" using e by (metis append_take_drop_id)
  then have "drop (a + length ps) bs = sep @ ss @ drop (b - a) (drop a bs)"
    by (metis append.assoc append_eq_conv_conj drop_drop add.commute)
  then have "sep_pos sep bs (a + length ps)" using l assms(2,3) by (simp add: sep_pos_def)
  then show False using assms(1,2) l by auto
qed


lemma split_loop_correct:
  assumes n: "int n = len" "n \<le> length s" "n < 2 ^ 29" and sl: "0 < seplen" "seplen \<le> length sep"
  defines "bs \<equiv> take n s" and "sp \<equiv> take seplen sep"
  shows "length tokens < slots \<Longrightarrow> slots \<le> 2 * length tokens + 5 \<Longrightarrow> length tokens \<le> start \<Longrightarrow> start \<le> j \<Longrightarrow>
    j \<le> n \<Longrightarrow> \<forall>t \<in> set tokens. sds_ok t \<Longrightarrow> \<forall>i. start \<le> i \<and> i < j \<longrightarrow> \<not> sep_pos sp bs i \<Longrightarrow>
    \<exists>tokens' slots' start' ts. split_loop junk s len sep seplen tokens slots start j = Some (tokens', slots', start') \<and>
      map sds_str tokens' = map sds_str tokens @ ts \<and> (\<forall>t \<in> set tokens'. sds_ok t) \<and> length tokens' < slots' \<and>
      start' \<le> n \<and> drop start bs = concat (map (\<lambda>t. t @ sp) ts) @ drop start' bs \<and>
      (\<forall>t \<in> set ts. \<not> sublist sp t) \<and> \<not> sublist sp (drop start' bs)"
proof (induction "n - j" arbitrary: tokens slots start j rule: less_induct)
  case less
  have lb: "length bs = n" "length sp = seplen" using n sl by (simp_all add: bs_def sp_def)
  let ?slots = "if slots < length tokens + 2 then slots * 2 else slots"
  have slots: "length tokens + 2 \<le> ?slots" "?slots \<le> 2 * (length tokens + 1) + 5" "?slots < 2 ^ 31"
    using less.prems n(3) by auto
  show ?case
  proof (cases "int j < len - (int seplen - 1)")
    case False
    then have e: "n < j + seplen" using n by simp
    have "split_loop junk s len sep seplen tokens slots start j = Some (tokens, slots, start)"
      using False by (subst split_loop.simps) simp
    moreover have "\<not> sublist sp (drop start bs)"
    proof -
      have "\<forall>i. start \<le> i \<and> i + length sp \<le> n \<longrightarrow> \<not> sep_pos sp bs i" using less.prems(7) e lb by auto
      from no_sep_sublist [OF this] show ?thesis using less.prems(4,5) lb by simp
    qed
    ultimately show ?thesis using less.prems by (intro exI [of _ tokens] exI [of _ slots] exI [of _ start] exI [of _ "[]"]) simp
  next
    case True
    then have j: "j + seplen \<le> n" using n by simp
    have pos: "sep_at s j sep seplen = Some (sep_pos sp bs j)"
      using sep_at_correct [OF sl(1) sl(2), of j s] j n(2) lb
      by (simp add: sep_pos_def bs_def sp_def drop_take min_def)
    show ?thesis
    proof (cases "sep_pos sp bs j")
      case False
      have "split_loop junk s len sep seplen tokens slots start j =
          split_loop junk s len sep seplen tokens ?slots start (j + 1)"
        using True False pos slots(3) sl by (subst split_loop.simps) (simp add: Let_def)
      moreover have "\<forall>i. start \<le> i \<and> i < j + 1 \<longrightarrow> \<not> sep_pos sp bs i" using less.prems(7) False by (auto simp: less_Suc_eq)
      moreover have "length tokens < ?slots" "?slots \<le> 2 * length tokens + 5" using slots less.prems(1,2) by auto
      ultimately show ?thesis
        using less.hyps [of "j + 1" tokens ?slots start] less.prems(3-6) j sl(1) by simp
    next
      case m: True
      have lj: "j - start \<le> length (drop start s)" "j - start + 18 < 2 ^ 64" using j n(2,3) by auto
      obtain t where t: "sdsnewlen junk (Init (drop start s)) (j - start) = Some t" "sds_ok t"
          "sds_str t = take (j - start) (drop start s)"
        using sdsnewlen_correct [OF lj] by blast
      have tb: "sds_str t = take (j - start) (drop start bs)"
        using t(3) j by (simp add: bs_def drop_take min_def)
      have "split_loop junk s len sep seplen tokens slots start j =
          split_loop junk s len sep seplen (tokens @ [t]) ?slots (j + seplen) (j + seplen)"
        using True m pos slots t(1) sl by (subst split_loop.simps) (simp add: Let_def)
      moreover have "\<exists>tokens' slots' start' ts. split_loop junk s len sep seplen (tokens @ [t]) ?slots (j + seplen) (j + seplen) =
            Some (tokens', slots', start') \<and>
          map sds_str tokens' = map sds_str (tokens @ [t]) @ ts \<and> (\<forall>t \<in> set tokens'. sds_ok t) \<and> length tokens' < slots' \<and>
          start' \<le> n \<and> drop (j + seplen) bs = concat (map (\<lambda>t. t @ sp) ts) @ drop start' bs \<and>
          (\<forall>t \<in> set ts. \<not> sublist sp t) \<and> \<not> sublist sp (drop start' bs)"
        using less.prems(3,4,6) slots j sl(1) t(2) by (intro less.hyps) auto
      moreover have "drop start bs = sds_str t @ sp @ drop (j + seplen) bs"
      proof -
        have "drop j bs = sp @ drop (j + seplen) bs"
          using m lb by (metis append_take_drop_id drop_drop add.commute sep_pos_def)
        then show ?thesis using less.prems(4) tb by (metis append_take_drop_id drop_drop le_add_diff_inverse2)
      qed
      moreover have "\<not> sublist sp (sds_str t)"
        unfolding tb using less.prems(4,5,7) lb sl(1) by (intro no_sep_sublist) auto
      ultimately show ?thesis by fastforce
    qed
  qed
qed

lemma sdssplitlen_correct:
  assumes "0 < n" "n \<le> length s" "n < 2 ^ 29" and "0 < seplen" "seplen \<le> length sep"
  shows "\<exists>tokens. sdssplitlen junk s (int n) sep (int seplen) = Some (Some tokens) \<and> (\<forall>t \<in> set tokens. sds_ok t) \<and>
    joined (take seplen sep) (map sds_str tokens) = take n s \<and> (\<forall>t \<in> set tokens. \<not> sublist (take seplen sep) (sds_str t))"
proof -
  obtain tokens slots start ts where r: "split_loop junk s (int n) sep seplen [] 5 0 0 = Some (tokens, slots, start)"
      "map sds_str tokens = map sds_str [] @ ts" "\<forall>t \<in> set tokens. sds_ok t" "length tokens < slots" "start \<le> n"
      "drop 0 (take n s) = concat (map (\<lambda>t. t @ take seplen sep) ts) @ drop start (take n s)"
      "\<forall>t \<in> set ts. \<not> sublist (take seplen sep) t" "\<not> sublist (take seplen sep) (drop start (take n s))"
    using split_loop_correct [OF refl assms(2-5), of "[]" 5 0 0 junk] by (simp only: list.size set_empty) fastforce
  have l: "n - start \<le> length (drop start s)" "n - start + 18 < 2 ^ 64" using assms by auto
  obtain t where t: "sdsnewlen junk (Init (drop start s)) (n - start) = Some t" "sds_ok t"
      "sds_str t = drop start (take n s)"
    using sdsnewlen_correct [OF l, of junk] by (auto simp: drop_take)
  have "sdssplitlen junk s (int n) sep (int seplen) = Some (Some (tokens @ [t]))"
    using assms r(1,4) t(1) by (simp add: sdssplitlen_def)
  moreover have "joined (take seplen sep) (map sds_str (tokens @ [t])) = take n s"
    using r(2,6) t(3) by (simp add: joined_snoc)
  ultimately show ?thesis using r t by (intro exI [of _ "tokens @ [t]"]) auto
qed

section \<open>Quoted representation\<close>

definition repr_byte :: "byte \<Rightarrow> bytes" where
  "repr_byte c =
     (if c = 92 \<or> c = 34 then [92, c] else if c = 10 then [92, 110] else if c = 13 then [92, 114]
      else if c = 9 then [92, 116] else if c = 7 then [92, 97] else if c = 8 then [92, 98]
      else if isprint c then [c] else [92, 120] @ hex02 c)"

definition quoted :: "bytes \<Rightarrow> bytes" where
  "quoted bs = 34 # concat (map repr_byte bs) @ [34]"

lemma length_repr_byte: "length (repr_byte c) \<le> 4"
  by (simp add: repr_byte_def hex02_def)

lemma repr_printf_correct:
  assumes "sds_ok s" and "sdslen s + length text \<le> sds_limit"
  shows "\<exists>s'. repr_printf junk s n text = Some s' \<and> sds_ok s' \<and> sds_str s' = sds_str s @ text"
  using sdscatvprintf_correct [OF assms, of junk n] by (auto simp: repr_printf_def)

lemma sdscatrepr_byte_correct:
  assumes "sds_ok s" and "sdslen s + 4 \<le> sds_limit"
  shows "\<exists>s'. sdscatrepr_byte junk s c = Some s' \<and> sds_ok s' \<and> sds_str s' = sds_str s @ repr_byte c"
proof -
  have p: "\<exists>s'. repr_printf junk s n t = Some s' \<and> sds_ok s' \<and> sds_str s' = sds_str s @ t" if "length t \<le> 4" for n t
    using repr_printf_correct [OF assms(1), of t] assms(2) that by simp
  have c: "\<exists>s'. sdscatlen junk s [a, b] 2 = Some s' \<and> sds_ok s' \<and> sds_str s' = sds_str s @ [a, b]" for a b
    using sdscatlen_append [OF assms(1), of 2 "[a, b]" junk] assms(2) by simp
  show ?thesis
    unfolding sdscatrepr_byte_def repr_byte_def using p c by (auto simp: hex02_def)
qed

lemma sdscatrepr_loop_correct:
  assumes "sds_ok s" and "i + n \<le> length p" and "sdslen s + 4 * n \<le> sds_limit"
  shows "\<exists>s'. sdscatrepr_loop junk s p i n = Some s' \<and> sds_ok s' \<and>
    sds_str s' = sds_str s @ concat (map repr_byte (take n (drop i p)))"
  using assms
proof (induction n arbitrary: s i)
  case (Suc n)
  have d: "drop i p = p ! i # drop (Suc i) p" using Suc.prems(2) by (simp add: Cons_nth_drop_Suc)
  obtain s1 where s1: "sdscatrepr_byte junk s (p ! i) = Some s1" "sds_ok s1" "sds_str s1 = sds_str s @ repr_byte (p ! i)"
    using sdscatrepr_byte_correct [of s junk "p ! i"] Suc.prems by auto
  have "sdslen s1 \<le> sdslen s + 4"
    using length_sds_str s1(2,3) Suc.prems(1) length_repr_byte [of "p ! i"] by (metis add_left_mono length_append)
  then show ?case using Suc.IH [OF s1(2), of "Suc i"] Suc.prems s1 d by (auto simp: mem_simps)
qed simp

lemma sdscatrepr_correct:
  assumes "sds_ok s" and "n \<le> length p" and "sdslen s + 4 * n + 2 \<le> sds_limit"
  shows "\<exists>s'. sdscatrepr junk s p n = Some s' \<and> sds_ok s' \<and> sds_str s' = sds_str s @ quoted (take n p)"
proof -
  obtain s1 where s1: "sdscatlen junk s [34] 1 = Some s1" "sds_ok s1" "sds_str s1 = sds_str s @ [34]"
    using sdscatlen_append [OF assms(1), of 1 "[34]" junk] assms(3) by auto
  have l1: "sdslen s1 = sdslen s + 1" using length_sds_str s1(2,3) assms(1) by (metis length_append length_Cons list.size(3) One_nat_def)
  obtain s2 where s2: "sdscatrepr_loop junk s1 p 0 n = Some s2" "sds_ok s2"
      "sds_str s2 = sds_str s1 @ concat (map repr_byte (take n p))"
    using sdscatrepr_loop_correct [OF s1(2), of 0 n p junk] assms(2,3) l1 by auto
  have "length (concat (map repr_byte bs)) \<le> 4 * length bs" for bs
    by (induction bs) (use length_repr_byte in \<open>auto simp: add_le_mono trans_le_add1 intro: add_le_mono\<close>)
  from this [of "take n p"] have "sdslen s2 + 1 \<le> sds_limit"
    using length_sds_str [OF s2(2)] length_sds_str [OF s1(2)] s2(3) l1 assms(2,3) by simp
  then show ?thesis
    using sdscatlen_append [OF s2(2), of 1 "[34]" junk] s1 s2 by (auto simp: sdscatrepr_def quoted_def)
qed

section \<open>Reading a quoted string back\<close>

lemma hex_range:
  assumes "n < 16"
  shows "(n :: nat) \<in> set [0, 1, 2, 3, 4, 5, 6, 7, 8, 9, 10, 11, 12, 13, 14, 15]"
proof -
  have "[0..<16] = [0, 1, 2, 3, 4, 5, 6, 7, 8, 9, 10, 11, 12, 13, 14, 15 :: nat]" by code_simp
  moreover have "n \<in> set [0..<16]" using assms by simp
  ultimately show ?thesis by simp
qed

lemma hex_char_digit:
  assumes "n < 16"
  shows "is_hex_digit (hex_char n) \<and> hex_digit_to_int (hex_char n) = n"
  using hex_range [OF assms]
  apply (simp only: set_simps insert_iff empty_iff simp_thms)
  apply (elim disjE)
  apply (simp_all only: is_hex_digit_def hex_digit_to_int_def hex_char_def)
  by simp_all

lemma mem_get_append:
  "mem_get (pre @ xs) (length pre) = mem_get xs 0" "mem_get (pre @ xs) (Suc (length pre)) = mem_get xs 1"
  "mem_get (pre @ xs) (Suc (Suc (length pre))) = mem_get xs 2"
  "mem_get (pre @ xs) (length pre + n) = mem_get xs n"
  by (simp_all add: mem_get_def nth_append eval_nat_numeral)

lemma mem_get_Cons:
  "mem_get (x # xs) 0 = Some x" "mem_get (x # xs) (Suc n) = mem_get xs n"
  "mem_get (x # xs) (numeral k) = mem_get xs (pred_numeral k)"
  by (simp_all add: mem_get_def numeral_eq_Suc)

lemmas line_simps = hex_escape_def mem_get_append mem_get_Cons

lemma split_token_repr:
  "split_token junk (pre @ repr_byte c @ rest) (length pre) True insq cur =
   do { cur \<leftarrow> sdscatlen junk cur [c] 1;
        split_token junk (pre @ repr_byte c @ rest) (length pre + length (repr_byte c)) True insq cur }"
proof -
  have "unat c < 16 * 16" using unsigned_less [of c] by simp
  then have u: "unat c div 16 < 16" "unat c mod 16 < 16" by (simp_all add: less_mult_imp_div_less)
  have q: "length pre + 4 = Suc (Suc (Suc (Suc (length pre))))" by simp
  have "of_nat (unat c div 16 * 16 + unat c mod 16) = c" by (subst div_mult_mod_eq) simp
  then have c: "of_nat (unat c div 16) * 16 + of_nat (unat c mod 16) = c" by (simp only: of_nat_add of_nat_mult of_nat_numeral)
  consider (esc) "c = 92 \<or> c = 34 \<or> c = 10 \<or> c = 13 \<or> c = 9 \<or> c = 7 \<or> c = 8"
    | (raw) "isprint c" "c \<noteq> 92" "c \<noteq> 34"
    | (hex) "c \<notin> {92, 34, 10, 13, 9, 7, 8}" "\<not> isprint c"
    by blast
  then show ?thesis
  proof cases
    case esc
    then show ?thesis
      by (subst split_token.simps)
         (auto simp: repr_byte_def line_simps unescape_def)
  next
    case raw
    then have "repr_byte c = [c]" "c \<noteq> 0" by (auto simp: repr_byte_def isprint_def)
    then show ?thesis
      using raw by (subst split_token.simps) (simp add: line_simps)
  next
    case hex
    then have "repr_byte c = [92, 120] @ hex02 c" by (simp add: repr_byte_def)
    then show ?thesis
      using hex_char_digit [OF u(1)] hex_char_digit [OF u(2)] c
      by (subst split_token.simps) (simp add: hex02_def line_simps q)
  qed
qed


lemma split_token_quoted:
  assumes "sds_ok cur" and "sdslen cur + length bs \<le> sds_limit" and "x = 0 \<or> isspace x"
  shows "\<exists>t. split_token junk (pre @ concat (map repr_byte bs) @ 34 # x # rest) (length pre) True insq cur =
      Some (Some (t, length pre + length (concat (map repr_byte bs)) + 1)) \<and> sds_ok t \<and> sds_str t = sds_str cur @ bs"
  using assms(1,2)
proof (induction bs arbitrary: pre cur)
  case Nil
  then show ?case
    using assms(3) by (subst split_token.simps) (auto simp: line_simps)
next
  case (Cons c bs)
  obtain t where t: "sdscatlen junk cur [c] 1 = Some t" "sds_ok t" "sds_str t = sds_str cur @ [c]"
    using sdscatlen_append [OF Cons.prems(1), of 1 "[c]" junk] Cons.prems(2) by auto
  have "sdslen t = sdslen cur + 1" using length_sds_str t(2,3) Cons.prems(1) by (metis length_append length_Cons list.size(3) One_nat_def)
  then obtain t' where "split_token junk ((pre @ repr_byte c) @ concat (map repr_byte bs) @ 34 # x # rest) (length (pre @ repr_byte c)) True insq t =
      Some (Some (t', length (pre @ repr_byte c) + length (concat (map repr_byte bs)) + 1))" "sds_ok t'" "sds_str t' = sds_str t @ bs"
    using Cons.IH [OF t(2), of "pre @ repr_byte c"] Cons.prems(2) by auto
  then show ?case
    using split_token_repr [of junk pre c "concat (map repr_byte bs) @ 34 # x # rest" insq cur] t
    by (auto simp: add.assoc)
qed

lemma sdssplitargs_quoted:
  assumes "length bs \<le> sds_limit"
  shows "\<exists>t. sdssplitargs junk (quoted bs @ 0 # rest) = Some (Some [t]) \<and> sds_ok t \<and> sds_str t = bs"
proof -
  let ?m = "concat (map repr_byte bs)"
  let ?line = "34 # ?m @ 34 # 0 # rest"
  obtain e where e: "sdsempty junk = Some e" "sds_ok e" "sds_str e = []" using sdsempty_correct by blast
  obtain t where t: "split_token junk ([34] @ ?m @ 34 # 0 # rest) (length [34 :: byte]) True False e =
      Some (Some (t, length [34 :: byte] + length ?m + 1))" "sds_ok t" "sds_str t = bs"
    using split_token_quoted [OF e(2), of bs 0 junk "[34]" rest False] e(3) length_sds_str [OF e(2)] assms by auto
  have first: "split_token junk ?line 0 False False e = Some (Some (t, length ?m + 2))"
    using t(1) by (subst split_token.simps) (simp add: mem_get_def)
  have "mem_get ?line (length ?m + 2) = Some 0" by (simp add: mem_get_def nth_append)
  then have "splitargs_loop junk ?line (length ?m + 2) [t] = Some (Some [t])"
    by (subst splitargs_loop.simps) (subst skip_blanks.simps, simp)
  moreover have "skip_blanks ?line 0 = Some 0" by (subst skip_blanks.simps) (simp add: mem_get_def isspace_def)
  ultimately have "splitargs_loop junk ?line 0 [] = Some (Some [t])"
    using first e(1) by (subst splitargs_loop.simps) (simp add: mem_get_def)
  then show ?thesis using t(2,3) by (simp add: sdssplitargs_def quoted_def)
qed

section \<open>Sequences of operations\<close>

datatype sds_op = Op_cat bytes | Op_cpy bytes | Op_grow nat | Op_range int int | Op_trim bytes | Op_clear
  | Op_lower | Op_upper | Op_compact | Op_dup

primrec run_sds_op :: "(nat \<Rightarrow> byte) \<Rightarrow> sds \<Rightarrow> sds_op \<Rightarrow> sds option" where
  "run_sds_op junk s (Op_cat t) = sdscatlen junk s t (length t)"
| "run_sds_op junk s (Op_cpy t) = sdscpylen junk s t (length t)"
| "run_sds_op junk s (Op_grow n) = sdsgrowzero junk s n"
| "run_sds_op junk s (Op_range a b) = sdsrange s a b"
| "run_sds_op junk s (Op_trim cs) = sdstrim s (cs @ [0])"
| "run_sds_op junk s Op_clear = sdsclear s"
| "run_sds_op junk s Op_lower = sdstolower s"
| "run_sds_op junk s Op_upper = sdstoupper s"
| "run_sds_op junk s Op_compact = sdsRemoveFreeSpace junk s"
| "run_sds_op junk s Op_dup = sdsdup junk s"

text \<open>What each operation is on the byte string.\<close>

primrec str_op :: "bytes \<Rightarrow> sds_op \<Rightarrow> bytes" where
  "str_op bs (Op_cat t) = bs @ t"
| "str_op bs (Op_cpy t) = t"
| "str_op bs (Op_grow n) = bs @ replicate (n - length bs) 0"
| "str_op bs (Op_range a b) = sub_range bs a b"
| "str_op bs (Op_trim cs) = strip (trimmed cs) bs"
| "str_op bs Op_clear = []"
| "str_op bs Op_lower = map tolower_byte bs"
| "str_op bs Op_upper = map toupper_byte bs"
| "str_op bs Op_compact = bs"
| "str_op bs Op_dup = bs"

text \<open>Arguments in the range of their C types, and strings of at most \<open>2 ^ 62\<close> bytes.\<close>

primrec op_fits :: "sds_op \<Rightarrow> bool" where
  "op_fits (Op_cat t) = (length t \<le> 2 ^ 62)"
| "op_fits (Op_cpy t) = (length t \<le> 2 ^ 62)"
| "op_fits (Op_grow n) = (n \<le> 2 ^ 62)"
| "op_fits (Op_range a b) = (int64_range a \<and> int64_range b)"
| "op_fits (Op_trim cs) = (0 \<notin> set cs)"
| "op_fits Op_clear = True"
| "op_fits Op_lower = True"
| "op_fits Op_upper = True"
| "op_fits Op_compact = True"
| "op_fits Op_dup = True"

primrec run_sds :: "(nat \<Rightarrow> byte) \<Rightarrow> sds \<Rightarrow> sds_op list \<Rightarrow> sds option" where
  "run_sds junk s [] = Some s"
| "run_sds junk s (op # ops) = do { s \<leftarrow> run_sds_op junk s op; run_sds junk s ops }"

primrec ops_fit :: "bytes \<Rightarrow> sds_op list \<Rightarrow> bool" where
  "ops_fit bs [] = (length bs \<le> 2 ^ 62)"
| "ops_fit bs (op # ops) = (length bs \<le> 2 ^ 62 \<and> op_fits op \<and> ops_fit (str_op bs op) ops)"

lemma run_sds_op_correct:
  assumes ok: "sds_ok s" and l: "length (sds_str s) \<le> 2 ^ 62" and f: "op_fits op"
  shows "\<exists>s'. run_sds_op junk s op = Some s' \<and> sds_ok s' \<and> sds_str s' = str_op (sds_str s) op"
proof -
  have sl: "sdslen s \<le> 2 ^ 62" "length (sds_str s) = sdslen s" using length_sds_str [OF ok] l by simp_all
  show ?thesis
  proof (cases op)
    case (Op_cat t)
    then show ?thesis using sdscatlen_correct [OF ok, of "length t" t junk] f sl by simp
  next
    case (Op_cpy t)
    then show ?thesis using sdscpylen_correct [OF ok, of "length t" t junk] f by simp
  next
    case (Op_grow n)
    then show ?thesis using sdsgrowzero_correct [OF ok, of n junk] f sl by simp
  next
    case (Op_range a b)
    then show ?thesis using sdsrange_correct [OF ok, of a b] f sl by simp
  next
    case (Op_trim cs)
    then show ?thesis using sdstrim_correct [OF ok, of cs "[]"] f by simp
  next
    case Op_compact
    then show ?thesis using sdsRemoveFreeSpace_correct [OF ok, of junk] sl by fastforce
  next
    case Op_dup
    then show ?thesis using sdsdup_correct [OF ok, of junk] sl by simp
  qed (simp_all add: sdsclear_correct sdstolower_correct sdstoupper_correct ok)
qed

lemma run_sds_correct:
  assumes "sds_ok s" and "ops_fit (sds_str s) ops"
  shows "\<exists>s'. run_sds junk s ops = Some s' \<and> sds_ok s' \<and> sds_str s' = foldl str_op (sds_str s) ops"
  using assms
proof (induction ops arbitrary: s)
  case (Cons op ops)
  obtain s1 where s1: "run_sds_op junk s op = Some s1" "sds_ok s1" "sds_str s1 = str_op (sds_str s) op"
    using run_sds_op_correct [of s op junk] Cons.prems by auto
  then show ?case using Cons.IH [of s1] Cons.prems by simp
qed simp

section \<open>An example string\<close>

definition hi_sds :: sds where
  "hi_sds = \<lparr>sh_type = 1, sh_len = 2, sh_alloc = 4, sh_buf = [104, 105, 0, 7, 7]\<rparr>"

lemma hi_sds_ok: "sds_ok hi_sds" and hi_sds_str: "sds_str hi_sds = [104, 105]" and hi_sds_len: "sdslen hi_sds = 2"
  by (simp_all add: hi_sds_def sds_ok_def sds_wf_def sds_bits_def sds_str_def sdslen_def)

section \<open>Properties\<close>

text \<open>C5: Every sequence of appending, copying, zero-filling, cutting a range, trimming, clearing, changing case,
  compacting and duplicating, on a well-formed string and with lengths up to \<open>2 ^ 62\<close>, stays inside the
  allocated memory, keeps the string well-formed and has the effect of the sequence on the byte
  string, whatever the header type and the spare room are.\<close>

theorem sds_ops_correct:
  assumes "sds_ok s" and "ops_fit (sds_str s) ops"
  shows "\<exists>s'. run_sds junk s ops = Some s' \<and> sds_ok s' \<and> sds_str s' = foldl str_op (sds_str s) ops"
  using assms by (rule run_sds_correct)

theorem sds_ops_correct_witness:
  "\<exists>s'. run_sds (\<lambda>_. 0) hi_sds [Op_cat [33], Op_range 1 (- 1), Op_upper, Op_compact] = Some s' \<and> sds_ok s' \<and>
    sds_str s' = [73, 33]"
proof -
  have "ops_fit (sds_str hi_sds) [Op_cat [33], Op_range 1 (- 1), Op_upper, Op_compact]"
    by (simp add: hi_sds_str sub_range_def range_bound_def int64_range_def)
  from sds_ops_correct [OF hi_sds_ok this, of "\<lambda>_. 0"] show ?thesis
    by (simp add: hi_sds_str sub_range_def range_bound_def toupper_byte_def)
qed

text \<open>\<open>sdsMakeRoomFor\<close> keeps the string and leaves room for \<open>addlen\<close> bytes after it, if the new size does not
  overflow.\<close>

theorem sdsMakeRoomFor_room:
  assumes "sds_ok s" and "sdslen s + addlen + 2 ^ 20 + 18 < 2 ^ 64"
  shows "\<exists>s'. sdsMakeRoomFor junk s addlen = Some s' \<and> sds_ok s' \<and> sds_str s' = sds_str s \<and>
    addlen \<le> sdsavail s' \<and> sdslen s + addlen < length (sh_buf s')"
proof -
  obtain s' where s': "sdsMakeRoomFor junk s addlen = Some s'" "sds_ok s'" "grown s addlen s'"
    using sdsMakeRoomFor_grown [OF assms] by blast
  then show ?thesis using sds_ok_alloc [OF s'(2)] by (auto simp: grown_def sdslen_def)
qed

theorem sdsMakeRoomFor_room_witness:
  "\<exists>s'. sdsMakeRoomFor (\<lambda>_. 0) hi_sds 300 = Some s' \<and> sds_str s' = [104, 105] \<and> 300 \<le> sdsavail s'"
  using sdsMakeRoomFor_room [OF hi_sds_ok, of 300 "\<lambda>_. 0"] by (auto simp: hi_sds_len hi_sds_str)


text \<open>\<open>sdsrange\<close> leaves the bytes from \<open>start\<close> to \<open>end\<close>, both included; negative positions count from the end and stop
  at the first byte, and positions after the end are cut.\<close>

theorem sdsrange_substring:
  assumes "sds_ok s" and "sdslen s < 2 ^ 63" and "int64_range start" and "int64_range e"
  shows "\<exists>s'. sdsrange s start e = Some s' \<and> sds_ok s' \<and> sds_str s' = sub_range (sds_str s) start e"
  using assms by (rule sdsrange_correct)

theorem sdsrange_substring_witness: "\<exists>s'. sdsrange hi_sds (- 1) 7 = Some s' \<and> sds_str s' = [105]"
  using sdsrange_substring [OF hi_sds_ok, of "- 1" 7]
  by (auto simp: hi_sds_str hi_sds_len int64_range_def sub_range_def range_bound_def)

text \<open>\<open>sdscmp\<close> is the lexicographic order of the unsigned bytes.\<close>

theorem sdscmp_lexicographic:
  assumes "sds_ok s1" and "sds_ok s2"
  shows "\<exists>c. sdscmp s1 s2 = Some c \<and> (c < 0 \<longleftrightarrow> ord_class.lexordp (sds_str s1) (sds_str s2)) \<and>
    (c = 0 \<longleftrightarrow> sds_str s1 = sds_str s2) \<and> (0 < c \<longleftrightarrow> ord_class.lexordp (sds_str s2) (sds_str s1))"
  using assms by (rule sdscmp_eq)

theorem sdscmp_lexicographic_witness: "sdscmp hi_sds hi_sds = Some 0"
  using sdscmp_lexicographic [OF hi_sds_ok hi_sds_ok] by auto

text \<open>C23: \<open>sdssplitlen\<close> cuts a string at the separator: no token contains it, and \<open>sdsjoinsds\<close> with the same separator
  gives the string back.\<close>

theorem sdssplitlen_join:
  assumes "0 < n" "n \<le> length s" "n < 2 ^ 29" and "0 < seplen" "seplen \<le> length sep"
  shows "\<exists>tokens r. sdssplitlen junk s (int n) sep (int seplen) = Some (Some tokens) \<and>
    (\<forall>t \<in> set tokens. sds_ok t \<and> \<not> sublist (take seplen sep) (sds_str t)) \<and>
    sdsjoinsds junk tokens sep seplen = Some r \<and> sds_ok r \<and> sds_str r = take n s"
proof -
  obtain tokens where t: "sdssplitlen junk s (int n) sep (int seplen) = Some (Some tokens)" "\<forall>t \<in> set tokens. sds_ok t"
      "joined (take seplen sep) (map sds_str tokens) = take n s" "\<forall>t \<in> set tokens. \<not> sublist (take seplen sep) (sds_str t)"
    using sdssplitlen_correct [OF assms] by blast
  have "length (joined (take seplen sep) (map sds_str tokens)) \<le> sds_limit" using t(3) assms(2,3) by simp
  from sdsjoinsds_correct [OF t(2) assms(5) this] show ?thesis using t by metis
qed

theorem sdssplitlen_join_witness:
  "\<exists>tokens r. sdssplitlen (\<lambda>_. 0) [97, 44, 98] 3 [44] 1 = Some (Some tokens) \<and> sdsjoinsds (\<lambda>_. 0) tokens [44] 1 = Some r \<and>
    sds_str r = [97, 44, 98]"
  using sdssplitlen_join [of 3 "[97, 44, 98]" 1 "[44]" "\<lambda>_. 0"] by auto

text \<open>C22: \<open>sdscatrepr\<close> and \<open>sdssplitargs\<close> are inverse: the quoted representation of any bytes is read back as
  one argument with just these bytes.\<close>

theorem sdscatrepr_splitargs:
  assumes "sds_ok s" and "sds_str s = []" and "n \<le> length p" and "n \<le> 2 ^ 60"
  shows "\<exists>s' t. sdscatrepr junk s p n = Some s' \<and> sdssplitargs junk (sh_buf s') = Some (Some [t]) \<and> sds_ok t \<and>
    sds_str t = take n p"
proof -
  have "sdslen s = 0" using length_sds_str [OF assms(1)] assms(2) by simp
  then obtain s' where s': "sdscatrepr junk s p n = Some s'" "sds_ok s'" "sds_str s' = quoted (take n p)"
    using sdscatrepr_correct [OF assms(1,3), of junk] assms(2,4) by auto
  have "sh_len s' < length (sh_buf s')" "sh_buf s' ! sh_len s' = 0" using s'(2) by (auto simp: sds_ok_def sds_wf_def)
  then have "sh_buf s' = quoted (take n p) @ 0 # drop (Suc (sh_len s')) (sh_buf s')"
    using s'(3) by (metis Cons_nth_drop_Suc append_take_drop_id sds_str_def)
  moreover have "length (take n p) \<le> sds_limit" using assms(4) by simp
  ultimately show ?thesis using sdssplitargs_quoted [of "take n p" junk "drop (Suc (sh_len s')) (sh_buf s')"] s'(1) by metis
qed

theorem sdscatrepr_splitargs_witness:
  "\<exists>s s' t. sdsempty (\<lambda>_. 0) = Some s \<and> sdscatrepr (\<lambda>_. 0) s [34, 0, 65] 3 = Some s' \<and>
    sdssplitargs (\<lambda>_. 0) (sh_buf s') = Some (Some [t]) \<and> sds_str t = [34, 0, 65]"
proof -
  obtain s where s: "sdsempty (\<lambda>_. 0) = Some s" "sds_ok s" "sds_str s = []" using sdsempty_correct by blast
  show ?thesis using sdscatrepr_splitargs [OF s(2,3), of 3 "[34, 0, 65]" "\<lambda>_. 0"] s(1) by auto
qed




text \<open>C32: \<open>sdstrim\<close> removes from both ends the bytes of \<open>cset\<close> and also every zero byte, because \<open>strchr\<close> finds the
  terminator of \<open>cset\<close>.\<close>

theorem sdstrim_strips:
  assumes "sds_ok s" and "0 \<notin> set cs"
  shows "\<exists>s'. sdstrim s (cs @ [0]) = Some s' \<and> sds_ok s' \<and> sds_str s' = strip (\<lambda>c. c = 0 \<or> c \<in> set cs) (sds_str s)"
  using sdstrim_correct [OF assms, of "[]"] by (simp add: trimmed_def [abs_def])

theorem sdstrim_strips_witness: "\<exists>s'. sdstrim hi_sds [105, 0] = Some s' \<and> sds_str s' = [104]"
  using sdstrim_strips [OF hi_sds_ok, of "[105]"] by (auto simp: hi_sds_str strip_def)

end
