(* ===== verification/Adlist.thy ===== *)
theory Adlist
  imports Redis_Prelude
begin

text \<open>
  The doubly linked list of \<open>adlist.h\<close> and \<open>adlist.c\<close>, on an explicit store of nodes: a heap maps the address of every
  allocated node to its record, a null pointer is \<open>None\<close>, and an operation that reads or writes through a null pointer
  or a freed node has the value \<open>None\<close>. The result of \<open>zmalloc\<close> is an argument of the operations, the address of a node
  that is not in use. The values are those of a type variable; the methods \<open>dup\<close> and \<open>match\<close> are functions on them, and of
  the method \<open>free\<close> the model keeps which values it is called on. The locale \<open>value_sequence\<close> is the interface of a
  sequence of values, with the list as its instance.
\<close>

unbundle bit_operations_syntax

section \<open>Definitions\<close>

record 'v listNode =
  nprev :: "nat option"
  nnext :: "nat option"
  nvalue :: 'v

type_synonym 'v node_heap = "nat \<rightharpoonup> 'v listNode"

record 'v alist =
  lhead :: "nat option"
  ltail :: "nat option"
  ldup :: "('v \<Rightarrow> 'v option) option"
  lfree :: bool
  lmatch :: "('v \<Rightarrow> 'v \<Rightarrow> bool) option"
  llen :: nat

text \<open>Assignments to a field of the node at an address; \<open>None\<close> if there is no node.\<close>

definition set_prev :: "'v node_heap \<Rightarrow> nat \<Rightarrow> nat option \<Rightarrow> 'v node_heap option" where
  "set_prev h a p = map_option (\<lambda>n. h(a \<mapsto> n\<lparr>nprev := p\<rparr>)) (h a)"

definition set_next :: "'v node_heap \<Rightarrow> nat \<Rightarrow> nat option \<Rightarrow> 'v node_heap option" where
  "set_next h a q = map_option (\<lambda>n. h(a \<mapsto> n\<lparr>nnext := q\<rparr>)) (h a)"

definition listCreate :: "'v alist" where
  "listCreate = \<lparr>lhead = None, ltail = None, ldup = None, lfree = False, lmatch = None, llen = 0\<rparr>"

text \<open>
  The loop of \<open>listEmpty\<close>: the heap without the released nodes and the values given to the method \<open>free\<close>.
\<close>

primrec listEmpty_loop :: "'v node_heap \<Rightarrow> bool \<Rightarrow> nat \<Rightarrow> nat option \<Rightarrow> 'v list \<Rightarrow> ('v node_heap \<times> 'v list) option" where
  "listEmpty_loop h free 0 current freed = Some (h, freed)"
| "listEmpty_loop h free (Suc len) current freed =
     do { a \<leftarrow> current;
          n \<leftarrow> h a;
          listEmpty_loop (h(a := None)) free len (nnext n) (if free then freed @ [nvalue n] else freed) }"

definition listEmpty :: "'v node_heap \<Rightarrow> 'v alist \<Rightarrow> ('v node_heap \<times> 'v alist \<times> 'v list) option" where
  "listEmpty h l =
     do { (h, freed) \<leftarrow> listEmpty_loop h (lfree l) (llen l) (lhead l) [];
          Some (h, l\<lparr>lhead := None, ltail := None, llen := 0\<rparr>, freed) }"

definition listRelease :: "'v node_heap \<Rightarrow> 'v alist \<Rightarrow> ('v node_heap \<times> 'v list) option" where
  "listRelease h l = do { (h, l, freed) \<leftarrow> listEmpty h l; Some (h, freed) }"

text \<open>The address of the new node, the result of \<open>zmalloc\<close>, is the argument \<open>node\<close>.\<close>

definition listAddNodeHead :: "nat \<Rightarrow> 'v node_heap \<Rightarrow> 'v alist \<Rightarrow> 'v \<Rightarrow> ('v node_heap \<times> 'v alist) option" where
  "listAddNodeHead node h l v =
     (if llen l = 0 then
        Some (h(node \<mapsto> \<lparr>nprev = None, nnext = None, nvalue = v\<rparr>),
              l\<lparr>lhead := Some node, ltail := Some node, llen := u64 (llen l + 1)\<rparr>)
      else do { hd \<leftarrow> lhead l;
                h \<leftarrow> set_prev (h(node \<mapsto> \<lparr>nprev = None, nnext = Some hd, nvalue = v\<rparr>)) hd (Some node);
                Some (h, l\<lparr>lhead := Some node, llen := u64 (llen l + 1)\<rparr>) })"

definition listAddNodeTail :: "nat \<Rightarrow> 'v node_heap \<Rightarrow> 'v alist \<Rightarrow> 'v \<Rightarrow> ('v node_heap \<times> 'v alist) option" where
  "listAddNodeTail node h l v =
     (if llen l = 0 then
        Some (h(node \<mapsto> \<lparr>nprev = None, nnext = None, nvalue = v\<rparr>),
              l\<lparr>lhead := Some node, ltail := Some node, llen := u64 (llen l + 1)\<rparr>)
      else do { tl \<leftarrow> ltail l;
                h \<leftarrow> set_next (h(node \<mapsto> \<lparr>nprev = Some tl, nnext = None, nvalue = v\<rparr>)) tl (Some node);
                Some (h, l\<lparr>ltail := Some node, llen := u64 (llen l + 1)\<rparr>) })"

definition listInsertNode :: "nat \<Rightarrow> 'v node_heap \<Rightarrow> 'v alist \<Rightarrow> nat \<Rightarrow> 'v \<Rightarrow> bool \<Rightarrow> ('v node_heap \<times> 'v alist) option" where
  "listInsertNode node h l old_node v after =
     do { old \<leftarrow> h old_node;
          let n = (if after then \<lparr>nprev = Some old_node, nnext = nnext old, nvalue = v\<rparr>
                   else \<lparr>nprev = nprev old, nnext = Some old_node, nvalue = v\<rparr>);
          let l = (if after \<and> ltail l = Some old_node then l\<lparr>ltail := Some node\<rparr>
                   else if \<not> after \<and> lhead l = Some old_node then l\<lparr>lhead := Some node\<rparr> else l);
          h \<leftarrow> Some (h(node \<mapsto> n));
          h \<leftarrow> (case nprev n of Some p \<Rightarrow> set_next h p (Some node) | None \<Rightarrow> Some h);
          h \<leftarrow> (case nnext n of Some q \<Rightarrow> set_prev h q (Some node) | None \<Rightarrow> Some h);
          Some (h, l\<lparr>llen := u64 (llen l + 1)\<rparr>) }"

text \<open>The last component is the value given to the method \<open>free\<close>, if there is one.\<close>

definition listDelNode :: "'v node_heap \<Rightarrow> 'v alist \<Rightarrow> nat \<Rightarrow> ('v node_heap \<times> 'v alist \<times> 'v list) option" where
  "listDelNode h l node =
     do { n \<leftarrow> h node;
          (h, l) \<leftarrow> (case nprev n of
                        Some p \<Rightarrow> do { h \<leftarrow> set_next h p (nnext n); Some (h, l) }
                      | None \<Rightarrow> Some (h, l\<lparr>lhead := nnext n\<rparr>));
          n \<leftarrow> h node;
          (h, l) \<leftarrow> (case nnext n of
                        Some q \<Rightarrow> do { h \<leftarrow> set_prev h q (nprev n); Some (h, l) }
                      | None \<Rightarrow> Some (h, l\<lparr>ltail := nprev n\<rparr>));
          n \<leftarrow> h node;
          Some (h(node := None), l\<lparr>llen := u64_sub (llen l) 1\<rparr>, if lfree l then [nvalue n] else []) }"

section \<open>Iterators\<close>

record listIter =
  inext :: "nat option"
  from_head :: bool

definition listGetIterator :: "'v alist \<Rightarrow> bool \<Rightarrow> listIter" where
  "listGetIterator l start_head = \<lparr>inext = (if start_head then lhead l else ltail l), from_head = start_head\<rparr>"

definition listRewind :: "'v alist \<Rightarrow> listIter" where
  "listRewind l = \<lparr>inext = lhead l, from_head = True\<rparr>"

definition listRewindTail :: "'v alist \<Rightarrow> listIter" where
  "listRewindTail l = \<lparr>inext = ltail l, from_head = False\<rparr>"

definition listNext :: "'v node_heap \<Rightarrow> listIter \<Rightarrow> (listIter \<times> nat option) option" where
  "listNext h iter =
     (case inext iter of
        None \<Rightarrow> Some (iter, None)
      | Some current \<Rightarrow>
          do { n \<leftarrow> h current;
               Some (iter\<lparr>inext := (if from_head iter then nnext n else nprev n)\<rparr>, Some current) })"

text \<open>
  The loop of \<open>listDup\<close>, with the addresses of the new nodes from the allocator \<open>alloc\<close>. The inner \<open>None\<close> is the
  result \<open>NULL\<close> when the method \<open>dup\<close> fails; then the copy is released.
\<close>

partial_function (option) listDup_loop :: "('v node_heap \<Rightarrow> nat) \<Rightarrow> 'v node_heap \<Rightarrow> listIter \<Rightarrow> 'v alist \<Rightarrow>
    ('v node_heap \<times> 'v alist option) option" where
  "listDup_loop alloc h iter copy =
     Option.bind (listNext h iter) (\<lambda>(iter, node).
       case node of
         None \<Rightarrow> Some (h, Some copy)
       | Some a \<Rightarrow>
          Option.bind (h a) (\<lambda>n.
            case (case ldup copy of Some dup \<Rightarrow> dup (nvalue n) | None \<Rightarrow> Some (nvalue n)) of
              None \<Rightarrow> Option.bind (listRelease h copy) (\<lambda>(h, freed). Some (h, None))
            | Some v \<Rightarrow>
               Option.bind (listAddNodeTail (alloc h) h copy v) (\<lambda>(h, copy).
                 listDup_loop alloc h iter copy)))"

definition listDup :: "('v node_heap \<Rightarrow> nat) \<Rightarrow> 'v node_heap \<Rightarrow> 'v alist \<Rightarrow> ('v node_heap \<times> 'v alist option) option" where
  "listDup alloc h orig =
     listDup_loop alloc h (listRewind orig)
       (listCreate\<lparr>ldup := ldup orig, lfree := lfree orig, lmatch := lmatch orig\<rparr>)"

partial_function (option) listSearchKey_loop :: "'v node_heap \<Rightarrow> 'v alist \<Rightarrow> listIter \<Rightarrow> 'v \<Rightarrow> nat option option" where
  "listSearchKey_loop h l iter key =
     Option.bind (listNext h iter) (\<lambda>(iter, node).
       case node of
         None \<Rightarrow> Some None
       | Some a \<Rightarrow>
          Option.bind (h a) (\<lambda>n.
            if (case lmatch l of Some match \<Rightarrow> match (nvalue n) key | None \<Rightarrow> key = nvalue n) then Some (Some a)
            else listSearchKey_loop h l iter key))"

definition listSearchKey :: "'v node_heap \<Rightarrow> 'v alist \<Rightarrow> 'v \<Rightarrow> nat option option" where
  "listSearchKey h l key = listSearchKey_loop h l (listRewind l) key"

text \<open>The loops \<open>while(index-- && n)\<close>.\<close>

fun listIndex_loop :: "('v listNode \<Rightarrow> nat option) \<Rightarrow> 'v node_heap \<Rightarrow> nat \<Rightarrow> nat option \<Rightarrow> nat option option" where
  "listIndex_loop step h (Suc i) (Some a) = do { n \<leftarrow> h a; listIndex_loop step h i (step n) }"
| "listIndex_loop step h i p = Some p"

definition listIndex :: "'v node_heap \<Rightarrow> 'v alist \<Rightarrow> int \<Rightarrow> nat option option" where
  "listIndex h l index =
     (if index < 0 then listIndex_loop nprev h (nat (- index - 1)) (ltail l)
      else listIndex_loop nnext h (nat index) (lhead l))"

section \<open>Rotation and concatenation\<close>

definition listRotateTailToHead :: "'v node_heap \<Rightarrow> 'v alist \<Rightarrow> ('v node_heap \<times> 'v alist) option" where
  "listRotateTailToHead h l =
     (if llen l \<le> 1 then Some (h, l)
      else do { tail \<leftarrow> ltail l;
                n \<leftarrow> h tail;
                l \<leftarrow> Some (l\<lparr>ltail := nprev n\<rparr>);
                t \<leftarrow> ltail l;
                h \<leftarrow> set_next h t None;
                hd \<leftarrow> lhead l;
                h \<leftarrow> set_prev h hd (Some tail);
                h \<leftarrow> set_prev h tail None;
                h \<leftarrow> set_next h tail (lhead l);
                Some (h, l\<lparr>lhead := Some tail\<rparr>) })"

definition listRotateHeadToTail :: "'v node_heap \<Rightarrow> 'v alist \<Rightarrow> ('v node_heap \<times> 'v alist) option" where
  "listRotateHeadToTail h l =
     (if llen l \<le> 1 then Some (h, l)
      else do { head \<leftarrow> lhead l;
                n \<leftarrow> h head;
                l \<leftarrow> Some (l\<lparr>lhead := nnext n\<rparr>);
                hd \<leftarrow> lhead l;
                h \<leftarrow> set_prev h hd None;
                t \<leftarrow> ltail l;
                h \<leftarrow> set_next h t (Some head);
                h \<leftarrow> set_next h head None;
                h \<leftarrow> set_prev h head (ltail l);
                Some (h, l\<lparr>ltail := Some head\<rparr>) })"

definition listJoin :: "'v node_heap \<Rightarrow> 'v alist \<Rightarrow> 'v alist \<Rightarrow> ('v node_heap \<times> 'v alist \<times> 'v alist) option" where
  "listJoin h l ol =
     do { h \<leftarrow> (case lhead ol of Some a \<Rightarrow> set_prev h a (ltail l) | None \<Rightarrow> Some h);
          (h, l) \<leftarrow> (case ltail l of
                        Some t \<Rightarrow> do { h \<leftarrow> set_next h t (lhead ol); Some (h, l) }
                      | None \<Rightarrow> Some (h, l\<lparr>lhead := lhead ol\<rparr>));
          let l = (if ltail ol \<noteq> None then l\<lparr>ltail := ltail ol\<rparr> else l);
          Some (h, l\<lparr>llen := u64 (llen l + llen ol)\<rparr>, ol\<lparr>lhead := None, ltail := None, llen := 0\<rparr>) }"

section \<open>Representation\<close>

text \<open>
  \<open>links h p as q\<close>: the nodes at the addresses \<open>as\<close> are linked in this order, the first one has the predecessor \<open>p\<close>
  and the last one the successor \<open>q\<close>.
\<close>

definition first_of :: "nat list \<Rightarrow> nat option \<Rightarrow> nat option" where
  "first_of as q = (case as of [] \<Rightarrow> q | a # _ \<Rightarrow> Some a)"

definition last_of :: "nat list \<Rightarrow> nat option \<Rightarrow> nat option" where
  "last_of as p = (if as = [] then p else Some (last as))"

primrec links :: "'v node_heap \<Rightarrow> nat option \<Rightarrow> nat list \<Rightarrow> nat option \<Rightarrow> bool" where
  "links h p [] q \<longleftrightarrow> True"
| "links h p (a # as) q \<longleftrightarrow>
     (\<exists>n. h a = Some n \<and> nprev n = p \<and> nnext n = first_of as q) \<and> links h (Some a) as q"

lemma first_of_simps [simp]: "first_of [] q = q" "first_of (a # as) q = Some a"
  "first_of (as @ bs) q = first_of as (first_of bs q)"
  by (auto simp: first_of_def split: list.split)

lemma last_of_simps [simp]: "last_of [] p = p" "last_of (a # as) p = last_of as (Some a)"
  "last_of (as @ bs) p = last_of bs (last_of as p)"
  by (auto simp: last_of_def)

lemma links_append: "links h p (as @ bs) q \<longleftrightarrow> links h p as (first_of bs q) \<and> links h (last_of as p) bs q"
  by (induction as arbitrary: p) auto

lemma links_upd [simp]: "a \<notin> set as \<Longrightarrow> links (h(a := x)) p as q = links h p as q"
  by (induction as arbitrary: p) auto

text \<open>A list that stands for the addresses \<open>as\<close>, and its values.\<close>

definition dll :: "'v node_heap \<Rightarrow> 'v alist \<Rightarrow> nat list \<Rightarrow> bool" where
  "dll h l as \<longleftrightarrow> distinct as \<and> links h None as None \<and> lhead l = first_of as None \<and> ltail l = last_of as None \<and>
     llen l = length as \<and> length as < 2 ^ 64"

definition node_vals :: "'v node_heap \<Rightarrow> nat list \<Rightarrow> 'v list" where
  "node_vals h as = map (\<lambda>a. nvalue (the (h a))) as"

lemma node_vals_simps [simp]: "node_vals h [] = []" "node_vals h (a # as) = nvalue (the (h a)) # node_vals h as"
  "node_vals h (as @ bs) = node_vals h as @ node_vals h bs"
  by (simp_all add: node_vals_def)

lemma node_vals_upd [simp]: "a \<notin> set as \<Longrightarrow> node_vals (h(a := x)) as = node_vals h as"
  by (auto simp: node_vals_def)

section \<open>Correctness of the operations\<close>

lemma first_of_notin: "a \<notin> set as \<Longrightarrow> q \<noteq> Some a \<Longrightarrow> first_of as q \<noteq> Some a"
  by (cases as) auto

lemma links_mem: "links h p as q \<Longrightarrow> a \<in> set as \<Longrightarrow> \<exists>n. h a = Some n"
  by (induction as arbitrary: p) auto

lemma links_dom: "links h p as q \<Longrightarrow> set as \<subseteq> dom h"
  using links_mem by fastforce

lemma links_frame: "(\<And>b. b \<in> set as \<Longrightarrow> h' b = h b) \<Longrightarrow> links h' p as q = links h p as q"
  by (induction as arbitrary: p) auto

lemma node_vals_frame: "(\<And>b. b \<in> set as \<Longrightarrow> h' b = h b) \<Longrightarrow> node_vals h' as = node_vals h as"
  by (simp add: node_vals_def)

lemma set_prev_first:
  assumes "links h p (a # as) q" "a \<notin> set as"
  obtains h' where "set_prev h a p' = Some h'" "links h' p' (a # as) q" "node_vals h' (a # as) = node_vals h (a # as)"
    "\<And>b. b \<noteq> a \<Longrightarrow> h' b = h b"
  using assms that by (auto simp: set_prev_def)

lemma set_next_last:
  assumes "links h p (as @ [a]) q" "a \<notin> set as"
  obtains h' where "set_next h a q' = Some h'" "links h' p (as @ [a]) q'"
    "node_vals h' (as @ [a]) = node_vals h (as @ [a])" "\<And>b. b \<noteq> a \<Longrightarrow> h' b = h b"
  using assms that by (auto simp: set_next_def links_append)

lemma listCreate_dll: "dll h listCreate []"
  by (simp add: dll_def listCreate_def)

lemma listEmpty_loop_correct:
  "links h p as q \<Longrightarrow> distinct as \<Longrightarrow>
   listEmpty_loop h fr (length as) (first_of as q) acc =
     Some (h |` (- set as), if fr then acc @ node_vals h as else acc)"
proof (induction as arbitrary: h p acc)
  case (Cons a as)
  then obtain n where n: "h a = Some n" "nnext n = first_of as q" "links h (Some a) as q" "a \<notin> set as"
    by auto
  have "(h(a := None)) |` (- set as) = h |` (- set (a # as))"
    by (auto simp: restrict_map_def)
  moreover have "listEmpty_loop (h(a := None)) fr (length as) (first_of as q) acc' =
      Some ((h(a := None)) |` (- set as), if fr then acc' @ node_vals h as else acc')" for acc'
    using Cons.IH [of "h(a := None)" "Some a" acc'] Cons.prems n by (simp del: fun_upd_apply)
  ultimately show ?case
    using n by (simp del: fun_upd_apply restrict_fun_upd)
qed (simp add: restrict_map_def)

lemma listEmpty_correct:
  "dll h l as \<Longrightarrow> listEmpty h l =
     Some (h |` (- set as), l\<lparr>lhead := None, ltail := None, llen := 0\<rparr>, if lfree l then node_vals h as else [])"
  by (auto simp: listEmpty_def dll_def listEmpty_loop_correct)

lemma listRelease_correct:
  "dll h l as \<Longrightarrow> listRelease h l = Some (h |` (- set as), if lfree l then node_vals h as else [])"
  by (simp add: listRelease_def listEmpty_correct)

lemma u64_small: "n < 2 ^ 64 \<Longrightarrow> u64 n = n"
  by (simp add: u64_def)

definition list_methods :: "'v alist \<Rightarrow> ('v \<Rightarrow> 'v option) option \<times> bool \<times> ('v \<Rightarrow> 'v \<Rightarrow> bool) option" where
  "list_methods l = (ldup l, lfree l, lmatch l)"

text \<open>
  What an operation that turns the list of the addresses \<open>as\<close> into one of the addresses \<open>bs\<close> guarantees: the values,
  the methods, the allocated nodes, and every node that is in neither of the lists.
\<close>

definition dll_step :: "'v node_heap \<Rightarrow> 'v alist \<Rightarrow> nat list \<Rightarrow> 'v node_heap \<Rightarrow> 'v alist \<Rightarrow> nat list \<Rightarrow> 'v list \<Rightarrow> bool" where
  "dll_step h l as h' l' bs vs \<longleftrightarrow> dll h' l' bs \<and> node_vals h' bs = vs \<and> list_methods l' = list_methods l \<and>
     (\<forall>c. c \<notin> set as \<and> c \<notin> set bs \<longrightarrow> h' c = h c) \<and> dom h' = dom h - set as \<union> set bs"

lemma dom_set_prev: "set_prev h a p = Some h' \<Longrightarrow> dom h' = dom h"
  by (auto simp: set_prev_def split: if_splits)

lemma dom_set_next: "set_next h a p = Some h' \<Longrightarrow> dom h' = dom h"
  by (auto simp: set_next_def split: if_splits)

lemma dll_dom: "dll h l as \<Longrightarrow> set as \<subseteq> dom h"
  unfolding dll_def using links_dom by blast

lemma listAddNodeHead_correct:
  assumes l: "dll h l as" and new: "a \<notin> dom h" and small: "length as + 1 < 2 ^ 64"
  shows "\<exists>h' l'. listAddNodeHead a h l v = Some (h', l') \<and> dll_step h l as h' l' (a # as) (v # node_vals h as)"
proof (cases as)
  case Nil
  then show ?thesis
    using l by (auto simp: listAddNodeHead_def dll_def dll_step_def u64_small list_methods_def)
next
  case (Cons b bs)
  have as: "set as \<subseteq> dom h"
    using l by (rule dll_dom)
  define h1 where "h1 = h(a \<mapsto> \<lparr>nprev = None, nnext = Some b, nvalue = v\<rparr>)"
  have "links h1 None (b # bs) None"
    using l new as Cons unfolding dll_def h1_def by (subst links_upd) auto
  moreover have "b \<notin> set bs"
    using l Cons by (simp add: dll_def)
  ultimately obtain h' where h': "set_prev h1 b (Some a) = Some h'" "links h' (Some a) (b # bs) None"
    "node_vals h' (b # bs) = node_vals h1 (b # bs)" "\<And>c. c \<noteq> b \<Longrightarrow> h' c = h1 c"
    by (rule set_prev_first [where p' = "Some a"]) blast
  have "node_vals h' as = node_vals h as"
    using h'(3) new as node_vals_upd [of a as h] unfolding Cons h1_def by (auto simp del: node_vals_upd)
  moreover have "h' a = Some \<lparr>nprev = None, nnext = Some b, nvalue = v\<rparr>"
    using h'(4) [of a] new as Cons by (auto simp: h1_def)
  moreover have "dom h' = dom h - set as \<union> set (a # as)"
    using dom_set_prev [OF h'(1)] as by (auto simp: h1_def)
  moreover have "listAddNodeHead a h l v = Some (h', l\<lparr>lhead := Some a, llen := length as + 1\<rparr>)"
    using h'(1) l small Cons by (simp add: listAddNodeHead_def dll_def u64_small h1_def)
  moreover have "\<forall>c. c \<notin> set as \<and> c \<notin> set (a # as) \<longrightarrow> h' c = h c"
    using h'(4) Cons by (simp add: h1_def)
  ultimately show ?thesis
    using h'(2) l new as small Cons by (auto simp: dll_step_def dll_def list_methods_def)
qed

lemma listAddNodeTail_correct:
  assumes l: "dll h l as" and new: "a \<notin> dom h" and small: "length as + 1 < 2 ^ 64"
  shows "\<exists>h' l'. listAddNodeTail a h l v = Some (h', l') \<and> dll_step h l as h' l' (as @ [a]) (node_vals h as @ [v])"
proof (cases as rule: rev_cases)
  case Nil
  then show ?thesis
    using l by (auto simp: listAddNodeTail_def dll_def dll_step_def u64_small list_methods_def)
next
  case (snoc bs b)
  have as: "set as \<subseteq> dom h"
    using l by (rule dll_dom)
  define h1 where "h1 = h(a \<mapsto> \<lparr>nprev = Some b, nnext = None, nvalue = v\<rparr>)"
  have "links h1 None (bs @ [b]) None"
    using l new as snoc unfolding dll_def h1_def by (subst links_upd) auto
  moreover have "b \<notin> set bs"
    using l snoc by (simp add: dll_def)
  ultimately obtain h' where h': "set_next h1 b (Some a) = Some h'" "links h' None (bs @ [b]) (Some a)"
    "node_vals h' (bs @ [b]) = node_vals h1 (bs @ [b])" "\<And>c. c \<noteq> b \<Longrightarrow> h' c = h1 c"
    by (rule set_next_last [where q' = "Some a"]) blast
  have "node_vals h' as = node_vals h as"
    using h'(3) new as node_vals_upd [of a as h] unfolding snoc h1_def by (auto simp del: node_vals_upd)
  moreover have "h' a = Some \<lparr>nprev = Some b, nnext = None, nvalue = v\<rparr>"
    using h'(4) [of a] new as snoc by (auto simp: h1_def)
  moreover have "dom h' = dom h - set as \<union> set (as @ [a])"
    using dom_set_next [OF h'(1)] as by (auto simp: h1_def)
  moreover have "listAddNodeTail a h l v = Some (h', l\<lparr>ltail := Some a, llen := length as + 1\<rparr>)"
    using h'(1) l small snoc by (simp add: listAddNodeTail_def dll_def u64_small h1_def)
  moreover have "\<forall>c. c \<notin> set as \<and> c \<notin> set (as @ [a]) \<longrightarrow> h' c = h c"
    using h'(4) snoc by (simp add: h1_def)
  ultimately show ?thesis
    using h'(2) l new as small snoc by (auto simp: dll_step_def dll_def list_methods_def links_append)
qed


text \<open>The assignments \<open>if (node->prev) node->prev->next = ...\<close> and \<open>if (node->next) node->next->prev = ...\<close> at a seam.\<close>

lemma relink_next:
  assumes "links h None as q" "distinct as"
  obtains h' where "(case last_of as None of Some p \<Rightarrow> set_next h p q' | None \<Rightarrow> Some h) = Some h'"
    "links h' None as q'" "node_vals h' as = node_vals h as" "\<And>b. b \<notin> set as \<Longrightarrow> h' b = h b" "dom h' = dom h"
proof (cases as rule: rev_cases)
  case (snoc bs b)
  then have "links h None (bs @ [b]) q" "b \<notin> set bs"
    using assms by auto
  then obtain h' where "set_next h b q' = Some h'" "links h' None (bs @ [b]) q'"
    "node_vals h' (bs @ [b]) = node_vals h (bs @ [b])" "\<And>c. c \<noteq> b \<Longrightarrow> h' c = h c"
    by (rule set_next_last [where q' = q']) blast
  then show ?thesis
    using that [of h'] snoc dom_set_next [of h b q' h'] by auto
qed (use that [of h] in auto)

lemma relink_prev:
  assumes "links h p as None" "distinct as"
  obtains h' where "(case first_of as None of Some q \<Rightarrow> set_prev h q p' | None \<Rightarrow> Some h) = Some h'"
    "links h' p' as None" "node_vals h' as = node_vals h as" "\<And>b. b \<notin> set as \<Longrightarrow> h' b = h b" "dom h' = dom h"
proof (cases as)
  case (Cons b bs)
  then have "links h p (b # bs) None" "b \<notin> set bs"
    using assms by auto
  then obtain h' where "set_prev h b p' = Some h'" "links h' p' (b # bs) None"
    "node_vals h' (b # bs) = node_vals h (b # bs)" "\<And>c. c \<noteq> b \<Longrightarrow> h' c = h c"
    by (rule set_prev_first [where p' = p']) blast
  then show ?thesis
    using that [of h'] Cons dom_set_prev [of h b p' h'] by auto
qed (use that [of h] in auto)

text \<open>A node between two linked segments; both seams are set to it.\<close>

lemma splice:
  assumes n: "h a = Some n" "nprev n = last_of xs None" "nnext n = first_of ys None"
    and xs: "links h None xs q" and ys: "links h p ys None" and dist: "distinct (xs @ a # ys)"
  obtains h1 h2 where
    "(case nprev n of Some p \<Rightarrow> set_next h p (Some a) | None \<Rightarrow> Some h) = Some h1"
    "(case nnext n of Some q \<Rightarrow> set_prev h1 q (Some a) | None \<Rightarrow> Some h1) = Some h2"
    "links h2 None (xs @ a # ys) None" "node_vals h2 (xs @ a # ys) = node_vals h (xs @ a # ys)"
    "\<And>b. b \<notin> set (xs @ a # ys) \<Longrightarrow> h2 b = h b" "dom h2 = dom h"
proof -
  obtain h1 where h1: "(case last_of xs None of Some p \<Rightarrow> set_next h p (Some a) | None \<Rightarrow> Some h) = Some h1"
    "links h1 None xs (Some a)" "node_vals h1 xs = node_vals h xs" "\<And>b. b \<notin> set xs \<Longrightarrow> h1 b = h b" "dom h1 = dom h"
    using xs dist by (auto elim: relink_next)
  have "links h1 p ys None"
    using ys dist h1(4) by (subst links_frame [where h = h]) auto
  then obtain h2 where h2: "(case first_of ys None of Some q \<Rightarrow> set_prev h1 q (Some a) | None \<Rightarrow> Some h1) = Some h2"
    "links h2 (Some a) ys None" "node_vals h2 ys = node_vals h1 ys" "\<And>b. b \<notin> set ys \<Longrightarrow> h2 b = h1 b" "dom h2 = dom h1"
    using dist by (auto elim: relink_prev)
  have "\<And>b. b \<in> set xs \<Longrightarrow> h2 b = h1 b"
    using dist h2(4) by auto
  then have "links h2 None xs (Some a)" "node_vals h2 xs = node_vals h1 xs"
    using h1(2) links_frame [of xs h2 h1] node_vals_frame [of xs h2 h1] by auto
  moreover have "node_vals h1 ys = node_vals h ys" "h2 a = Some n"
    using h1(4) h2(4) n(1) dist by (auto intro!: node_vals_frame)
  ultimately show ?thesis
    using that [of h1 h2] h1 h2 n by (simp add: links_append)
qed

lemma listInsertNode_after:
  assumes l: "dll h l (xs @ b # ys)" and new: "a \<notin> dom h" and small: "length (xs @ b # ys) + 1 < 2 ^ 64"
  shows "\<exists>h' l'. listInsertNode a h l b v True = Some (h', l') \<and>
    dll_step h l (xs @ b # ys) h' l' (xs @ b # a # ys) (node_vals h (xs @ [b]) @ v # node_vals h ys)"
proof -
  have as: "set (xs @ b # ys) \<subseteq> dom h"
    using l by (rule dll_dom)
  with new have a: "a \<notin> set xs" "a \<noteq> b" "b \<noteq> a" "a \<notin> set ys"
    by auto
  obtain old where old: "h b = Some old" "nnext old = first_of ys None"
    using l by (auto simp: dll_def links_append)
  define n where "n = \<lparr>nprev = Some b, nnext = nnext old, nvalue = v\<rparr>"
  have n: "nprev n = last_of (xs @ [b]) None" "nnext n = first_of ys None" "nvalue n = v"
    using old by (simp_all add: n_def)
  have seg: "links (h(a \<mapsto> n)) None (xs @ [b]) (first_of ys None)" "links (h(a \<mapsto> n)) (Some b) ys None"
    "distinct ((xs @ [b]) @ a # ys)"
    using l a by (auto simp: dll_def links_append)
  obtain h1 h2 where h2: "(case nprev n of Some p \<Rightarrow> set_next (h(a \<mapsto> n)) p (Some a) | None \<Rightarrow> Some (h(a \<mapsto> n))) = Some h1"
    "(case nnext n of Some q \<Rightarrow> set_prev h1 q (Some a) | None \<Rightarrow> Some h1) = Some h2"
    "links h2 None ((xs @ [b]) @ a # ys) None"
    "node_vals h2 ((xs @ [b]) @ a # ys) = node_vals (h(a \<mapsto> n)) ((xs @ [b]) @ a # ys)"
    "\<And>c. c \<notin> set ((xs @ [b]) @ a # ys) \<Longrightarrow> h2 c = (h(a \<mapsto> n)) c" "dom h2 = dom (h(a \<mapsto> n))"
    by (rule splice [OF fun_upd_same n(1,2) seg]) blast
  have tail: "(ltail l = Some b) = (ys = [])"
    using l by (cases ys rule: rev_cases) (auto simp: dll_def)
  have vals: "node_vals h2 (xs @ b # a # ys) = node_vals h (xs @ [b]) @ v # node_vals h ys"
    using h2(4) a n(3) by (auto simp: node_vals_def)
  define l' where "l' = (if ys = [] then l\<lparr>ltail := Some a\<rparr> else l)\<lparr>llen := length (xs @ b # ys) + 1\<rparr>"
  have "listInsertNode a h l b v True = Some (h2, l')"
    using h2(1,2) [unfolded n_def] l small old(1) tail by (simp add: listInsertNode_def n_def l'_def dll_def u64_small)
  moreover have "dll h2 l' (xs @ b # a # ys)"
    using h2(3) l a small by (auto simp: dll_def l'_def last_of_def)
  moreover have "dom h2 = dom h - set (xs @ b # ys) \<union> set (xs @ b # a # ys)"
    using h2(6) as by auto
  ultimately show ?thesis
    using vals h2(5) by (auto simp: dll_step_def list_methods_def l'_def)
qed


lemma listInsertNode_before:
  assumes l: "dll h l (xs @ b # ys)" and new: "a \<notin> dom h" and small: "length (xs @ b # ys) + 1 < 2 ^ 64"
  shows "\<exists>h' l'. listInsertNode a h l b v False = Some (h', l') \<and>
    dll_step h l (xs @ b # ys) h' l' (xs @ a # b # ys) (node_vals h xs @ v # node_vals h (b # ys))"
proof -
  have as: "set (xs @ b # ys) \<subseteq> dom h"
    using l by (rule dll_dom)
  with new have a: "a \<notin> set xs" "a \<noteq> b" "b \<noteq> a" "a \<notin> set ys"
    by auto
  obtain old where old: "h b = Some old" "nprev old = last_of xs None"
    using l by (auto simp: dll_def links_append)
  define n where "n = \<lparr>nprev = nprev old, nnext = Some b, nvalue = v\<rparr>"
  have n: "nprev n = last_of xs None" "nnext n = first_of (b # ys) None" "nvalue n = v"
    using old by (simp_all add: n_def)
  have seg: "links (h(a \<mapsto> n)) None xs (Some b)" "links (h(a \<mapsto> n)) (last_of xs None) (b # ys) None"
    "distinct (xs @ a # b # ys)"
    using l a by (auto simp: dll_def links_append)
  obtain h1 h2 where h2: "(case nprev n of Some p \<Rightarrow> set_next (h(a \<mapsto> n)) p (Some a) | None \<Rightarrow> Some (h(a \<mapsto> n))) = Some h1"
    "(case nnext n of Some q \<Rightarrow> set_prev h1 q (Some a) | None \<Rightarrow> Some h1) = Some h2"
    "links h2 None (xs @ a # b # ys) None"
    "node_vals h2 (xs @ a # b # ys) = node_vals (h(a \<mapsto> n)) (xs @ a # b # ys)"
    "\<And>c. c \<notin> set (xs @ a # b # ys) \<Longrightarrow> h2 c = (h(a \<mapsto> n)) c" "dom h2 = dom (h(a \<mapsto> n))"
    by (rule splice [OF fun_upd_same n(1,2) seg]) blast
  have head: "(lhead l = Some b) = (xs = [])"
    using l by (cases xs) (auto simp: dll_def)
  have vals: "node_vals h2 (xs @ a # b # ys) = node_vals h xs @ v # node_vals h (b # ys)"
    using h2(4) a n(3) by (auto simp: node_vals_def)
  define l' where "l' = (if xs = [] then l\<lparr>lhead := Some a\<rparr> else l)\<lparr>llen := length (xs @ b # ys) + 1\<rparr>"
  have "listInsertNode a h l b v False = Some (h2, l')"
    using h2(1,2) [unfolded n_def] l small old(1) head by (simp add: listInsertNode_def n_def l'_def dll_def u64_small)
  moreover have "dll h2 l' (xs @ a # b # ys)"
    using h2(3) l a small by (cases xs) (auto simp: dll_def l'_def)
  moreover have "dom h2 = dom h - set (xs @ b # ys) \<union> set (xs @ a # b # ys)"
    using h2(6) as by auto
  ultimately show ?thesis
    using vals h2(5) by (auto simp: dll_step_def list_methods_def l'_def)
qed

lemma listDelNode_correct:
  assumes l: "dll h l (xs @ a # ys)"
  shows "\<exists>h' l'. listDelNode h l a = Some (h', l', if lfree l then [nvalue (the (h a))] else []) \<and>
    dll_step h l (xs @ a # ys) h' l' (xs @ ys) (node_vals h xs @ node_vals h ys)"
proof -
  have as: "set (xs @ a # ys) \<subseteq> dom h"
    using l by (rule dll_dom)
  have dist: "distinct xs" "distinct ys" "set xs \<inter> set ys = {}" "a \<notin> set xs" "a \<notin> set ys"
    using l by (auto simp: dll_def)
  obtain n where n: "h a = Some n" "nprev n = last_of xs None" "nnext n = first_of ys None"
    and links: "links h None xs (Some a)" "links h (Some a) ys None"
    using l by (auto simp: dll_def links_append)
  obtain h1 where h1: "(case last_of xs None of Some p \<Rightarrow> set_next h p (nnext n) | None \<Rightarrow> Some h) = Some h1"
    "links h1 None xs (nnext n)" "node_vals h1 xs = node_vals h xs" "\<And>b. b \<notin> set xs \<Longrightarrow> h1 b = h b" "dom h1 = dom h"
    using links(1) dist by (auto elim: relink_next)
  have "links h1 (Some a) ys None"
    using links dist h1(4) by (subst links_frame [where h = h]) auto
  then obtain h2 where h2: "(case first_of ys None of Some q \<Rightarrow> set_prev h1 q (nprev n) | None \<Rightarrow> Some h1) = Some h2"
    "links h2 (nprev n) ys None" "node_vals h2 ys = node_vals h1 ys" "\<And>b. b \<notin> set ys \<Longrightarrow> h2 b = h1 b" "dom h2 = dom h1"
    using dist by (auto elim: relink_prev)
  have frame: "\<And>b. b \<in> set xs \<Longrightarrow> h2 b = h1 b" "\<And>b. b \<in> set ys \<Longrightarrow> h1 b = h b" "h1 a = Some n" "h2 a = Some n"
    using dist h1(4) h2(4) n(1) by auto
  have links2: "links h2 None xs (first_of ys None)" "links h2 (last_of xs None) ys None"
    using h1(2) h2(2) links_frame [OF frame(1)] n by auto
  have vals: "node_vals h2 xs = node_vals h xs" "node_vals h2 ys = node_vals h ys"
    using h1(3) h2(3) node_vals_frame [OF frame(1)] node_vals_frame [OF frame(2)] by auto
  define l' where "l' = l\<lparr>lhead := first_of (xs @ ys) None, ltail := last_of (xs @ ys) None, llen := length (xs @ ys)\<rparr>"
  have "u64_sub (llen l) 1 = length (xs @ ys)"
    using l by (simp add: dll_def u64_sub_def u64_def)
  then have "listDelNode h l a = Some (h2(a := None), l', if lfree l then [nvalue n] else [])"
    using h1(1) h2(1) n frame(3,4) l by (cases xs rule: rev_cases; cases ys)
      (auto simp: listDelNode_def dll_def l'_def Let_def)
  moreover have "dll (h2(a := None)) l' (xs @ ys)"
    using l dist links2 by (auto simp: dll_def l'_def links_append)
  moreover have "\<forall>c. c \<notin> set (xs @ a # ys) \<and> c \<notin> set (xs @ ys) \<longrightarrow> (h2(a := None)) c = h c"
    using h1(4) h2(4) by auto
  moreover have "dom (h2(a := None)) = dom h - set (xs @ a # ys) \<union> set (xs @ ys)"
    using h1(5) h2(5) as dist by auto
  ultimately show ?thesis
    using vals dist n(1) by (auto simp: dll_step_def list_methods_def l'_def)
qed

section \<open>Iteration, search and indexing\<close>

lemma listNext_forward:
  assumes "links h p (a # as) None"
  shows "listNext h \<lparr>inext = Some a, from_head = True\<rparr> = Some (\<lparr>inext = first_of as None, from_head = True\<rparr>, Some a)"
  using assms by (auto simp: listNext_def)

lemma listNext_backward:
  assumes "links h None (as @ [a]) q"
  shows "listNext h \<lparr>inext = Some a, from_head = False\<rparr> = Some (\<lparr>inext = last_of as None, from_head = False\<rparr>, Some a)"
  using assms by (auto simp: listNext_def links_append)

lemma listNext_end: "listNext h \<lparr>inext = None, from_head = d\<rparr> = Some (\<lparr>inext = None, from_head = d\<rparr>, None)"
  by (simp add: listNext_def)

lemma listRewind_start: "dll h l as \<Longrightarrow> listRewind l = \<lparr>inext = first_of as None, from_head = True\<rparr>"
  by (simp add: listRewind_def dll_def)

lemma listIndex_forward:
  "links h p as None \<Longrightarrow> listIndex_loop nnext h i (first_of as None) = Some (if i < length as then Some (as ! i) else None)"
proof (induction as arbitrary: p i)
  case (Cons a as)
  then show ?case
    by (cases i) auto
qed (case_tac i; simp)

lemma listIndex_backward:
  "links h None as q \<Longrightarrow> listIndex_loop nprev h i (last_of as None) = Some (if i < length as then Some (rev as ! i) else None)"
proof (induction as arbitrary: q i rule: rev_induct)
  case (snoc a as)
  then show ?case
    by (cases i) (auto simp: links_append)
qed (case_tac i; simp)

definition match_in :: "'v alist \<Rightarrow> 'v \<Rightarrow> 'v \<Rightarrow> bool" where
  "match_in l key v = (case lmatch l of Some match \<Rightarrow> match v key | None \<Rightarrow> key = v)"

lemma listSearchKey_loop_correct:
  "links h p as None \<Longrightarrow>
   listSearchKey_loop h l \<lparr>inext = first_of as None, from_head = True\<rparr> key =
     Some (find (\<lambda>a. match_in l key (nvalue (the (h a)))) as)"
proof (induction as arbitrary: p)
  case Nil
  then show ?case
    by (subst listSearchKey_loop.simps) (simp add: listNext_end)
next
  case (Cons a as)
  then show ?case
    by (subst listSearchKey_loop.simps) (auto simp: listNext_forward match_in_def [symmetric])
qed

lemma listSearchKey_find:
  "dll h l as \<Longrightarrow> listSearchKey h l key = Some (find (\<lambda>a. match_in l key (nvalue (the (h a)))) as)"
  unfolding listSearchKey_def using listSearchKey_loop_correct [of h None as l key] by (simp add: listRewind_def dll_def)

lemma listIndex_value:
  assumes "dll h l as"
  shows "listIndex h l i =
    Some (if 0 \<le> i \<and> i < int (length as) then Some (as ! nat i)
          else if i < 0 \<and> - int (length as) \<le> i then Some (as ! nat (int (length as) + i)) else None)"
proof (cases "i < 0")
  case True
  let ?j = "nat (- i - 1)"
  have "rev as ! ?j = as ! nat (int (length as) + i)" if "?j < length as"
    using that True by (subst rev_nth) (auto intro!: arg_cong [of _ _ "nth as"])
  then show ?thesis
    using True assms listIndex_backward [of h as None ?j] by (auto simp: listIndex_def dll_def)
next
  case False
  then show ?thesis
    using assms listIndex_forward [of h None as "nat i"] by (auto simp: listIndex_def dll_def)
qed

section \<open>Copy\<close>

primrec map_dup :: "('v \<Rightarrow> 'v option) option \<Rightarrow> 'v list \<Rightarrow> 'v list option" where
  "map_dup dup [] = Some []"
| "map_dup dup (v # vs) =
     do { w \<leftarrow> (case dup of Some f \<Rightarrow> f v | None \<Rightarrow> Some v); ws \<leftarrow> map_dup dup vs; Some (w # ws) }"

lemma dll_other:
  assumes "dll_step h l as h' l' bs vs" "links h p cs q" "set cs \<inter> (set as \<union> set bs) = {}"
  shows "links h' p cs q" "node_vals h' cs = node_vals h cs"
proof -
  have "\<And>b. b \<in> set cs \<Longrightarrow> h' b = h b"
    using assms(1,3) by (auto simp: dll_step_def)
  then show "links h' p cs q" "node_vals h' cs = node_vals h cs"
    using assms(2) links_frame node_vals_frame by metis+
qed

lemma listDup_loop_correct:
  assumes "\<And>h. finite (dom h) \<Longrightarrow> alloc h \<notin> dom h"
  shows "links h p as None \<Longrightarrow> dll h copy cs \<Longrightarrow> finite (dom h) \<Longrightarrow> set as \<inter> set cs = {} \<Longrightarrow>
    length cs + length as < 2 ^ 64 \<Longrightarrow>
    \<exists>h' res. listDup_loop alloc h \<lparr>inext = first_of as None, from_head = True\<rparr> copy = Some (h', res) \<and>
      (case map_dup (ldup copy) (node_vals h as) of
         None \<Rightarrow> res = None \<and> h' = h |` (- set cs)
       | Some ws \<Rightarrow> \<exists>c es. res = Some c \<and> dll_step h copy cs h' c (cs @ es) (node_vals h cs @ ws) \<and> set es \<inter> dom h = {})"
proof (induction as arbitrary: p h copy cs)
  case Nil
  have "links h None cs None"
    using Nil(2) by (simp add: dll_def)
  then have "set cs \<subseteq> dom h"
    by (rule links_dom)
  then have "dll_step h copy cs h copy (cs @ []) (node_vals h cs)"
    using Nil(2) by (auto simp: dll_step_def)
  then show ?case
    by (subst listDup_loop.simps) (auto simp: listNext_end intro!: exI [of _ "[]"])
next
  case (Cons a as)
  obtain n where n: "h a = Some n" "links h (Some a) as None"
    using Cons.prems(1) by auto
  let ?v = "case ldup copy of Some f \<Rightarrow> f (nvalue n) | None \<Rightarrow> Some (nvalue n)"
  show ?case
  proof (cases ?v)
    case None
    then show ?thesis
      using n Cons.prems by (subst listDup_loop.simps) (simp add: listNext_forward listRelease_correct)
  next
    case (Some w)
    define b where "b = alloc h"
    have b: "b \<notin> dom h"
      using assms Cons.prems(3) by (simp add: b_def)
    have "length cs + 1 < 2 ^ 64"
      using Cons.prems(5) by simp
    then obtain h1 c1 where c1: "listAddNodeTail b h copy w = Some (h1, c1)"
      "dll_step h copy cs h1 c1 (cs @ [b]) (node_vals h cs @ [w])"
      using listAddNodeTail_correct [OF Cons.prems(2) b] by blast
    have "set as \<inter> (set cs \<union> set (cs @ [b])) = {}"
      using Cons.prems(4) links_dom [OF n(2)] b by auto
    note other = dll_other [OF c1(2) n(2) this]
    have c1': "dll h1 c1 (cs @ [b])" "finite (dom h1)" "ldup c1 = ldup copy" "node_vals h1 (cs @ [b]) = node_vals h cs @ [w]"
      "dom h1 = insert b (dom h)"
      using c1(2) Cons.prems(3) dll_dom [OF Cons.prems(2)] by (auto simp: dll_step_def list_methods_def)
    obtain h' res where res: "listDup_loop alloc h1 \<lparr>inext = first_of as None, from_head = True\<rparr> c1 = Some (h', res)"
      "case map_dup (ldup copy) (node_vals h as) of
         None \<Rightarrow> res = None \<and> h' = h1 |` (- set (cs @ [b]))
       | Some ws \<Rightarrow> \<exists>c es. res = Some c \<and> dll_step h1 c1 (cs @ [b]) h' c ((cs @ [b]) @ es) (node_vals h1 (cs @ [b]) @ ws) \<and>
           set es \<inter> dom h1 = {}"
      using Cons.IH [OF other(1) c1'(1,2)] Cons.prems(4,5) links_dom [OF n(2)] b c1'(3) other(2) by auto
    have run: "listDup_loop alloc h \<lparr>inext = first_of (a # as) None, from_head = True\<rparr> copy = Some (h', res)"
      using listNext_forward [OF Cons.prems(1)] n(1) Some c1(1) res(1) by (subst listDup_loop.simps) (simp add: b_def)
    show ?thesis
    proof (cases "map_dup (ldup copy) (node_vals h as)")
      case None
      have "h1 |` (- set (cs @ [b])) = h |` (- set cs)"
        using c1(2) b by (auto simp: dll_step_def restrict_map_def)
      then show ?thesis
        using run res(2) None Some n(1) by simp
    next
      case (Some ws)
      then obtain c es where c: "res = Some c" "dll_step h1 c1 (cs @ [b]) h' c ((cs @ [b]) @ es) ((node_vals h cs @ [w]) @ ws)"
        "set es \<inter> dom h1 = {}"
        using res(2) c1'(4) by auto
      have "dll_step h copy cs h' c (cs @ b # es) (node_vals h cs @ w # ws)"
        using c(2) c1(2) c1'(5) dll_dom [OF Cons.prems(2)] by (auto simp: dll_step_def)
      then show ?thesis
        using run c(1,3) c1'(5) b Some \<open>?v = Some w\<close> n(1) by (fastforce intro!: exI [of _ "b # es"])
    qed
  qed
qed


lemma first_of_hd: "xs \<noteq> [] \<Longrightarrow> first_of xs q = Some (hd xs)"
  by (cases xs) auto

lemma last_of_ne: "xs \<noteq> [] \<Longrightarrow> last_of xs q = Some (last xs)"
  by (simp add: last_of_def)

section \<open>Rotation and concatenation\<close>

lemma listRotateTailToHead_correct:
  assumes l: "dll h l (xs @ [t])" and xs: "xs \<noteq> []"
  shows "\<exists>h' l'. listRotateTailToHead h l = Some (h', l') \<and>
    dll_step h l (xs @ [t]) h' l' (t # xs) (nvalue (the (h t)) # node_vals h xs)"
proof -
  have dist: "distinct xs" "t \<notin> set xs"
    using l by (auto simp: dll_def)
  obtain n where n: "h t = Some n" "nprev n = Some (last xs)" and links: "links h None xs (Some t)"
    using l xs by (auto simp: dll_def links_append last_of_def)
  obtain h1 where h1: "set_next h (last xs) None = Some h1"
    "links h1 None xs None" "node_vals h1 xs = node_vals h xs" "\<And>b. b \<notin> set xs \<Longrightarrow> h1 b = h b" "dom h1 = dom h"
    using relink_next [OF links dist(1), of None] xs by (auto simp: last_of_ne)
  obtain h2 where h2: "set_prev h1 (hd xs) (Some t) = Some h2"
    "links h2 (Some t) xs None" "node_vals h2 xs = node_vals h1 xs" "\<And>b. b \<notin> set xs \<Longrightarrow> h2 b = h1 b" "dom h2 = dom h1"
    using relink_prev [OF h1(2) dist(1), of "Some t"] xs by (auto simp: first_of_hd)
  define h3 where "h3 = h2(t \<mapsto> n\<lparr>nprev := None, nnext := Some (hd xs)\<rparr>)"
  have t: "h2 t = Some n"
    using h1(4) h2(4) dist n by simp
  have ends: "lhead l = Some (hd xs)" "ltail l = Some t" "\<not> llen l \<le> 1"
    using l xs by (auto simp: dll_def neq_Nil_conv)
  have "listRotateTailToHead h l = Some (h3, l\<lparr>ltail := Some (last xs), lhead := Some t\<rparr>)"
    using ends n h1(1) h2(1) t by (simp add: listRotateTailToHead_def set_prev_def [of h2] set_next_def [of "h2(_ \<mapsto> _)"] h3_def)
  moreover have "links h3 None (t # xs) None" "node_vals h3 (t # xs) = nvalue (the (h t)) # node_vals h xs"
    using h2 h1(3) dist(2) xs n(1) by (auto simp: h3_def first_of_hd)
  moreover have "\<forall>c. c \<notin> set (xs @ [t]) \<and> c \<notin> set (t # xs) \<longrightarrow> h3 c = h c" "dom h3 = dom h - set (xs @ [t]) \<union> set (t # xs)"
    using h1(4,5) h2(4,5) dll_dom [OF l] by (auto simp: h3_def)
  ultimately show ?thesis
    using l dist xs by (auto simp: dll_step_def dll_def list_methods_def last_of_def)
qed

lemma listRotateHeadToTail_correct:
  assumes l: "dll h l (t # xs)" and xs: "xs \<noteq> []"
  shows "\<exists>h' l'. listRotateHeadToTail h l = Some (h', l') \<and>
    dll_step h l (t # xs) h' l' (xs @ [t]) (node_vals h xs @ [nvalue (the (h t))])"
proof -
  have dist: "distinct xs" "t \<notin> set xs"
    using l by (auto simp: dll_def)
  obtain n where n: "h t = Some n" "nnext n = Some (hd xs)" and links: "links h (Some t) xs None"
    using l xs by (auto simp: dll_def first_of_hd)
  obtain h1 where h1: "set_prev h (hd xs) None = Some h1"
    "links h1 None xs None" "node_vals h1 xs = node_vals h xs" "\<And>b. b \<notin> set xs \<Longrightarrow> h1 b = h b" "dom h1 = dom h"
    using relink_prev [OF links dist(1), of None] xs by (auto simp: first_of_hd)
  obtain h2 where h2: "set_next h1 (last xs) (Some t) = Some h2"
    "links h2 None xs (Some t)" "node_vals h2 xs = node_vals h1 xs" "\<And>b. b \<notin> set xs \<Longrightarrow> h2 b = h1 b" "dom h2 = dom h1"
    using relink_next [OF h1(2) dist(1), of "Some t"] xs by (auto simp: last_of_ne)
  define h3 where "h3 = h2(t \<mapsto> n\<lparr>nnext := None, nprev := Some (last xs)\<rparr>)"
  have t: "h2 t = Some n"
    using h1(4) h2(4) dist n by simp
  have ends: "lhead l = Some t" "ltail l = Some (last xs)" "\<not> llen l \<le> 1"
    using l xs by (auto simp: dll_def neq_Nil_conv last_of_def)
  have "listRotateHeadToTail h l = Some (h3, l\<lparr>lhead := Some (hd xs), ltail := Some t\<rparr>)"
    using ends n h1(1) h2(1) t by (simp add: listRotateHeadToTail_def set_next_def [of h2] set_prev_def [of "h2(_ \<mapsto> _)"] h3_def)
  moreover have "links h3 None (xs @ [t]) None" "node_vals h3 (xs @ [t]) = node_vals h xs @ [nvalue (the (h t))]"
    using h2 h1(3) dist(2) xs n(1) by (auto simp: h3_def links_append last_of_def)
  moreover have "\<forall>c. c \<notin> set (t # xs) \<and> c \<notin> set (xs @ [t]) \<longrightarrow> h3 c = h c" "dom h3 = dom h - set (t # xs) \<union> set (xs @ [t])"
    using h1(4,5) h2(4,5) dll_dom [OF l] by (auto simp: h3_def)
  ultimately show ?thesis
    using l dist xs by (auto simp: dll_step_def dll_def list_methods_def neq_Nil_conv)
qed

lemma listJoin_dll:
  assumes l: "dll h l as" and ol: "dll h ol bs" and disj: "set as \<inter> set bs = {}" and small: "length as + length bs < 2 ^ 64"
  shows "\<exists>h' l' ol'. listJoin h l ol = Some (h', l', ol') \<and> dll h' l' (as @ bs) \<and> dll h' ol' [] \<and>
    node_vals h' (as @ bs) = node_vals h as @ node_vals h bs \<and> list_methods l' = list_methods l \<and>
    list_methods ol' = list_methods ol \<and> dom h' = dom h \<and> (\<forall>c. c \<notin> set as \<and> c \<notin> set bs \<longrightarrow> h' c = h c)"
proof -
  have "links h None bs None" "distinct bs"
    using ol by (auto simp: dll_def)
  then obtain h1 where h1: "(case first_of bs None of Some q \<Rightarrow> set_prev h q (ltail l) | None \<Rightarrow> Some h) = Some h1"
    "links h1 (ltail l) bs None" "node_vals h1 bs = node_vals h bs" "\<And>b. b \<notin> set bs \<Longrightarrow> h1 b = h b" "dom h1 = dom h"
    by (rule relink_prev [where p' = "ltail l"]) blast
  have f1: "\<And>b. b \<in> set as \<Longrightarrow> h1 b = h b"
    using h1(4) disj by auto
  have "links h1 None as None" "distinct as"
    using l links_frame [OF f1] by (auto simp: dll_def)
  then obtain h2 where h2: "(case last_of as None of Some p \<Rightarrow> set_next h1 p (lhead ol) | None \<Rightarrow> Some h1) = Some h2"
    "links h2 None as (lhead ol)" "node_vals h2 as = node_vals h1 as" "\<And>b. b \<notin> set as \<Longrightarrow> h2 b = h1 b" "dom h2 = dom h1"
    by (rule relink_next [where q' = "lhead ol"]) blast
  have f2: "\<And>b. b \<in> set bs \<Longrightarrow> h2 b = h1 b"
    using h2(4) disj by auto
  define l' where "l' = l\<lparr>lhead := first_of (as @ bs) None, ltail := last_of (as @ bs) None, llen := length (as @ bs)\<rparr>"
  have "listJoin h l ol = Some (h2, l', ol\<lparr>lhead := None, ltail := None, llen := 0\<rparr>)"
    using h1(1) h2(1) l ol small by (cases as rule: rev_cases; cases bs)
      (auto simp: listJoin_def dll_def l'_def u64_small last_of_def)
  moreover have "links h2 None (as @ bs) None"
    using h2(2) h1(2) l ol links_frame [OF f2] by (simp add: links_append dll_def)
  moreover have "node_vals h2 (as @ bs) = node_vals h as @ node_vals h bs"
    using h2(3) h1(3) node_vals_frame [OF f1] node_vals_frame [OF f2] by simp
  moreover have "\<forall>c. c \<notin> set as \<and> c \<notin> set bs \<longrightarrow> h2 c = h c"
    using h1(4) h2(4) by simp
  ultimately show ?thesis
    using l ol disj small h1(5) h2(5) by (auto simp: dll_def l'_def list_methods_def)
qed

section \<open>Sequences of operations\<close>

text \<open>
  The operations of a client that names the nodes by their index, as \<open>listIndex\<close> does: a negative index counts from
  the tail. An index out of range gives the address \<open>NULL\<close>, and then nothing is inserted or removed.
\<close>

datatype 'v list_op = AddHead 'v | AddTail 'v | Insert int bool 'v | Delete int | TailToHead | HeadToTail | Empty

fun list_op_step :: "('v node_heap \<Rightarrow> nat) \<Rightarrow> 'v list_op \<Rightarrow> 'v node_heap \<times> 'v alist \<Rightarrow> ('v node_heap \<times> 'v alist) option" where
  "list_op_step alloc (AddHead v) (h, l) = listAddNodeHead (alloc h) h l v"
| "list_op_step alloc (AddTail v) (h, l) = listAddNodeTail (alloc h) h l v"
| "list_op_step alloc (Insert i after v) (h, l) =
     do { p \<leftarrow> listIndex h l i;
          case p of Some a \<Rightarrow> listInsertNode (alloc h) h l a v after | None \<Rightarrow> Some (h, l) }"
| "list_op_step alloc (Delete i) (h, l) =
     do { p \<leftarrow> listIndex h l i;
          case p of Some a \<Rightarrow> do { (h, l, freed) \<leftarrow> listDelNode h l a; Some (h, l) } | None \<Rightarrow> Some (h, l) }"
| "list_op_step alloc TailToHead (h, l) = listRotateTailToHead h l"
| "list_op_step alloc HeadToTail (h, l) = listRotateHeadToTail h l"
| "list_op_step alloc Empty (h, l) = do { (h, l, freed) \<leftarrow> listEmpty h l; Some (h, l) }"

text \<open>The same operations on a sequence of values.\<close>

definition seq_index :: "'v list \<Rightarrow> int \<Rightarrow> nat option" where
  "seq_index vs i =
     (if 0 \<le> i \<and> i < int (length vs) then Some (nat i)
      else if i < 0 \<and> - int (length vs) \<le> i then Some (nat (int (length vs) + i)) else None)"

fun seq_op :: "'v list_op \<Rightarrow> 'v list \<Rightarrow> 'v list" where
  "seq_op (AddHead v) vs = v # vs"
| "seq_op (AddTail v) vs = vs @ [v]"
| "seq_op (Insert i after v) vs =
     (case seq_index vs i of
        None \<Rightarrow> vs
      | Some k \<Rightarrow> (let k = (if after then Suc k else k) in take k vs @ v # drop k vs))"
| "seq_op (Delete i) vs = (case seq_index vs i of None \<Rightarrow> vs | Some k \<Rightarrow> take k vs @ drop (Suc k) vs)"
| "seq_op TailToHead vs = (if vs = [] then [] else last vs # butlast vs)"
| "seq_op HeadToTail vs = (if vs = [] then [] else tl vs @ [hd vs])"
| "seq_op Empty vs = []"

primrec run_seq :: "('op \<Rightarrow> 's \<Rightarrow> 's option) \<Rightarrow> 'op list \<Rightarrow> 's \<Rightarrow> 's option" where
  "run_seq step [] s = Some s"
| "run_seq step (op # ops) s = do { s \<leftarrow> step op s; run_seq step ops s }"

text \<open>
  A sequence of values in memory: a state \<open>s\<close> that represents a list, and operations that act on it as on the list as
  long as a new element can be counted.
\<close>

locale value_sequence =
  fixes step :: "'v list_op \<Rightarrow> 's \<Rightarrow> 's option"
    and shows_seq :: "'s \<Rightarrow> 'v list \<Rightarrow> bool"
    and limit :: nat
  assumes step_law: "shows_seq s vs \<Longrightarrow> Suc (length vs) < limit \<Longrightarrow> \<exists>s'. step op s = Some s' \<and> shows_seq s' (seq_op op vs)"
begin

lemma seq_op_length: "length (seq_op op vs) \<le> Suc (length vs)"
  by (cases op) (auto simp: Let_def seq_index_def split: option.split)

lemma run_refines:
  "shows_seq s vs \<Longrightarrow> length vs + length ops < limit \<Longrightarrow>
   \<exists>s'. run_seq step ops s = Some s' \<and> shows_seq s' (fold seq_op ops vs)"
proof (induction ops arbitrary: s vs)
  case (Cons op ops)
  then obtain s1 where s1: "step op s = Some s1" "shows_seq s1 (seq_op op vs)"
    using step_law [of s vs op] by auto
  moreover have "length (seq_op op vs) + length ops < limit"
    using Cons.prems(2) seq_op_length [of op vs] by simp
  ultimately show ?case
    using Cons.IH [of s1 "seq_op op vs"] by simp
qed simp

end

text \<open>
  The representation of a sequence by the nodes of a list, beside the nodes \<open>g\<close> of other lists: these are as they were,
  and every other allocated node is one of the list.
\<close>

definition owns :: "'v node_heap \<Rightarrow> 'v node_heap \<Rightarrow> nat list \<Rightarrow> bool" where
  "owns g h as \<longleftrightarrow> dom h = dom g \<union> set as \<and> (\<forall>a \<in> set as. g a = None) \<and> (\<forall>c \<in> dom g. h c = g c) \<and> finite (dom h)"

definition shows_list :: "'v node_heap \<Rightarrow> 'v node_heap \<times> 'v alist \<Rightarrow> 'v list \<Rightarrow> bool" where
  "shows_list g s vs \<longleftrightarrow> (\<exists>as. dll (fst s) (snd s) as \<and> node_vals (fst s) as = vs \<and> owns g (fst s) as)"

lemma shows_list_step:
  assumes "owns g h as" "\<forall>b \<in> set bs. g b = None" "dll_step h l as h' l' bs vs"
  shows "shows_list g (h', l') vs"
proof -
  have "h' c = g c" if "c \<in> dom g" for c
  proof -
    have "c \<notin> set as" "c \<notin> set bs"
      using that assms(1,2) by (auto simp: owns_def)
    then show ?thesis
      using that assms by (simp add: owns_def dll_step_def)
  qed
  moreover have "dom h' = dom g \<union> set bs"
    using assms by (auto simp: owns_def dll_step_def)
  ultimately show ?thesis
    using assms by (auto simp: shows_list_def dll_step_def owns_def)
qed

lemma seq_index_split:
  assumes "seq_index vs i = Some k" "length as = length vs"
  shows "k < length vs" "as = take k as @ as ! k # drop (Suc k) as"
  using assms by (auto simp: seq_index_def id_take_nth_drop split: if_splits)

lemma listIndex_seq:
  assumes "dll h l as" "node_vals h as = vs"
  shows "listIndex h l i = Some (map_option ((!) as) (seq_index vs i))"
  using listIndex_value [OF assms(1)] assms(2) by (auto simp: seq_index_def node_vals_def)

lemma node_vals_take_drop: "node_vals h (take k as) = take k (node_vals h as)" "node_vals h (drop k as) = drop k (node_vals h as)"
  by (simp_all add: node_vals_def take_map drop_map)

lemma list_insert_step:
  assumes l: "dll h l as" "node_vals h as = vs" "owns g h as" and new: "alloc h \<notin> dom h" and small: "Suc (length vs) < 2 ^ 64"
  shows "\<exists>s'. list_op_step alloc (Insert i after v) (h, l) = Some s' \<and> shows_list g s' (seq_op (Insert i after v) vs)"
proof (cases "seq_index vs i")
  case None
  then show ?thesis
    using listIndex_seq [OF l(1,2)] l by (auto simp: shows_list_def)
next
  case (Some k)
  have len: "length as = length vs"
    using l(2) by (auto simp: node_vals_def)
  define xs ys where "xs = take k as" and "ys = drop (Suc k) as"
  have as: "as = xs @ as ! k # ys"
    using seq_index_split [OF Some len] by (simp add: xs_def ys_def)
  have k: "k < length as"
    using seq_index_split [OF Some len] len by simp
  have vals: "node_vals h xs = take k vs" "node_vals h (xs @ [as ! k]) = take (Suc k) vs"
    "node_vals h ys = drop (Suc k) vs" "node_vals h (as ! k # ys) = drop k vs"
    using k l(2) by (simp_all add: xs_def ys_def node_vals_take_drop Cons_nth_drop_Suc [symmetric] take_Suc_conv_app_nth)
      (auto simp: node_vals_def take_Suc_conv_app_nth Cons_nth_drop_Suc [symmetric])
  have d: "dll h l (xs @ as ! k # ys)" "length (xs @ as ! k # ys) + 1 < 2 ^ 64"
    using l(1) small as len by auto
  have sets: "set (xs @ as ! k # ys) = set as" "set (xs @ as ! k # alloc h # ys) = insert (alloc h) (set as)"
    "set (xs @ alloc h # as ! k # ys) = insert (alloc h) (set as)"
    using arg_cong [OF as, of set] by auto
  have own: "owns g h (xs @ as ! k # ys)" "\<forall>b \<in> set (xs @ as ! k # alloc h # ys). g b = None" "\<forall>b \<in> set (xs @ alloc h # as ! k # ys). g b = None"
    using l(3) new unfolding owns_def sets by auto
  show ?thesis
  proof (cases "after")
    case True
    then show ?thesis
      using listInsertNode_after [OF d(1) new d(2), of v] listIndex_seq [OF l(1,2), of i] Some vals
      by (auto simp del: node_vals_simps dest!: shows_list_step [OF own(1,2)])
  next
    case False
    then show ?thesis
      using listInsertNode_before [OF d(1) new d(2), of v] listIndex_seq [OF l(1,2), of i] Some vals
      by (auto dest!: shows_list_step [OF own(1,3)])
  qed
qed


lemma list_delete_step:
  assumes l: "dll h l as" "node_vals h as = vs" "owns g h as"
  shows "\<exists>s'. list_op_step alloc (Delete i) (h, l) = Some s' \<and> shows_list g s' (seq_op (Delete i) vs)"
proof (cases "seq_index vs i")
  case None
  then show ?thesis
    using listIndex_seq [OF l(1,2)] l by (auto simp: shows_list_def)
next
  case (Some k)
  have len: "length as = length vs"
    using l(2) by (auto simp: node_vals_def)
  have d: "dll h l (take k as @ as ! k # drop (Suc k) as)"
    using l(1) seq_index_split(2) [OF Some len] by simp
  have own: "owns g h (take k as @ as ! k # drop (Suc k) as)" "\<forall>b \<in> set (take k as @ drop (Suc k) as). g b = None"
    using l(3) seq_index_split(2) [OF Some len] set_take_subset [of k as] set_drop_subset [of "Suc k" as] by (auto simp: owns_def)
  show ?thesis
    using listDelNode_correct [OF d] listIndex_seq [OF l(1,2), of i] Some l(2)
    by (auto simp: node_vals_take_drop dest!: shows_list_step [OF own])
qed

lemma set_butlast_last: "as \<noteq> [] \<Longrightarrow> insert (last as) (set (butlast as)) = set as"
  by (induction as) auto

lemma list_rotate_step:
  assumes l: "dll h l as" "node_vals h as = vs" "owns g h as" and op: "op = TailToHead \<or> op = HeadToTail"
  shows "\<exists>s'. list_op_step alloc op (h, l) = Some s' \<and> shows_list g s' (seq_op op vs)"
proof (cases "length as \<le> 1")
  case True
  then have "seq_op op vs = vs"
    using op l(2) by (cases as) auto
  moreover have "shows_list g (h, l) vs"
    using l by (auto simp: shows_list_def)
  ultimately show ?thesis
    using True op l(1) by (auto simp: listRotateTailToHead_def listRotateHeadToTail_def dll_def)
next
  case False
  then obtain x y zs where as: "as = x # y # zs"
    by (cases as; cases "tl as") auto
  have tail: "dll h l (butlast as @ [last as])" "butlast as \<noteq> []"
    using l(1) as by auto
  have head: "dll h l (x # y # zs)" "y # zs \<noteq> []"
    using l(1) as by auto
  have "as \<noteq> []"
    using as by simp
  then have tail_set: "butlast as @ [last as] = as" "set (last as # butlast as) = set as"
    by (simp_all add: set_butlast_last)
  have "seq_op TailToHead vs = nvalue (the (h (last as))) # node_vals h (butlast as)"
    using l(2) as by (auto simp: node_vals_def last_map map_butlast)
  moreover have "seq_op HeadToTail vs = node_vals h (y # zs) @ [nvalue (the (h x))]"
    using l(2) as by auto
  moreover have own: "owns g h (butlast as @ [last as])" "owns g h (x # y # zs)" "\<forall>b \<in> set (last as # butlast as). g b = None"
    "\<forall>b \<in> set ((y # zs) @ [x]). g b = None"
    using l(3) as unfolding tail_set by (auto simp: owns_def)
  ultimately show ?thesis
    using listRotateTailToHead_correct [OF tail] listRotateHeadToTail_correct [OF head] op
      shows_list_step [OF own(1,3)] shows_list_step [OF own(2,4)] by (metis list_op_step.simps(5,6))
qed

lemma list_op_step_law:
  assumes alloc: "\<And>h. finite (dom h) \<Longrightarrow> alloc h \<notin> dom h" and s: "shows_list g s vs" "Suc (length vs) < 2 ^ 64"
  shows "\<exists>s'. list_op_step alloc op s = Some s' \<and> shows_list g s' (seq_op op vs)"
proof -
  obtain h l as where s_def: "s = (h, l)" and l: "dll h l as" "node_vals h as = vs" "owns g h as"
    using s(1) by (cases s) (auto simp: shows_list_def)
  have new: "alloc h \<notin> dom h"
    using alloc [of h] l(3) unfolding owns_def by blast
  have small: "length as + 1 < 2 ^ 64"
    using s(2) l(2) by (auto simp: node_vals_def)
  have own: "\<forall>b \<in> set (alloc h # as). g b = None" "\<forall>b \<in> set (as @ [alloc h]). g b = None"
    using l(3) new by (auto simp: owns_def)
  have "c \<notin> set as" if "c \<in> dom g" for c
    using that l(3) by (auto simp: owns_def)
  then have gone: "owns g (h |` (- set as)) []"
    using l(3) by (auto simp: owns_def restrict_in)
  note cases = list_insert_step [where alloc = alloc, OF l new s(2)] list_delete_step [where alloc = alloc, OF l]
    list_rotate_step [where alloc = alloc, OF l]
  show ?thesis
  proof (cases op)
    case (AddHead v)
    then show ?thesis
      using listAddNodeHead_correct [OF l(1) new small, of v] l(2) s_def by (auto dest!: shows_list_step [OF l(3) own(1)])
  next
    case (AddTail v)
    then show ?thesis
      using listAddNodeTail_correct [OF l(1) new small, of v] l(2) s_def by (auto dest!: shows_list_step [OF l(3) own(2)])
  next
    case Empty
    then show ?thesis
      using listEmpty_correct [OF l(1)] gone s_def by (auto simp: shows_list_def dll_def)
  qed (use cases s_def in blast)+
qed

section \<open>Removal during an iteration\<close>

text \<open>
  The usual loop of a client that walks over a list and removes some of the nodes it gets from \<open>listNext\<close>.
\<close>

partial_function (option) list_purge :: "('v \<Rightarrow> bool) \<Rightarrow> 'v node_heap \<Rightarrow> 'v alist \<Rightarrow> listIter \<Rightarrow> ('v node_heap \<times> 'v alist) option" where
  "list_purge P h l iter =
     Option.bind (listNext h iter) (\<lambda>(iter, node).
       case node of
         None \<Rightarrow> Some (h, l)
       | Some a \<Rightarrow>
          Option.bind (h a) (\<lambda>n.
            if P (nvalue n) then Option.bind (listDelNode h l a) (\<lambda>(h, l, freed). list_purge P h l iter)
            else list_purge P h l iter))"

lemma list_purge_loop:
  "dll h l (xs @ ys) \<Longrightarrow>
   \<exists>h' l'. list_purge P h l \<lparr>inext = first_of ys None, from_head = True\<rparr> = Some (h', l') \<and>
     dll_step h l (xs @ ys) h' l' (xs @ filter (\<lambda>a. \<not> P (nvalue (the (h a)))) ys)
       (node_vals h xs @ filter (\<lambda>v. \<not> P v) (node_vals h ys))"
proof (induction ys arbitrary: h l xs)
  case Nil
  then have "dll_step h l xs h l xs (node_vals h xs)"
    using dll_dom [of h l xs] by (auto simp: dll_step_def)
  then show ?case
    by (subst list_purge.simps) (simp add: listNext_end)
next
  case (Cons a ys)
  have links: "links h (last_of xs None) (a # ys) None"
    using Cons.prems by (simp add: dll_def links_append)
  then obtain n where n: "h a = Some n"
    by auto
  note next_eq = listNext_forward [OF links]
  show ?case
  proof (cases "P (nvalue n)")
    case True
    obtain h1 l1 where d: "listDelNode h l a = Some (h1, l1, if lfree l then [nvalue (the (h a))] else [])"
      "dll_step h l (xs @ a # ys) h1 l1 (xs @ ys) (node_vals h xs @ node_vals h ys)"
      using listDelNode_correct [OF Cons.prems] by blast
    have vals: "node_vals h1 xs = node_vals h xs" "node_vals h1 ys = node_vals h ys"
      using d(2) by (auto simp: dll_step_def node_vals_def)
    have "filter (\<lambda>a. \<not> P (nvalue (the (h1 a)))) ys = filter (\<lambda>a. \<not> P (nvalue (the (h a)))) ys"
      using vals(2) by (auto simp: node_vals_def intro!: filter_cong)
    then obtain h2 l2 where r: "list_purge P h1 l1 \<lparr>inext = first_of ys None, from_head = True\<rparr> = Some (h2, l2)"
      "dll_step h1 l1 (xs @ ys) h2 l2 (xs @ filter (\<lambda>a. \<not> P (nvalue (the (h a)))) ys)
        (node_vals h xs @ filter (\<lambda>v. \<not> P v) (node_vals h ys))"
      using Cons.IH [of h1 l1 xs] d(2) vals by (auto simp: dll_step_def)
    have "a \<notin> set xs" "a \<notin> set ys"
      using Cons.prems by (auto simp: dll_def)
    then have "dll_step h l (xs @ a # ys) h2 l2 (xs @ filter (\<lambda>a. \<not> P (nvalue (the (h a)))) ys)
        (node_vals h xs @ filter (\<lambda>v. \<not> P v) (node_vals h ys))"
      using d(2) r(2) by (auto simp: dll_step_def)
    then show ?thesis
      using next_eq d(1) r(1) n True by (subst list_purge.simps) simp
  next
    case False
    then show ?thesis
      using Cons.IH [of h l "xs @ [a]"] Cons.prems next_eq n by (subst list_purge.simps) simp
  qed
qed


section \<open>Properties\<close>

text \<open>An allocator: the address after the highest one in use.\<close>

definition next_addr :: "'v node_heap \<Rightarrow> nat" where
  "next_addr h = Suc (Max (insert 0 (dom h)))"

lemma next_addr_fresh: "finite (dom h) \<Longrightarrow> next_addr h \<notin> dom h"
  unfolding next_addr_def by (metis Max_ge Suc_n_not_le_n finite_insert insertI2)

interpretation adlist: value_sequence "list_op_step next_addr" "shows_list g" "2 ^ 64" for g
  by unfold_locales (rule list_op_step_law [OF next_addr_fresh])

text \<open>C6: Every sequence of fewer than \<open>2 ^ 64\<close> insertions (at either end, before or after the node of an index),
  deletions, rotations and clearings, on a list created empty beside other lists, succeeds: no freed or null node is
  used, the list holds the values that the same operations give on a sequence, its links agree in both directions, its
  length is the number of nodes, the nodes of the other lists are not touched and no node is leaked.
\<close>

theorem list_ops_correct:
  assumes "\<forall>h. finite (dom h) \<longrightarrow> alloc h \<notin> dom h" and "finite (dom g)" and "length ops < 2 ^ 64"
  shows "\<exists>h l as. run_seq (list_op_step alloc) ops (g, listCreate) = Some (h, l) \<and> dll h l as \<and>
    node_vals h as = fold seq_op ops [] \<and> dom h = dom g \<union> set as \<and> (\<forall>c \<in> dom g. h c = g c)"
proof -
  have "\<And>h. finite (dom h) \<Longrightarrow> alloc h \<notin> dom h"
    using assms(1) by blast
  then have "value_sequence (list_op_step alloc) (shows_list g) (2 ^ 64)"
    by unfold_locales (rule list_op_step_law)
  moreover have "shows_list g (g, listCreate) []"
    using assms(2) by (auto simp: shows_list_def owns_def intro!: exI [of _ "[]"] listCreate_dll)
  ultimately obtain s' where "run_seq (list_op_step alloc) ops (g, listCreate) = Some s'" "shows_list g s' (fold seq_op ops [])"
    using value_sequence.run_refines [of "list_op_step alloc" "shows_list g" "2 ^ 64" "(g, listCreate)" "[]" ops] assms(3) by auto
  then show ?thesis
    by (cases s') (auto simp: shows_list_def owns_def)
qed

theorem list_ops_correct_witness:
  "\<exists>h l as. run_seq (list_op_step next_addr) [AddTail (1 :: nat), AddHead 2, Insert 1 False 3, TailToHead, Delete (- 1)]
      (Map.empty, listCreate) = Some (h, l) \<and> dll h l as \<and> node_vals h as = [1, 2]"
  using list_ops_correct [of next_addr Map.empty "[AddTail (1 :: nat), AddHead 2, Insert 1 False 3, TailToHead, Delete (- 1)]"]
  by (simp add: next_addr_fresh seq_index_def) blast

text \<open>C27: A client that walks over a list with \<open>listNext\<close> from the head and removes the nodes it gets whose value
  satisfies a predicate reaches every node: the nodes left are, in order, those whose value does not satisfy it.
\<close>

theorem listNext_removal:
  assumes "dll h l as"
  shows "\<exists>h' l' bs. list_purge P h l (listRewind l) = Some (h', l') \<and> dll h' l' bs \<and>
    node_vals h' bs = filter (\<lambda>v. \<not> P v) (node_vals h as) \<and> (\<forall>c. c \<notin> set as \<longrightarrow> h' c = h c)"
proof -
  obtain h' l' where r: "list_purge P h l (listRewind l) = Some (h', l')"
    "dll_step h l as h' l' (filter (\<lambda>a. \<not> P (nvalue (the (h a)))) as) (filter (\<lambda>v. \<not> P v) (node_vals h as))"
    using list_purge_loop [of h l "[]" as P] assms by (auto simp: listRewind_start)
  then show ?thesis
    by (auto simp: dll_step_def)
qed

definition two_list :: "nat node_heap \<times> nat alist" where
  "two_list = ([7 \<mapsto> \<lparr>nprev = None, nnext = Some 4, nvalue = 10\<rparr>, 4 \<mapsto> \<lparr>nprev = Some 7, nnext = None, nvalue = 5\<rparr>],
     listCreate\<lparr>lhead := Some 7, ltail := Some 4, llen := 2\<rparr>)"

lemma two_list_dll: "dll (fst two_list) (snd two_list) [7, 4]" "node_vals (fst two_list) [7, 4] = [10, 5]"
  by (simp_all add: two_list_def dll_def listCreate_def)

theorem listNext_removal_witness:
  "\<exists>h' l' bs. list_purge (\<lambda>v. v > 6) (fst two_list) (snd two_list) (listRewind (snd two_list)) = Some (h', l') \<and>
    dll h' l' bs \<and> node_vals h' bs = [5]"
  using listNext_removal [OF two_list_dll(1), of "\<lambda>v. v > 6"] by (simp only: two_list_dll(2)) auto

text \<open>C36: \<open>listDup\<close> of a list either returns a new list with the duplicated values in order, on nodes of its own and with
  the methods of the original, or, when the method \<open>dup\<close> fails on some value, returns \<open>NULL\<close> and releases every node it
  made. The nodes of the original are the same in both cases.
\<close>

theorem listDup_correct:
  assumes "\<forall>h. finite (dom h) \<longrightarrow> alloc h \<notin> dom h" and "finite (dom h)" and "dll h orig as"
  shows "\<exists>h' res. listDup alloc h orig = Some (h', res) \<and>
    (case map_dup (ldup orig) (node_vals h as) of
       None \<Rightarrow> res = None \<and> h' = h
     | Some ws \<Rightarrow> \<exists>copy bs. res = Some copy \<and> dll h' copy bs \<and> node_vals h' bs = ws \<and>
         list_methods copy = list_methods orig \<and> dom h' = dom h \<union> set bs \<and> (\<forall>c \<in> dom h. c \<notin> set bs \<and> h' c = h c))"
proof -
  let ?c = "listCreate\<lparr>ldup := ldup orig, lfree := lfree orig, lmatch := lmatch orig\<rparr>"
  have c: "dll h ?c []" "list_methods ?c = list_methods orig" "ldup ?c = ldup orig"
    by (simp_all add: dll_def listCreate_def list_methods_def)
  have o: "links h None as None" "length [] + length as < 2 ^ 64"
    using assms(3) by (auto simp: dll_def)
  have res: "h |` (- set []) = h"
    by (simp add: restrict_map_def)
  have alloc: "\<And>h. finite (dom h) \<Longrightarrow> alloc h \<notin> dom h"
    using assms(1) by blast
  have disj: "set as \<inter> set [] = {}"
    by simp
  have dup: "listDup alloc h orig = listDup_loop alloc h \<lparr>inext = first_of as None, from_head = True\<rparr> ?c"
    unfolding listDup_def listRewind_start [OF assms(3)] ..
  note loop = listDup_loop_correct [OF alloc o(1) c(1) assms(2) disj o(2), unfolded c(3) res, folded dup]
  show ?thesis
  proof (cases "map_dup (ldup orig) (node_vals h as)")
    case None
    then show ?thesis
      using loop by simp
  next
    case (Some ws)
    then obtain h' copy bs where "listDup alloc h orig = Some (h', Some copy)"
      and step: "dll_step h ?c [] h' copy bs ws" and bs: "set bs \<inter> dom h = {}"
      using loop by auto
    moreover have "\<forall>b \<in> dom h. b \<notin> set bs \<and> h' b = h b" "dom h' = dom h \<union> set bs"
      using step bs by (auto simp: dll_step_def)
    ultimately show ?thesis
      using Some step c(2) unfolding dll_step_def by (intro exI [of _ h'] exI [of _ "Some copy"]) auto
  qed
qed

theorem listDup_correct_witness:
  "\<exists>h' copy bs. listDup next_addr (fst two_list) (snd two_list) = Some (h', Some copy) \<and> dll h' copy bs \<and> node_vals h' bs = [10, 5]"
proof -
  have "map_dup (ldup (snd two_list)) (node_vals (fst two_list) [7, 4]) = Some [10, 5]"
    by (simp add: two_list_def listCreate_def)
  moreover have "finite (dom (fst two_list))"
    by (simp add: two_list_def)
  moreover have "\<forall>h :: nat node_heap. finite (dom h) \<longrightarrow> next_addr h \<notin> dom h"
    using next_addr_fresh by blast
  ultimately show ?thesis
    using listDup_correct [OF _ _ two_list_dll(1), of next_addr] by (auto simp del: node_vals_simps map_dup.simps)
qed

end
