(* ===== verification/Object.thy ===== *)
theory Object
  imports Sds
begin

text \<open>
  Objects, from \<open>redis-6.0.10/src/object.c\<close>: the reference counts, the creation of string objects in their three encodings,
  the change of the encoding, comparison, and the conversion to integers; \<open>dbUnshareStringValue\<close> is in \<open>db.c\<close>. An
  object is a record, and an operation returns the object it leaves. Lists, sets and the other types are the type
  parameter of the field \<open>ptr\<close>. The field \<open>lru\<close> is not modelled, since no operation here reads it.
\<close>



section \<open>Definitions\<close>

datatype obj_type = OBJ_STRING | OBJ_LIST | OBJ_SET | OBJ_ZSET | OBJ_HASH | OBJ_MODULE | OBJ_STREAM

datatype obj_encoding = OBJ_ENCODING_RAW | OBJ_ENCODING_INT | OBJ_ENCODING_HT | OBJ_ENCODING_ZIPMAP
  | OBJ_ENCODING_LINKEDLIST | OBJ_ENCODING_ZIPLIST | OBJ_ENCODING_INTSET | OBJ_ENCODING_SKIPLIST
  | OBJ_ENCODING_EMBSTR | OBJ_ENCODING_QUICKLIST | OBJ_ENCODING_STREAM

text \<open>The field \<open>ptr\<close>: a string, the number of the encoding \<open>INT\<close>, or the data of another type of value.\<close>

datatype 'x obj_ptr = Ptr_sds sds | Ptr_long int | Ptr_data 'x

record 'x robj =
  otype :: obj_type
  oenc :: obj_encoding
  refcount :: int
  optr :: "'x obj_ptr"

definition OBJ_SHARED_REFCOUNT :: int where
  "OBJ_SHARED_REFCOUNT = 2147483647"

definition OBJ_STATIC_REFCOUNT :: int where
  "OBJ_STATIC_REFCOUNT = OBJ_SHARED_REFCOUNT - 1"

definition OBJ_SHARED_INTEGERS :: int where
  "OBJ_SHARED_INTEGERS = 10000"

text \<open>The configuration the object layer reads: \<open>maxmemory\<close>, and whether the policy needs private integers.\<close>

record server_conf =
  maxmemory :: nat
  no_shared_integers :: bool

definition createObject :: "obj_type \<Rightarrow> 'x obj_ptr \<Rightarrow> 'x robj" where
  "createObject type ptr = \<lparr>otype = type, oenc = OBJ_ENCODING_RAW, refcount = 1, optr = ptr\<rparr>"

definition makeObjectShared :: "'x robj \<Rightarrow> 'x robj option" where
  "makeObjectShared ob = (if refcount ob = 1 then Some (ob\<lparr>refcount := OBJ_SHARED_REFCOUNT\<rparr>) else None)"

definition createRawStringObject :: "(nat \<Rightarrow> byte) \<Rightarrow> sds_init \<Rightarrow> nat \<Rightarrow> 'x robj option" where
  "createRawStringObject junk ptr len =
     do { s \<leftarrow> sdsnewlen junk ptr len; Some (createObject OBJ_STRING (Ptr_sds s)) }"

text \<open>
  The object and the string are one block: \<open>sizeof(robj)\<close> is 16 bytes and the header of the string 3. A size that wraps
  around is \<open>None\<close>.
\<close>

definition createEmbeddedStringObject :: "(nat \<Rightarrow> byte) \<Rightarrow> sds_init \<Rightarrow> nat \<Rightarrow> 'x robj option" where
  "createEmbeddedStringObject junk ptr len =
     do { n \<leftarrow> sds_room (16 + sdsHdrSize SDS_TYPE_8) len;
          let buf = fresh_block junk n;
          buf \<leftarrow> (case ptr of
                     SDS_NOINIT \<Rightarrow> mem_set buf len 0
                   | Init p \<Rightarrow> do { bs \<leftarrow> mem_read p 0 len; buf \<leftarrow> mem_write buf 0 bs; mem_set buf len 0 }
                   | NULL \<Rightarrow> mem_write buf 0 (replicate (len + 1) 0));
          Some \<lparr>otype = OBJ_STRING, oenc = OBJ_ENCODING_EMBSTR, refcount = 1,
                optr = Ptr_sds \<lparr>sh_type = SDS_TYPE_8, sh_len = len mod 256, sh_alloc = len mod 256, sh_buf = buf\<rparr>\<rparr> }"

definition OBJ_ENCODING_EMBSTR_SIZE_LIMIT :: nat where
  "OBJ_ENCODING_EMBSTR_SIZE_LIMIT = 44"

definition createStringObject :: "(nat \<Rightarrow> byte) \<Rightarrow> sds_init \<Rightarrow> nat \<Rightarrow> 'x robj option" where
  "createStringObject junk ptr len =
     (if len \<le> OBJ_ENCODING_EMBSTR_SIZE_LIMIT then createEmbeddedStringObject junk ptr len
      else createRawStringObject junk ptr len)"

text \<open>The object \<open>shared.integers[v]\<close> that \<open>createSharedObjects\<close> makes.\<close>

definition shared_integers :: "int \<Rightarrow> 'x robj" where
  "shared_integers v = \<lparr>otype = OBJ_STRING, oenc = OBJ_ENCODING_INT, refcount = OBJ_SHARED_REFCOUNT, optr = Ptr_long v\<rparr>"

definition incrRefCount :: "'x robj \<Rightarrow> 'x robj option" where
  "incrRefCount ob =
     (if refcount ob < OBJ_STATIC_REFCOUNT then Some (ob\<lparr>refcount := refcount ob + 1\<rparr>)
      else if refcount ob = OBJ_SHARED_REFCOUNT then Some ob
      else if refcount ob = OBJ_STATIC_REFCOUNT then None else Some ob)"

text \<open>The object after a reference to it is dropped; \<open>Some None\<close> is an object that was freed.\<close>

definition decrRefCount :: "'x robj \<Rightarrow> 'x robj option option" where
  "decrRefCount ob =
     (if refcount ob = 1 then Some None
      else if refcount ob \<le> 0 then None
      else if refcount ob \<noteq> OBJ_SHARED_REFCOUNT then Some (Some (ob\<lparr>refcount := refcount ob - 1\<rparr>))
      else Some (Some ob))"

definition resetRefCount :: "'x robj \<Rightarrow> 'x robj" where
  "resetRefCount ob = ob\<lparr>refcount := 0\<rparr>"

definition createStringObjectFromLongLongWithOptions :: "server_conf \<Rightarrow> (nat \<Rightarrow> byte) \<Rightarrow> int \<Rightarrow> bool \<Rightarrow> 'x robj option" where
  "createStringObjectFromLongLongWithOptions conf junk v valueobj =
     (let valueobj = (if maxmemory conf = 0 \<or> \<not> no_shared_integers conf then False else valueobj) in
      if 0 \<le> v \<and> v < OBJ_SHARED_INTEGERS \<and> \<not> valueobj then incrRefCount (shared_integers v)
      else if LLONG_MIN \<le> v \<and> v \<le> LLONG_MAX then
        Some ((createObject OBJ_STRING (Ptr_long v))\<lparr>oenc := OBJ_ENCODING_INT\<rparr>)
      else do { s \<leftarrow> sdsfromlonglong junk v; Some (createObject OBJ_STRING (Ptr_sds s)) })"

definition createStringObjectFromLongLong :: "server_conf \<Rightarrow> (nat \<Rightarrow> byte) \<Rightarrow> int \<Rightarrow> 'x robj option" where
  "createStringObjectFromLongLong conf junk v = createStringObjectFromLongLongWithOptions conf junk v False"

definition createStringObjectFromLongLongForValue :: "server_conf \<Rightarrow> (nat \<Rightarrow> byte) \<Rightarrow> int \<Rightarrow> 'x robj option" where
  "createStringObjectFromLongLongForValue conf junk v = createStringObjectFromLongLongWithOptions conf junk v True"

definition dupStringObject :: "(nat \<Rightarrow> byte) \<Rightarrow> 'x robj \<Rightarrow> 'x robj option" where
  "dupStringObject junk ob =
     (if otype ob \<noteq> OBJ_STRING then None
      else case (oenc ob, optr ob) of
        (OBJ_ENCODING_RAW, Ptr_sds s) \<Rightarrow> createRawStringObject junk (Init (sh_buf s)) (sdslen s)
      | (OBJ_ENCODING_EMBSTR, Ptr_sds s) \<Rightarrow> createEmbeddedStringObject junk (Init (sh_buf s)) (sdslen s)
      | (OBJ_ENCODING_INT, p) \<Rightarrow> Some ((createObject OBJ_STRING p)\<lparr>oenc := OBJ_ENCODING_INT\<rparr>)
      | _ \<Rightarrow> None)"

definition sdsEncodedObject :: "'x robj \<Rightarrow> bool" where
  "sdsEncodedObject ob \<longleftrightarrow> oenc ob = OBJ_ENCODING_RAW \<or> oenc ob = OBJ_ENCODING_EMBSTR"

text \<open>The string at \<open>ob->ptr\<close> when the object is encoded as one, and the number when it is encoded as a number.\<close>

definition obj_sds :: "'x robj \<Rightarrow> sds option" where
  "obj_sds ob = (case optr ob of Ptr_sds s \<Rightarrow> Some s | _ \<Rightarrow> None)"

definition obj_long :: "'x robj \<Rightarrow> int option" where
  "obj_long ob = (case optr ob of Ptr_long v \<Rightarrow> Some v | _ \<Rightarrow> None)"

definition checkType :: "'x robj \<Rightarrow> obj_type \<Rightarrow> bool" where
  "checkType ob type \<longleftrightarrow> otype ob \<noteq> type"

text \<open>The inner \<open>None\<close> is the result \<open>C_ERR\<close>.\<close>

definition isSdsRepresentableAsLongLong :: "sds \<Rightarrow> int option option" where
  "isSdsRepresentableAsLongLong s = do { bs \<leftarrow> mem_read (sh_buf s) 0 (sdslen s); Some (string2ll bs) }"

definition isObjectRepresentableAsLongLong :: "'x robj \<Rightarrow> int option option" where
  "isObjectRepresentableAsLongLong ob =
     (if otype ob \<noteq> OBJ_STRING then None
      else if oenc ob = OBJ_ENCODING_INT then do { v \<leftarrow> obj_long ob; Some (Some v) }
      else do { s \<leftarrow> obj_sds ob; isSdsRepresentableAsLongLong s })"

definition trimStringObjectIfNeeded :: "(nat \<Rightarrow> byte) \<Rightarrow> 'x robj \<Rightarrow> 'x robj option" where
  "trimStringObjectIfNeeded junk ob =
     (if oenc ob = OBJ_ENCODING_RAW then
        do { s \<leftarrow> obj_sds ob;
             if sdsavail s > sdslen s div 10 then do { s \<leftarrow> sdsRemoveFreeSpace junk s; Some (ob\<lparr>optr := Ptr_sds s\<rparr>) }
             else Some ob }
      else Some ob)"

text \<open>The branch of \<open>tryObjectEncoding\<close> for a string that is a number.\<close>

definition encode_long :: "server_conf \<Rightarrow> (nat \<Rightarrow> byte) \<Rightarrow> 'x robj \<Rightarrow> int \<Rightarrow> 'x robj option" where
  "encode_long conf junk ob v =
     (if (maxmemory conf = 0 \<or> \<not> no_shared_integers conf) \<and> 0 \<le> v \<and> v < OBJ_SHARED_INTEGERS then
        do { _ \<leftarrow> decrRefCount ob; incrRefCount (shared_integers v) }
      else if oenc ob = OBJ_ENCODING_RAW then Some (ob\<lparr>oenc := OBJ_ENCODING_INT, optr := Ptr_long v\<rparr>)
      else do { _ \<leftarrow> decrRefCount ob; createStringObjectFromLongLongForValue conf junk v })"

definition tryObjectEncoding :: "server_conf \<Rightarrow> (nat \<Rightarrow> byte) \<Rightarrow> 'x robj \<Rightarrow> 'x robj option" where
  "tryObjectEncoding conf junk ob =
     (if otype ob \<noteq> OBJ_STRING then None
      else if \<not> sdsEncodedObject ob then Some ob
      else if refcount ob > 1 then Some ob
      else do { s \<leftarrow> obj_sds ob;
                let len = sdslen s;
                bs \<leftarrow> mem_read (sh_buf s) 0 len;
                case (if len \<le> 20 then string2l bs else None) of
                  Some v \<Rightarrow> encode_long conf junk ob v
                | None \<Rightarrow>
                    if len \<le> OBJ_ENCODING_EMBSTR_SIZE_LIMIT then
                      (if oenc ob = OBJ_ENCODING_EMBSTR then Some ob
                       else do { emb \<leftarrow> createEmbeddedStringObject junk (Init (sh_buf s)) (sdslen s);
                                 _ \<leftarrow> decrRefCount ob;
                                 Some emb })
                    else trimStringObjectIfNeeded junk ob })"

definition getDecodedObject :: "(nat \<Rightarrow> byte) \<Rightarrow> 'x robj \<Rightarrow> 'x robj option" where
  "getDecodedObject junk ob =
     (if sdsEncodedObject ob then incrRefCount ob
      else if otype ob = OBJ_STRING \<and> oenc ob = OBJ_ENCODING_INT then
        do { v \<leftarrow> obj_long ob;
             (n, buf) \<leftarrow> ll2string (fresh_block junk 32) 32 v;
             len \<leftarrow> strlen buf;
             createStringObject junk (Init buf) len }
      else None)"

text \<open>
  The bytes that are compared: those of the string, or the notation of the number in a buffer of 128 bytes. \<open>same\<close> is the
  test \<open>a == b\<close> of the two pointers, and \<open>strcoll\<close> the function of the C library.
\<close>

definition cmp_bytes :: "(nat \<Rightarrow> byte) \<Rightarrow> 'x robj \<Rightarrow> (bytes \<times> nat) option" where
  "cmp_bytes junk ob =
     (if sdsEncodedObject ob then do { s \<leftarrow> obj_sds ob; Some (sh_buf s, sdslen s) }
      else do { v \<leftarrow> obj_long ob; (n, buf) \<leftarrow> ll2string (fresh_block junk 128) 128 v; Some (buf, n) })"

definition compareStringObjectsWithFlags :: "(bytes \<Rightarrow> bytes \<Rightarrow> int) \<Rightarrow> (nat \<Rightarrow> byte) \<Rightarrow> bool \<Rightarrow> 'x robj \<Rightarrow> 'x robj \<Rightarrow> bool \<Rightarrow>
    int option" where
  "compareStringObjectsWithFlags strcoll junk same a b coll =
     (if otype a \<noteq> OBJ_STRING \<or> otype b \<noteq> OBJ_STRING then None
      else if same then Some 0
      else do { (astr, alen) \<leftarrow> cmp_bytes junk a;
                (bstr, blen) \<leftarrow> cmp_bytes junk b;
                if coll then Some (strcoll astr bstr)
                else do { x \<leftarrow> mem_read astr 0 (min alen blen);
                          y \<leftarrow> mem_read bstr 0 (min alen blen);
                          let cmp = memcmp x y;
                          Some (if cmp = 0 then s32 (u64_sub alen blen) else cmp) } })"

definition compareStringObjects :: "(bytes \<Rightarrow> bytes \<Rightarrow> int) \<Rightarrow> (nat \<Rightarrow> byte) \<Rightarrow> bool \<Rightarrow> 'x robj \<Rightarrow> 'x robj \<Rightarrow> int option" where
  "compareStringObjects strcoll junk same a b = compareStringObjectsWithFlags strcoll junk same a b False"

definition collateStringObjects :: "(bytes \<Rightarrow> bytes \<Rightarrow> int) \<Rightarrow> (nat \<Rightarrow> byte) \<Rightarrow> bool \<Rightarrow> 'x robj \<Rightarrow> 'x robj \<Rightarrow> int option" where
  "collateStringObjects strcoll junk same a b = compareStringObjectsWithFlags strcoll junk same a b True"

definition equalStringObjects :: "(bytes \<Rightarrow> bytes \<Rightarrow> int) \<Rightarrow> (nat \<Rightarrow> byte) \<Rightarrow> bool \<Rightarrow> 'x robj \<Rightarrow> 'x robj \<Rightarrow> bool option" where
  "equalStringObjects strcoll junk same a b =
     (if oenc a = OBJ_ENCODING_INT \<and> oenc b = OBJ_ENCODING_INT then
        do { v \<leftarrow> obj_long a; w \<leftarrow> obj_long b; Some (v = w) }
      else do { c \<leftarrow> compareStringObjects strcoll junk same a b; Some (c = 0) })"

definition stringObjectLen :: "'x robj \<Rightarrow> nat option" where
  "stringObjectLen ob =
     (if otype ob \<noteq> OBJ_STRING then None
      else if sdsEncodedObject ob then do { s \<leftarrow> obj_sds ob; Some (sdslen s) }
      else do { v \<leftarrow> obj_long ob; Some (sdigits10 v) })"

definition getLongLongFromObject :: "'x robj option \<Rightarrow> int option option" where
  "getLongLongFromObject ob =
     (case ob of
        None \<Rightarrow> Some (Some 0)
      | Some ob \<Rightarrow>
          if otype ob \<noteq> OBJ_STRING then None
          else if sdsEncodedObject ob then do { s \<leftarrow> obj_sds ob; isSdsRepresentableAsLongLong s }
          else if oenc ob = OBJ_ENCODING_INT then do { v \<leftarrow> obj_long ob; Some (Some v) }
          else None)"

text \<open>\<open>Inl\<close> is the error sent to the client.\<close>

definition getLongLongFromObjectOrReply :: "'x robj option \<Rightarrow> string option \<Rightarrow> (string + int) option" where
  "getLongLongFromObjectOrReply ob msg =
     do { r \<leftarrow> getLongLongFromObject ob;
          Some (case r of
                  None \<Rightarrow> Inl (case msg of Some m \<Rightarrow> m | None \<Rightarrow> ''value is not an integer or out of range'')
                | Some v \<Rightarrow> Inr v) }"

definition getLongFromObjectOrReply :: "'x robj option \<Rightarrow> string option \<Rightarrow> (string + int) option" where
  "getLongFromObjectOrReply ob msg =
     do { r \<leftarrow> getLongLongFromObjectOrReply ob msg;
          Some (case r of
                  Inl e \<Rightarrow> Inl e
                | Inr v \<Rightarrow>
                    if v < LLONG_MIN \<or> v > LLONG_MAX then
                      Inl (case msg of Some m \<Rightarrow> m | None \<Rightarrow> ''value is out of range'')
                    else Inr v) }"

text \<open>
  \<open>dbUnshareStringValue\<close> of \<open>db.c\<close>: the object that is stored under the key afterwards.
\<close>

definition dbUnshareStringValue :: "(nat \<Rightarrow> byte) \<Rightarrow> 'x robj \<Rightarrow> 'x robj option" where
  "dbUnshareStringValue junk ob =
     (if otype ob \<noteq> OBJ_STRING then None
      else if refcount ob \<noteq> 1 \<or> oenc ob \<noteq> OBJ_ENCODING_RAW then
        do { dec \<leftarrow> getDecodedObject junk ob;
             s \<leftarrow> obj_sds dec;
             new \<leftarrow> createRawStringObject junk (Init (sh_buf s)) (sdslen s);
             _ \<leftarrow> decrRefCount dec;
             Some new }
      else Some ob)"

section \<open>Values of string objects\<close>

definition str_obj :: "'x robj \<Rightarrow> bool" where
  "str_obj ob \<longleftrightarrow> otype ob = OBJ_STRING \<and> 0 < refcount ob \<and> refcount ob \<noteq> OBJ_STATIC_REFCOUNT \<and>
     (case optr ob of
        Ptr_sds s \<Rightarrow> sds_ok s \<and> sh_len s < 2 ^ 32 \<and>
          (oenc ob = OBJ_ENCODING_RAW \<or> oenc ob = OBJ_ENCODING_EMBSTR \<and> sh_len s \<le> OBJ_ENCODING_EMBSTR_SIZE_LIMIT)
      | Ptr_long v \<Rightarrow> oenc ob = OBJ_ENCODING_INT \<and> int64_range v
      | Ptr_data _ \<Rightarrow> False)"

definition obj_str :: "'x robj \<Rightarrow> bytes" where
  "obj_str ob = (case optr ob of Ptr_sds s \<Rightarrow> sds_str s | Ptr_long v \<Rightarrow> dec_string v | Ptr_data _ \<Rightarrow> [])"

lemma str_obj_cases:
  assumes "str_obj ob"
  obtains (Sds) s where "optr ob = Ptr_sds s" "sdsEncodedObject ob" "obj_sds ob = Some s" "sds_ok s" "sh_len s < 2 ^ 32"
      "obj_str ob = sds_str s" "oenc ob \<noteq> OBJ_ENCODING_INT"
    | (Long) v where "optr ob = Ptr_long v" "\<not> sdsEncodedObject ob" "obj_long ob = Some v" "int64_range v"
      "obj_str ob = dec_string v" "oenc ob = OBJ_ENCODING_INT"
  using assms by (cases "optr ob") (auto simp: str_obj_def sdsEncodedObject_def obj_sds_def obj_long_def obj_str_def)

lemma sds_bytes: "sds_ok s \<Longrightarrow> mem_read (sh_buf s) 0 (sdslen s) = Some (sds_str s)"
  by (auto simp: sds_ok_def sds_wf_def sdslen_def sds_str_def mem_simps)

lemma sds_str_len: "sds_ok s \<Longrightarrow> length (sds_str s) = sh_len s"
  by (auto simp: sds_ok_def sds_wf_def sds_str_def)

lemma createRawStringObject_correct:
  assumes "n \<le> length p" "n < 2 ^ 32"
  shows "\<exists>ob. createRawStringObject junk (Init p) n = Some ob \<and> str_obj ob \<and> obj_str ob = take n p \<and>
    oenc ob = OBJ_ENCODING_RAW \<and> refcount ob = 1"
proof -
  obtain s where s: "sdsnewlen junk (Init p) n = Some s" "sds_ok s" "sds_str s = take n p"
    using sdsnewlen_correct [of n p junk] assms by auto
  then have "sh_len s = n"
    using sds_str_len [of s] assms(1) by simp
  then show ?thesis
    using s assms(2) by (simp add: createRawStringObject_def createObject_def str_obj_def obj_str_def OBJ_STATIC_REFCOUNT_def
      OBJ_SHARED_REFCOUNT_def)
qed

lemma createEmbeddedStringObject_correct:
  assumes "n \<le> length p" "n \<le> OBJ_ENCODING_EMBSTR_SIZE_LIMIT"
  shows "\<exists>ob. createEmbeddedStringObject junk (Init p) n = Some ob \<and> str_obj ob \<and> obj_str ob = take n p \<and>
    oenc ob = OBJ_ENCODING_EMBSTR \<and> refcount ob = 1"
proof -
  have n: "n < 256"
    using assms(2) by (simp add: OBJ_ENCODING_EMBSTR_SIZE_LIMIT_def)
  have room: "sds_room (16 + sdsHdrSize 1) n = Some (n + 1)"
    using n by (simp add: sds_room_def sdsHdrSize_def u64_def)
  let ?buf = "(take n p @ drop n (fresh_block junk (n + 1)))[n := 0]"
  have "sds_ok \<lparr>sh_type = 1, sh_len = n, sh_alloc = n, sh_buf = ?buf\<rparr>"
    using assms n by (simp add: sds_ok_def sds_wf_def sds_bits_def)
  then show ?thesis
    using assms n room by (simp add: createEmbeddedStringObject_def mem_simps str_obj_def obj_str_def sds_str_def
      OBJ_STATIC_REFCOUNT_def OBJ_SHARED_REFCOUNT_def)
qed

lemma createStringObject_correct:
  assumes "n \<le> length p" "n < 2 ^ 32"
  shows "\<exists>ob. createStringObject junk (Init p) n = Some ob \<and> str_obj ob \<and> obj_str ob = take n p \<and> refcount ob = 1 \<and>
    sdsEncodedObject ob"
  using createRawStringObject_correct [OF assms, of junk] createEmbeddedStringObject_correct [OF assms(1), of junk]
  by (cases "n \<le> OBJ_ENCODING_EMBSTR_SIZE_LIMIT") (auto simp: createStringObject_def sdsEncodedObject_def)

lemma dec_string_nonzero: "0 \<notin> set (dec_string v)"
proof -
  have "0 \<notin> set (dec_digits n)" for n
    using dec_digits_all [of n] by (auto simp: list_all_iff is_digit_def)
  then show ?thesis
    by (simp add: dec_string_def)
qed

lemma strlen_cstring: "0 \<notin> set bs \<Longrightarrow> strlen (bs @ 0 # rest) = Some (length bs)"
  by (induction bs) auto

lemma incrRefCount_str:
  assumes "str_obj ob" "refcount ob + 1 \<noteq> OBJ_STATIC_REFCOUNT"
  shows "\<exists>ob'. incrRefCount ob = Some ob' \<and> str_obj ob' \<and> optr ob' = optr ob \<and> oenc ob' = oenc ob \<and> 1 < refcount ob'"
  using assms by (cases "optr ob") (auto simp: incrRefCount_def str_obj_def OBJ_SHARED_REFCOUNT_def OBJ_STATIC_REFCOUNT_def)

lemma getDecodedObject_correct:
  fixes ob :: "'x robj"
  assumes ob: "str_obj ob" "refcount ob + 1 \<noteq> OBJ_STATIC_REFCOUNT"
  shows "\<exists>dec s. getDecodedObject junk ob = Some dec \<and> str_obj dec \<and> obj_sds dec = Some s \<and> sds_ok s \<and>
    sh_len s < 2 ^ 32 \<and> sds_str s = obj_str ob"
  using ob(1)
proof (cases rule: str_obj_cases)
  case (Sds s)
  then show ?thesis
    using incrRefCount_str [OF ob] by (auto simp: getDecodedObject_def obj_sds_def)
next
  case (Long v)
  let ?n = "length (dec_string v)" and ?b = "dec_string v @ 0 # drop (Suc (length (dec_string v))) (fresh_block junk 32)"
  have n: "?n \<le> 20"
    using length_dec_string_le [OF Long(4)] by simp
  then have "ll2string (fresh_block junk 32) 32 v = Some (?n, ?b)"
    using ll2string_eq [OF Long(4), of 32 "fresh_block junk 32"] by simp
  moreover have "strlen ?b = Some ?n"
    by (rule strlen_cstring) (rule dec_string_nonzero)
  moreover obtain dec :: "'x robj" where dec: "createStringObject junk (Init ?b) ?n = Some dec" "str_obj dec" "obj_str dec = dec_string v"
    "sdsEncodedObject dec"
    using createStringObject_correct [of ?n ?b junk] n by auto
  moreover have "otype ob = OBJ_STRING"
    using ob(1) by (simp add: str_obj_def)
  ultimately have run: "getDecodedObject junk ob = Some dec"
    using Long by (simp add: getDecodedObject_def)
  from dec(2) show ?thesis
    using run dec Long by (cases rule: str_obj_cases) auto
qed

lemma decrRefCount_str: "str_obj ob \<Longrightarrow> \<exists>r. decrRefCount ob = Some r"
  by (auto simp: decrRefCount_def str_obj_def)

lemma dbUnshareStringValue_correct:
  fixes ob :: "'x robj"
  assumes ob: "str_obj ob" "refcount ob + 1 \<noteq> OBJ_STATIC_REFCOUNT"
  shows "\<exists>ob' s. dbUnshareStringValue junk ob = Some ob' \<and> str_obj ob' \<and> optr ob' = Ptr_sds s \<and> oenc ob' = OBJ_ENCODING_RAW \<and>
    refcount ob' = 1 \<and> sds_ok s \<and> sds_str s = obj_str ob \<and> sh_len s < 2 ^ 32"
proof (cases "refcount ob \<noteq> 1 \<or> oenc ob \<noteq> OBJ_ENCODING_RAW")
  case True
  obtain dec s where dec: "getDecodedObject junk ob = Some dec" "str_obj dec" "obj_sds dec = Some s" "sds_ok s"
    "sh_len s < 2 ^ 32" "sds_str s = obj_str ob"
    using getDecodedObject_correct [OF ob, of junk] by auto
  have "sdslen s \<le> length (sh_buf s)" "sdslen s < 2 ^ 32" "take (sdslen s) (sh_buf s) = sds_str s"
    using dec(4,5) by (auto simp: sds_ok_def sds_wf_def sdslen_def sds_str_def)
  then obtain new :: "'x robj" where new: "createRawStringObject junk (Init (sh_buf s)) (sdslen s) = Some new" "str_obj new"
    "obj_str new = sds_str s" "oenc new = OBJ_ENCODING_RAW" "refcount new = 1"
    using createRawStringObject_correct [of "sdslen s" "sh_buf s" junk] by auto
  have run: "dbUnshareStringValue junk ob = Some new"
    using True ob(1) dec(1,3) new(1) decrRefCount_str [OF dec(2)] by (auto simp: dbUnshareStringValue_def str_obj_def)
  from new(2) show ?thesis
    using run new dec(6) by (cases rule: str_obj_cases) auto
next
  case False
  from ob(1) show ?thesis
    using False ob(1) by (cases rule: str_obj_cases) (auto simp: dbUnshareStringValue_def str_obj_def)
qed


lemma sdsRemoveFreeSpace_len: "sds_ok s \<Longrightarrow> sds_ok s' \<Longrightarrow> sds_str s' = sds_str s \<Longrightarrow> sh_len s' = sh_len s"
  using sds_str_len by metis

lemma encode_long_correct:
  fixes ob :: "'x robj"
  assumes "str_obj ob" "refcount ob = 1" "sdsEncodedObject ob" "int64_range v"
  shows "\<exists>ob'. encode_long conf junk ob v = Some ob' \<and> str_obj ob' \<and> obj_str ob' = dec_string v \<and> oenc ob' = OBJ_ENCODING_INT"
  using assms by (auto simp: encode_long_def decrRefCount_def incrRefCount_def shared_integers_def str_obj_def obj_str_def
      createStringObjectFromLongLongForValue_def createStringObjectFromLongLongWithOptions_def createObject_def
      sdsEncodedObject_def int64_range_def OBJ_SHARED_REFCOUNT_def OBJ_STATIC_REFCOUNT_def)

lemma trimStringObjectIfNeeded_correct:
  assumes "str_obj ob" "sdsEncodedObject ob"
  shows "\<exists>ob'. trimStringObjectIfNeeded junk ob = Some ob' \<and> str_obj ob' \<and> obj_str ob' = obj_str ob \<and> oenc ob' = oenc ob"
  using assms(1)
proof (cases rule: str_obj_cases)
  case (Sds s)
  obtain s' where s': "sdsRemoveFreeSpace junk s = Some s'" "sds_ok s'" "sds_str s' = sds_str s"
    using sdsRemoveFreeSpace_correct [OF Sds(4), of junk] Sds(5) by (auto simp: sdslen_def)
  have "sh_len s' = sh_len s"
    using sdsRemoveFreeSpace_len [OF Sds(4) s'(2,3)] .
  then show ?thesis
    using Sds s' assms(1) by (auto simp: trimStringObjectIfNeeded_def str_obj_def obj_str_def)
qed (use assms(2) in auto)

lemma string2l_sound: "string2l bs = Some v \<Longrightarrow> int64_range v \<and> bs = dec_string v"
  using string2ll_sound [of bs v] by (auto simp: string2l_def split: option.splits if_splits)

lemma string2l_dec: "int64_range v \<Longrightarrow> string2l (dec_string v) = Some v"
  using string2ll_complete [of v] by (auto simp: string2l_def int64_range_def)

lemma tryObjectEncoding_value:
  fixes ob :: "'x robj"
  assumes ob: "str_obj ob"
  shows "\<exists>ob'. tryObjectEncoding conf junk ob = Some ob' \<and> str_obj ob' \<and> obj_str ob' = obj_str ob \<and>
    (refcount ob = 1 \<and> (\<exists>v. int64_range v \<and> obj_str ob = dec_string v) \<longrightarrow> oenc ob' = OBJ_ENCODING_INT) \<and>
    (refcount ob = 1 \<and> length (obj_str ob) \<le> OBJ_ENCODING_EMBSTR_SIZE_LIMIT \<longrightarrow> oenc ob' \<noteq> OBJ_ENCODING_RAW)"
proof (cases "\<not> sdsEncodedObject ob \<or> refcount ob > 1")
  case True
  then show ?thesis
    using ob by (auto simp: tryObjectEncoding_def str_obj_def sdsEncodedObject_def split: obj_ptr.splits)
next
  case False
  then have one: "refcount ob = 1"
    using ob by (auto simp: str_obj_def)
  from ob False obtain s where s: "obj_sds ob = Some s" "sds_ok s" "sh_len s < 2 ^ 32" "obj_str ob = sds_str s"
    by (auto elim: str_obj_cases)
  have ty: "otype ob = OBJ_STRING"
    using ob by (simp add: str_obj_def)
  have step: "tryObjectEncoding conf junk ob =
      (case (if sdslen s \<le> 20 then string2l (sds_str s) else None) of
         Some v \<Rightarrow> encode_long conf junk ob v
       | None \<Rightarrow>
           if sdslen s \<le> OBJ_ENCODING_EMBSTR_SIZE_LIMIT then
             (if oenc ob = OBJ_ENCODING_EMBSTR then Some ob
              else do { emb \<leftarrow> createEmbeddedStringObject junk (Init (sh_buf s)) (sdslen s);
                        _ \<leftarrow> decrRefCount ob; Some emb })
           else trimStringObjectIfNeeded junk ob)"
    using False s ty by (simp add: tryObjectEncoding_def sds_bytes Let_def)
  show ?thesis
  proof (cases "if sdslen s \<le> 20 then string2l (sds_str s) else None")
    case (Some v)
    then have "int64_range v" "sds_str s = dec_string v"
      using string2l_sound by (auto split: if_splits)
    then show ?thesis
      using encode_long_correct [OF ob one, of v conf junk] False s unfolding step Some by auto
  next
    case None
    note none = None
    have nolong: "\<not> (int64_range v \<and> obj_str ob = dec_string v)" for v
      using none string2l_dec [of v] length_dec_string_le [of v] s(2,4) by (auto simp: sdslen_def simp flip: sds_str_len)
    show ?thesis
    proof (cases "sdslen s \<le> OBJ_ENCODING_EMBSTR_SIZE_LIMIT")
      case True
      have "sdslen s \<le> length (sh_buf s)" "take (sdslen s) (sh_buf s) = sds_str s"
        using s(2) by (auto simp: sds_ok_def sds_wf_def sdslen_def sds_str_def)
      then obtain emb :: "'x robj" where "createEmbeddedStringObject junk (Init (sh_buf s)) (sdslen s) = Some emb"
        "str_obj emb" "obj_str emb = sds_str s" "oenc emb = OBJ_ENCODING_EMBSTR"
        using createEmbeddedStringObject_correct [of "sdslen s" "sh_buf s" junk] True by auto
      then show ?thesis
        using decrRefCount_str [OF ob] ob True s nolong unfolding step None by auto
    next
      case big: False
      then have "\<not> length (obj_str ob) \<le> OBJ_ENCODING_EMBSTR_SIZE_LIMIT"
        using s(2,4) by (simp add: sds_str_len sdslen_def)
      then show ?thesis
        using big trimStringObjectIfNeeded_correct [OF ob, of junk] False nolong unfolding step none by auto
    qed
  qed
qed

section \<open>Comparison\<close>

lemma dec_string_inj: "int64_range v \<Longrightarrow> int64_range w \<Longrightarrow> dec_string v = dec_string w \<Longrightarrow> v = w"
  using string2ll_complete by (metis option.inject)

lemma cmp_bytes_correct:
  assumes "str_obj ob"
  shows "\<exists>buf. cmp_bytes junk ob = Some (buf, length (obj_str ob)) \<and> length (obj_str ob) \<le> length buf \<and>
    take (length (obj_str ob)) buf = obj_str ob"
  using assms
proof (cases rule: str_obj_cases)
  case (Sds s)
  then show ?thesis
    by (auto simp: cmp_bytes_def sdslen_def sds_str_len) (auto simp: sds_str_def sds_ok_def sds_wf_def)
next
  case (Long v)
  have "length (dec_string v) < 128"
    using length_dec_string_le [OF Long(4)] by simp
  then have "ll2string (fresh_block junk 128) 128 v =
      Some (length (dec_string v), dec_string v @ [0] @ drop (Suc (length (dec_string v))) (fresh_block junk 128))"
    using ll2string_eq [OF Long(4), of 128 "fresh_block junk 128"] by simp
  then show ?thesis
    using Long by (simp add: cmp_bytes_def)
qed

lemma s32_sub_zero: "a < 2 ^ 32 \<Longrightarrow> b < 2 ^ 32 \<Longrightarrow> s32 (u64_sub a b) = 0 \<longleftrightarrow> a = b"
proof -
  assume a: "a < 2 ^ 32" and b: "b < 2 ^ 32"
  have "int (u64_sub a b) = (int a - int b) mod 2 ^ 64"
    by (simp add: u64_sub_def)
  then have "s32 (u64_sub a b) = signed_take_bit 31 (take_bit 64 (int a - int b))"
    by (simp add: s32_def take_bit_eq_mod)
  also have "\<dots> = signed_take_bit 31 (int a - int b)"
    by (simp add: signed_take_bit_take_bit)
  finally have "s32 (u64_sub a b) = 0 \<longleftrightarrow> take_bit 32 (int a - int b) = 0"
    using signed_take_bit_eq_iff_take_bit_eq [of 31 "int a - int b" 0] by simp
  also have "\<dots> \<longleftrightarrow> (int a - int b) mod 2 ^ 32 = 0"
    by (simp add: take_bit_eq_mod)
  also have "\<dots> \<longleftrightarrow> int a mod 2 ^ 32 = int b mod 2 ^ 32"
    by (simp add: mod_eq_dvd_iff dvd_eq_mod_eq_0)
  also have "\<dots> \<longleftrightarrow> a = b"
    using a b by simp
  finally show ?thesis .
qed

lemma equalStringObjects_value:
  assumes a: "str_obj a" and b: "str_obj b" and same: "same \<Longrightarrow> a = b"
  shows "equalStringObjects strcoll junk same a b = Some (obj_str a = obj_str b)"
proof (cases "oenc a = OBJ_ENCODING_INT \<and> oenc b = OBJ_ENCODING_INT")
  case True
  obtain v w where "obj_long a = Some v" "int64_range v" "obj_str a = dec_string v"
    "obj_long b = Some w" "int64_range w" "obj_str b = dec_string w"
    using a b True by (metis str_obj_cases)
  then show ?thesis
    using True dec_string_inj by (auto simp: equalStringObjects_def)
next
  case False
  let ?x = "obj_str a" and ?y = "obj_str b"
  obtain p q where pq: "cmp_bytes junk a = Some (p, length ?x)" "length ?x \<le> length p" "take (length ?x) p = ?x"
    "cmp_bytes junk b = Some (q, length ?y)" "length ?y \<le> length q" "take (length ?y) q = ?y"
    using cmp_bytes_correct [OF a, of junk] cmp_bytes_correct [OF b, of junk] by auto
  define m where "m = min (length ?x) (length ?y)"
  have take: "take m p = take m ?x" "take m q = take m ?y"
    using pq(3,6) by (metis m_def min.cobounded1 take_take min.absorb1, metis m_def min.cobounded2 take_take min.absorb1)
  have len: "length ?x < 2 ^ 32" "length ?y < 2 ^ 32"
    using a b by (auto simp: str_obj_def obj_str_def sds_str_len split: obj_ptr.splits dest!: length_dec_string_le)
  have cmp: "memcmp (take m ?x) (take m ?y) = 0 \<longleftrightarrow> take m ?x = take m ?y"
    by (rule memcmp_eq) (simp add: m_def)
  have "compareStringObjects strcoll junk same a b = Some (if same then 0 else
      if memcmp (take m ?x) (take m ?y) = 0 then s32 (u64_sub (length ?x) (length ?y)) else memcmp (take m ?x) (take m ?y))"
    using a b pq take by (auto simp: compareStringObjects_def compareStringObjectsWithFlags_def str_obj_def mem_simps Let_def
      simp flip: m_def) (auto simp: m_def mem_simps)
  moreover have "?x = ?y \<longleftrightarrow> take m ?x = take m ?y \<and> length ?x = length ?y"
    by (auto simp: m_def)
  ultimately show ?thesis
    using False same cmp s32_sub_zero [OF len] by (auto simp: equalStringObjects_def)
qed

section \<open>Properties\<close>

lemma stringObjectLen_text:
  assumes "str_obj ob"
  shows "stringObjectLen ob = Some (length (obj_str ob))"
proof -
  have "otype ob = OBJ_STRING"
    using assms by (simp add: str_obj_def)
  with assms show ?thesis
    by (cases rule: str_obj_cases) (auto simp: stringObjectLen_def sdslen_def sds_str_len sdigits10_length)
qed

text \<open>
  A string object for the examples: the text 42 in a buffer with a spare byte.
\<close>

definition raw_42 :: "unit robj" where
  "raw_42 = createObject OBJ_STRING (Ptr_sds \<lparr>sh_type = 1, sh_len = 2, sh_alloc = 3, sh_buf = [52, 50, 0, 9]\<rparr>)"

lemma raw_42_ok: "str_obj raw_42" "obj_str raw_42 = [52, 50]" "refcount raw_42 = 1" "oenc raw_42 = OBJ_ENCODING_RAW"
  by (simp_all add: raw_42_def createObject_def str_obj_def obj_str_def sds_ok_def sds_wf_def sds_str_def sds_bits_def
      OBJ_STATIC_REFCOUNT_def OBJ_SHARED_REFCOUNT_def)

text \<open>C13: The conversion of a string object to a smaller encoding always returns, keeps the object well-formed and keeps
  its text. An object with one reference whose text is the notation of a 64-bit integer becomes a number, and one of at
  most 44 bytes never stays in the raw encoding.\<close>

theorem tryObjectEncoding_keeps:
  assumes "str_obj ob"
  shows "\<exists>ob'. tryObjectEncoding conf junk ob = Some ob' \<and> str_obj ob' \<and> obj_str ob' = obj_str ob \<and>
    (refcount ob = 1 \<and> (\<exists>v. int64_range v \<and> obj_str ob = dec_string v) \<longrightarrow> oenc ob' = OBJ_ENCODING_INT) \<and>
    (refcount ob = 1 \<and> length (obj_str ob) \<le> OBJ_ENCODING_EMBSTR_SIZE_LIMIT \<longrightarrow> oenc ob' \<noteq> OBJ_ENCODING_RAW)"
  by (rule tryObjectEncoding_value [OF assms])

theorem tryObjectEncoding_keeps_witness:
  "\<exists>ob'. tryObjectEncoding \<lparr>maxmemory = 0, no_shared_integers = False\<rparr> (\<lambda>_. 0) raw_42 = Some ob' \<and> str_obj ob' \<and>
    obj_str ob' = [52, 50] \<and> oenc ob' = OBJ_ENCODING_INT"
proof -
  have "dec_string 42 = [52, 50]"
    by (simp add: dec_string_def dec_digits.simps)
  then have "\<exists>v. int64_range v \<and> obj_str raw_42 = dec_string v"
    by (intro exI [of _ 42]) (simp add: raw_42_ok int64_range_def)
  then show ?thesis
    using tryObjectEncoding_keeps [OF raw_42_ok(1), of "\<lparr>maxmemory = 0, no_shared_integers = False\<rparr>" "\<lambda>_. 0"]
    by (auto simp: raw_42_ok)
qed

text \<open>C26: Two string objects compare as equal exactly when their texts are equal, whatever the encodings of the two.
  The flag says that the two pointers are the same, and the texts are shorter than 4 GiB.\<close>

theorem equalStringObjects_correct:
  assumes "str_obj a" "str_obj b" "same \<longrightarrow> a = b"
  shows "equalStringObjects strcoll junk same a b = Some (obj_str a = obj_str b)"
  using equalStringObjects_value assms by blast

theorem equalStringObjects_correct_witness:
  "equalStringObjects (\<lambda>_ _. 0) (\<lambda>_. 0) False raw_42 (shared_integers 42) = Some True"
proof -
  have "str_obj (shared_integers 42 :: unit robj)" "obj_str (shared_integers 42 :: unit robj) = [52, 50]"
    by (simp_all add: shared_integers_def str_obj_def obj_str_def int64_range_def OBJ_STATIC_REFCOUNT_def
        OBJ_SHARED_REFCOUNT_def dec_string_def dec_digits.simps)
  then show ?thesis
    using equalStringObjects_correct [OF raw_42_ok(1), of "shared_integers 42" False "\<lambda>_ _. 0" "\<lambda>_. 0"] raw_42_ok(2) by simp
qed

text \<open>Before a command changes a string in place it makes the object private: the result is a raw string with one
  reference and the same text, whichever encoding and however many references the stored object had.\<close>

theorem dbUnshareStringValue_private:
  assumes "str_obj ob" "refcount ob + 1 \<noteq> OBJ_STATIC_REFCOUNT"
  shows "\<exists>ob' s. dbUnshareStringValue junk ob = Some ob' \<and> str_obj ob' \<and> optr ob' = Ptr_sds s \<and>
    oenc ob' = OBJ_ENCODING_RAW \<and> refcount ob' = 1 \<and> sds_str s = obj_str ob"
  using dbUnshareStringValue_correct [OF assms, of junk] by blast

theorem dbUnshareStringValue_private_witness:
  "\<exists>ob' s. dbUnshareStringValue (\<lambda>_. 0) (shared_integers 42 :: unit robj) = Some ob' \<and> str_obj ob' \<and> optr ob' = Ptr_sds s \<and>
    oenc ob' = OBJ_ENCODING_RAW \<and> refcount ob' = 1 \<and> sds_str s = [52, 50]"
proof -
  have "str_obj (shared_integers 42 :: unit robj)" "obj_str (shared_integers 42 :: unit robj) = [52, 50]"
    "refcount (shared_integers 42 :: unit robj) + 1 \<noteq> OBJ_STATIC_REFCOUNT"
    by (simp_all add: shared_integers_def str_obj_def obj_str_def int64_range_def OBJ_STATIC_REFCOUNT_def
        OBJ_SHARED_REFCOUNT_def dec_string_def dec_digits.simps)
  then show ?thesis
    using dbUnshareStringValue_private [of "shared_integers 42 :: unit robj" "\<lambda>_. 0"] by simp
qed

end
