(* ===== verification/Bitops.thy ===== *)
theory Bitops
  imports Redis_Prelude
begin

text \<open>
  Bits of a string, from \<open>redis-6.0.10/src/bitops.c\<close>: \<open>redisPopcount\<close> and \<open>redisBitpos\<close>. Both loops over words are
  modelled with the address of the memory, which decides where they start, and with the words as they are loaded. The
  population count adds up four digits of base 256 in parallel; the lemmas on digits relate the masked sums to the bits
  of each byte. The specifications are the number of set bits and the first offset with a value.
\<close>

unbundle bit_operations_syntax

section \<open>Counting bits\<close>

definition bitsinbyte :: "nat list" where
  "bitsinbyte =
    [0, 1, 1, 2, 1, 2, 2, 3, 1, 2, 2, 3, 2, 3, 3, 4, 1, 2, 2, 3, 2, 3, 3, 4, 2, 3, 3, 4, 3, 4, 4, 5,
     1, 2, 2, 3, 2, 3, 3, 4, 2, 3, 3, 4, 3, 4, 4, 5, 2, 3, 3, 4, 3, 4, 4, 5, 3, 4, 4, 5, 4, 5, 5, 6,
     1, 2, 2, 3, 2, 3, 3, 4, 2, 3, 3, 4, 3, 4, 4, 5, 2, 3, 3, 4, 3, 4, 4, 5, 3, 4, 4, 5, 4, 5, 5, 6,
     2, 3, 3, 4, 3, 4, 4, 5, 3, 4, 4, 5, 4, 5, 5, 6, 3, 4, 4, 5, 4, 5, 5, 6, 4, 5, 5, 6, 5, 6, 6, 7,
     1, 2, 2, 3, 2, 3, 3, 4, 2, 3, 3, 4, 3, 4, 4, 5, 2, 3, 3, 4, 3, 4, 4, 5, 3, 4, 4, 5, 4, 5, 5, 6,
     2, 3, 3, 4, 3, 4, 4, 5, 3, 4, 4, 5, 4, 5, 5, 6, 3, 4, 4, 5, 4, 5, 5, 6, 4, 5, 5, 6, 5, 6, 6, 7,
     2, 3, 3, 4, 3, 4, 4, 5, 3, 4, 4, 5, 4, 5, 5, 6, 3, 4, 4, 5, 4, 5, 5, 6, 4, 5, 5, 6, 5, 6, 6, 7,
     3, 4, 4, 5, 4, 5, 5, 6, 4, 5, 5, 6, 5, 6, 6, 7, 4, 5, 5, 6, 5, 6, 6, 7, 5, 6, 6, 7, 6, 7, 7, 8]"

text \<open>
  The memory \<open>s\<close> points to is the list \<open>m\<close>, a pointer is an index into it, and \<open>addr\<close> is the address of its first
  byte. The loop over the bytes before an address that is a multiple of 4, and the loop over the last bytes.
\<close>

fun popcount_align :: "nat \<Rightarrow> bytes \<Rightarrow> nat \<Rightarrow> nat \<Rightarrow> nat \<Rightarrow> (nat \<times> nat \<times> nat) option" where
  "popcount_align addr m p count bits =
     (if (addr + p) mod 4 \<noteq> 0 \<and> count \<noteq> 0 then
        do { b \<leftarrow> mem_get m p;
             popcount_align addr m (p + 1) (count - 1) (u64 (bits + bitsinbyte ! unat b)) }
      else Some (p, count, bits))"

fun popcount_bytes :: "bytes \<Rightarrow> nat \<Rightarrow> nat \<Rightarrow> nat \<Rightarrow> nat option" where
  "popcount_bytes m p count bits =
     (if count \<noteq> 0 then
        do { b \<leftarrow> mem_get m p; popcount_bytes m (p + 1) (count - 1) (u64 (bits + bitsinbyte ! unat b)) }
      else Some bits)"

declare popcount_align.simps [simp del] popcount_bytes.simps [simp del]

text \<open>The read \<open>*p4++\<close> of a little-endian word, and the two steps that every word goes through.\<close>

definition load32 :: "bytes \<Rightarrow> nat \<Rightarrow> 32 word option" where
  "load32 m p = do { bs \<leftarrow> mem_read m p 4; Some (word_of_int (le_uint bs)) }"

definition pop_pairs :: "32 word \<Rightarrow> 32 word" where
  "pop_pairs aux = aux - (drop_bit 1 aux AND 0x55555555)"

definition pop_nibbles :: "32 word \<Rightarrow> 32 word" where
  "pop_nibbles aux = (aux AND 0x33333333) + (drop_bit 2 aux AND 0x33333333)"

definition pop_bytes :: "32 word \<Rightarrow> 32 word" where
  "pop_bytes aux = (aux + drop_bit 4 aux) AND 0x0F0F0F0F"

definition pop_word :: "32 word \<Rightarrow> 32 word" where
  "pop_word aux = pop_bytes (pop_nibbles (pop_pairs aux))"

fun popcount_blocks :: "bytes \<Rightarrow> nat \<Rightarrow> nat \<Rightarrow> nat \<Rightarrow> (nat \<times> nat \<times> nat) option" where
  "popcount_blocks m p count bits =
     (if count \<ge> 28 then
        do { aux1 \<leftarrow> load32 m p;
             aux2 \<leftarrow> load32 m (p + 4);
             aux3 \<leftarrow> load32 m (p + 8);
             aux4 \<leftarrow> load32 m (p + 12);
             aux5 \<leftarrow> load32 m (p + 16);
             aux6 \<leftarrow> load32 m (p + 20);
             aux7 \<leftarrow> load32 m (p + 24);
             popcount_blocks m (p + 28) (count - 28)
               (u64 (bits + unat (drop_bit 24
                 ((pop_word aux1 + pop_word aux2 + pop_word aux3 + pop_word aux4 + pop_word aux5 + pop_word aux6 +
                   pop_word aux7) * 0x01010101)))) }
      else Some (p, count, bits))"

declare popcount_blocks.simps [simp del]

definition redisPopcount :: "nat \<Rightarrow> bytes \<Rightarrow> nat \<Rightarrow> nat option" where
  "redisPopcount addr m count =
     do { (p, count, bits) \<leftarrow> popcount_align addr m 0 count 0;
          (p, count, bits) \<leftarrow> popcount_blocks m p count bits;
          popcount_bytes m p count bits }"

section \<open>The first bit of a value\<close>

text \<open>The bytes before an address that is a multiple of 8; the last component is the variable \<open>found\<close>.\<close>

fun bitpos_align :: "nat \<Rightarrow> bytes \<Rightarrow> byte \<Rightarrow> nat \<Rightarrow> nat \<Rightarrow> int \<Rightarrow> (nat \<times> nat \<times> int \<times> bool) option" where
  "bitpos_align addr m skipval c count pos =
     (if (addr + c) mod 8 \<noteq> 0 \<and> count \<noteq> 0 then
        do { b \<leftarrow> mem_get m c;
             if b \<noteq> skipval then Some (c, count, pos, True)
             else bitpos_align addr m skipval (c + 1) (count - 1) (pos + 8) }
      else Some (c, count, pos, False))"

definition load64 :: "bytes \<Rightarrow> nat \<Rightarrow> 64 word option" where
  "load64 m p = do { bs \<leftarrow> mem_read m p 8; Some (word_of_int (le_uint bs)) }"

fun bitpos_words :: "bytes \<Rightarrow> 64 word \<Rightarrow> nat \<Rightarrow> nat \<Rightarrow> int \<Rightarrow> (nat \<times> nat \<times> int) option" where
  "bitpos_words m skipval l count pos =
     (if count \<ge> 8 then
        do { w \<leftarrow> load64 m l;
             if w \<noteq> skipval then Some (l, count, pos)
             else bitpos_words m skipval (l + 8) (count - 8) (pos + 64) }
      else Some (l, count, pos))"

text \<open>The loop that loads the next bytes, the first as the most significant one; \<open>j\<close> is the number of steps left.\<close>

primrec bitpos_load :: "bytes \<Rightarrow> nat \<Rightarrow> nat \<Rightarrow> nat \<Rightarrow> 64 word \<Rightarrow> 64 word option" where
  "bitpos_load m 0 c count w = Some w"
| "bitpos_load m (Suc j) c count w =
     (if count \<noteq> 0 then do { b \<leftarrow> mem_get m c; bitpos_load m j (c + 1) (count - 1) (push_bit 8 w OR ucast b) }
      else bitpos_load m j c count (push_bit 8 w))"

lemma drop_bit_1_less: "one \<noteq> 0 \<Longrightarrow> unat (drop_bit 1 one) < unat (one :: 64 word)"
  using unsigned_less [of one, where ?'a = nat] unfolding unsigned_drop_bit_eq
  by (simp add: drop_bit_eq_div unat_gt_0 take_bit_nat_eq_self)

text \<open>The scan of the word from its most significant bit; \<open>None\<close> is the end of the function, which panics.\<close>

function bitpos_scan :: "64 word \<Rightarrow> bool \<Rightarrow> 64 word \<Rightarrow> int \<Rightarrow> int option" where
  "bitpos_scan w v one pos =
     (if one \<noteq> 0 then
        (if (one AND w \<noteq> 0) = v then Some pos else bitpos_scan w v (drop_bit 1 one) (pos + 1))
      else None)"
  by pat_completeness auto

termination
  by (relation "measure (\<lambda>(_, _, one, _). unat one)") (auto simp: drop_bit_1_less simp del: One_nat_def)

declare bitpos_align.simps [simp del] bitpos_words.simps [simp del] bitpos_scan.simps [simp del]

definition redisBitpos :: "nat \<Rightarrow> bytes \<Rightarrow> nat \<Rightarrow> bool \<Rightarrow> int option" where
  "redisBitpos addr m count v =
     do { (c, count, pos, found) \<leftarrow> bitpos_align addr m (if v then 0 else 255) 0 count 0;
          (c, count, pos) \<leftarrow> (if \<not> found then bitpos_words m (if v then 0 else - 1) c count pos else Some (c, count, pos));
          w \<leftarrow> bitpos_load m 8 c count 0;
          if v \<and> w = 0 then Some (- 1) else bitpos_scan w v (NOT (drop_bit 1 (- 1))) pos }"

section \<open>Words as sequences of bytes\<close>

text \<open>The number of bits set in a byte and in a sequence of bytes.\<close>

definition byte_count :: "byte \<Rightarrow> nat" where
  "byte_count b = length (filter (bit b) [0..<8])"

definition bit_count :: "bytes \<Rightarrow> nat" where
  "bit_count bs = sum_list (map byte_count bs)"

text \<open>The value of a sequence of digits of base 256, the first the least significant one.\<close>

fun dig_val :: "int list \<Rightarrow> int" where
  "dig_val [] = 0"
| "dig_val (d # ds) = d + 256 * dig_val ds"

lemma le_uint_dig: "le_uint bs = dig_val (map uint bs)"
  by (induction bs) auto

lemma dig_val_nonneg: "\<forall>d \<in> set ds. 0 \<le> d \<Longrightarrow> 0 \<le> dig_val ds"
  by (induction ds) auto

lemma dig_val_add: "length xs = length ys \<Longrightarrow> dig_val xs + dig_val ys = dig_val (map2 (+) xs ys)"
  by (induction xs ys rule: list_induct2) auto

lemma dig_val_diff: "length xs = length ys \<Longrightarrow> dig_val xs - dig_val ys = dig_val (map2 (-) xs ys)"
  by (induction xs ys rule: list_induct2) auto

lemma high_bit: "0 \<le> x \<Longrightarrow> x < 2 ^ n \<Longrightarrow> n \<le> i \<Longrightarrow> \<not> bit (x :: int) i"
proof -
  assume "0 \<le> x" "x < 2 ^ n" and i: "n \<le> i"
  then have "take_bit n x = x"
    by (simp add: take_bit_int_eq_self)
  then have "bit x i = bit (take_bit n x) i"
    by (rule arg_cong [OF sym])
  then show ?thesis
    using i by (simp add: bit_take_bit_iff)
qed

lemma add_or: "0 \<le> x \<Longrightarrow> x < 2 ^ n \<Longrightarrow> x + 2 ^ n * y = x OR push_bit n (y :: int)"
proof -
  assume x: "0 \<le> x" "x < 2 ^ n"
  have "x AND push_bit n y = 0"
    by (rule bit_eqI) (use high_bit [OF x] in \<open>auto simp: bit_and_iff bit_push_bit_iff\<close>)
  then have "x + push_bit n y = x OR push_bit n y"
    by (rule disjunctive_add_eq_or)
  then show ?thesis
    by (simp add: push_bit_eq_mult mult.commute)
qed

lemma and_split:
  fixes a c :: int
  assumes a: "0 \<le> a" "a < 2 ^ n" and c: "0 \<le> c" "c < 2 ^ n"
  shows "(a + 2 ^ n * b) AND (c + 2 ^ n * d) = (a AND c) + 2 ^ n * (b AND d)"
proof -
  have small: "0 \<le> a AND c" "a AND c < 2 ^ n"
    using a by (auto intro: le_less_trans [OF AND_upper1])
  have "(a OR push_bit n b) AND (c OR push_bit n d) = (a AND c) OR push_bit n (b AND d)"
    by (rule bit_eqI) (use high_bit [OF a] high_bit [OF c] in
      \<open>auto simp: bit_and_iff bit_or_iff bit_push_bit_iff\<close>)
  then show ?thesis
    by (simp only: add_or [OF a] add_or [OF c] add_or [OF small])
qed


lemma and_split8: "0 \<le> a \<Longrightarrow> a < 256 \<Longrightarrow> 0 \<le> c \<Longrightarrow> c < 256 \<Longrightarrow> (a + 256 * b) AND (c + 256 * d) = (a AND c) + 256 * (b AND d)" for a c :: int
  using and_split [of a 8 c b d] by simp

definition digits :: "int list \<Rightarrow> bool" where
  "digits ds \<longleftrightarrow> (\<forall>d \<in> set ds. 0 \<le> d \<and> d < 256)"

lemma and_digits:
  assumes m: "0 \<le> m" "m < 256"
  shows "digits ds \<Longrightarrow> dig_val ds AND dig_val (replicate (length ds) m) = dig_val (map (\<lambda>d. d AND m) ds)"
  using m by (induction ds) (auto simp: digits_def and_split8)

lemma and_shift_digits:
  assumes s: "s \<le> 8" and m: "0 \<le> m" "m < 2 ^ (8 - s)"
  shows "digits ds \<Longrightarrow> (dig_val ds div 2 ^ s) AND dig_val (replicate (length ds) m) = dig_val (map (\<lambda>d. d div 2 ^ s AND m) ds)"
proof (induction ds)
  case (Cons d ds)
  let ?D = "dig_val ds" and ?M = "dig_val (replicate (length ds) m)"
  have p: "(256 :: int) = 2 ^ s * 2 ^ (8 - s)"
    using s by (simp flip: power_add)
  have "d < 2 ^ s * 2 ^ (8 - s)"
    using Cons.prems p by (simp add: digits_def)
  moreover have "2 ^ s * (d div 2 ^ s) \<le> d"
    by (simp flip: minus_mod_eq_mult_div)
  ultimately have "2 ^ s * (d div 2 ^ s) < 2 ^ s * 2 ^ (8 - s)"
    by linarith
  then have d: "0 \<le> d div 2 ^ s" "d div 2 ^ s < 2 ^ (8 - s)"
    using Cons.prems by (auto simp: digits_def pos_imp_zdiv_nonneg_iff)
  have m256: "m < 256"
    using m power_increasing [of "8 - s" 8 "2 :: int"] by simp
  define a where "a = d div 2 ^ s + 2 ^ (8 - s) * (?D mod 2 ^ s)"
  have "0 \<le> ?D mod 2 ^ s" "?D mod 2 ^ s \<le> 2 ^ s - 1"
    using pos_mod_bound [of "2 ^ s" ?D] by simp_all
  then have "2 ^ (8 - s) * (?D mod 2 ^ s) \<le> 2 ^ (8 - s) * (2 ^ s - 1)" "0 \<le> 2 ^ (8 - s) * (?D mod 2 ^ s)"
    by (simp_all add: mult_left_mono)
  moreover have "2 ^ (8 - s) * (2 ^ s - 1) = (256 :: int) - 2 ^ (8 - s)"
    unfolding p by (simp add: right_diff_distrib)
  ultimately have a: "0 \<le> a" "a < 256"
    using d by (simp_all add: a_def)
  have "dig_val (d # ds) div 2 ^ s = (d + 2 ^ s * (2 ^ (8 - s) * ?D)) div 2 ^ s"
    by (simp add: p mult.assoc)
  also have "\<dots> = d div 2 ^ s + 2 ^ (8 - s) * ?D"
    by (simp add: add.commute)
  also have "\<dots> = a + 256 * (?D div 2 ^ s)"
  proof -
    have "2 ^ (8 - s) * ?D = 2 ^ (8 - s) * (?D mod 2 ^ s + 2 ^ s * (?D div 2 ^ s))"
      by simp
    also have "\<dots> = 2 ^ (8 - s) * (?D mod 2 ^ s) + 256 * (?D div 2 ^ s)"
      unfolding p by (simp only: distrib_left mult.assoc mult.left_commute)
    finally show ?thesis
      by (simp add: a_def)
  qed
  finally have "(dig_val (d # ds) div 2 ^ s) AND (m + 256 * ?M) = (a AND m) + 256 * ((?D div 2 ^ s) AND ?M)"
    using and_split8 [OF a m(1) m256] by simp
  moreover have "a AND m = d div 2 ^ s AND m"
    using and_split [OF d m, of "?D mod 2 ^ s" 0] by (simp add: a_def)
  ultimately show ?case
    using Cons by (simp add: digits_def)
qed simp

lemma and_15: "(x :: int) AND 15 = x mod 16"
  using take_bit_eq_mask [of 4 x] by (simp add: take_bit_eq_mod mask_eq_exp_minus_1)

lemma dig_val_mod_16: "\<forall>d \<in> set ds. d mod 16 \<le> 4 \<Longrightarrow> dig_val ds mod 16 \<le> 4"
  by (cases ds) (auto simp: mod_add_eq [symmetric] mod_mult_left_eq [symmetric])

lemma add_shift_and:
  "\<forall>d \<in> set ds. 0 \<le> d \<and> d \<le> 0x44 \<and> d mod 16 \<le> 4 \<Longrightarrow>
   (dig_val ds + dig_val ds div 16) AND dig_val (replicate (length ds) 15) = dig_val (map (\<lambda>d. (d + d div 16) mod 16) ds)"
proof (induction ds)
  case (Cons d ds)
  let ?D = "dig_val ds" and ?M = "dig_val (replicate (length ds) 15)"
  define a where "a = d + d div 16 + 16 * (?D mod 16)"
  have a: "0 \<le> a" "a < 256"
    using Cons.prems dig_val_mod_16 [of ds] by (auto simp: a_def intro!: add_nonneg_nonneg)
  have "(d + 256 * ?D) div 16 = d div 16 + 16 * ?D"
    by simp
  moreover have "16 * ?D = 16 * (?D mod 16 + 16 * (?D div 16))"
    by simp
  ultimately have "dig_val (d # ds) + dig_val (d # ds) div 16 = a + 256 * (?D + ?D div 16)"
    unfolding a_def distrib_left by simp
  then have "(dig_val (d # ds) + dig_val (d # ds) div 16) AND (15 + 256 * ?M) = (a AND 15) + 256 * ((?D + ?D div 16) AND ?M)"
    using and_split8 [OF a, of 15] by (simp only:)
  moreover have "a AND 15 = (d + d div 16) mod 16"
    by (simp add: and_15 a_def)
  ultimately show ?case
    using Cons by simp
qed simp


section \<open>Counting the bits of a word\<close>

definition pairs8 :: "int \<Rightarrow> int" where
  "pairs8 d = d - (d div 2 AND 0x55)"

definition nibbles8 :: "int \<Rightarrow> int" where
  "nibbles8 d = (d AND 0x33) + (d div 4 AND 0x33)"

definition count8 :: "int \<Rightarrow> int" where
  "count8 d = (let b = nibbles8 (pairs8 d) in (b + b div 16) mod 16)"

lemma byte_steps_all:
  "\<forall>d \<in> set [0..255]. 0 \<le> pairs8 d \<and> pairs8 d < 256 \<and> 0 \<le> nibbles8 (pairs8 d) \<and> nibbles8 (pairs8 d) \<le> 0x44 \<and>
     nibbles8 (pairs8 d) mod 16 \<le> 4 \<and> count8 d = int (bitsinbyte ! nat d)"
  by code_simp

lemma byte_count_all: "\<forall>d \<in> set [0..<256]. byte_count (of_nat d) = bitsinbyte ! d"
  by code_simp

lemma byte_steps:
  assumes "0 \<le> d" "d < 256"
  shows "0 \<le> pairs8 d" "pairs8 d < 256" "0 \<le> nibbles8 (pairs8 d)" "nibbles8 (pairs8 d) \<le> 0x44"
    "nibbles8 (pairs8 d) mod 16 \<le> 4" "count8 d = int (bitsinbyte ! nat d)"
proof -
  have "d \<in> set [0..255]"
    using assms by simp
  note all = bspec [OF byte_steps_all this]
  show "0 \<le> pairs8 d" "pairs8 d < 256" "0 \<le> nibbles8 (pairs8 d)" "nibbles8 (pairs8 d) \<le> 0x44"
    "nibbles8 (pairs8 d) mod 16 \<le> 4" "count8 d = int (bitsinbyte ! nat d)"
    using all by blast+
qed

lemma bitsinbyte_count: "bitsinbyte ! unat b = byte_count b"
proof -
  have "unat b \<in> set [0..<256]"
    using unsigned_less [of b, where ?'a = nat] by simp
  then have "byte_count (of_nat (unat b)) = bitsinbyte ! unat b"
    using byte_count_all by blast
  then show ?thesis
    by simp
qed

lemma byte_count_le: "byte_count b \<le> 8"
  unfolding byte_count_def by (rule order_trans [OF length_filter_le]) simp

lemma dig_val_less: "digits ds \<Longrightarrow> dig_val ds < 256 ^ length ds"
  by (induction ds) (auto simp: digits_def)

lemma dig_val_pos: "digits ds \<Longrightarrow> 0 \<le> dig_val ds"
  by (rule dig_val_nonneg) (simp add: digits_def)

lemma dig_val_mono: "list_all2 (\<le>) xs ys \<Longrightarrow> dig_val xs \<le> dig_val ys"
  by (induction xs ys rule: list_all2_induct) auto

lemma masks: "dig_val (replicate 4 0x55) = 0x55555555" "dig_val (replicate 4 0x33) = 0x33333333" "dig_val (replicate 4 15) = 0x0F0F0F0F"
  by (simp_all add: numeral_eq_Suc)

lemma uint_and_num: "uint (x AND y) = uint x AND uint (y :: 32 word)"
  by (rule unsigned_and_eq)

lemma uint_drop: "uint (drop_bit n (x :: 32 word)) = uint x div 2 ^ n"
  unfolding unsigned_drop_bit_eq using uint_lt2p [of x] by (simp add: drop_bit_eq_div take_bit_int_eq_self)

lemma map2_map_right: "map2 g xs (map f xs) = map (\<lambda>x. g x (f x)) xs"
  by (induction xs) auto

lemma pop_pairs_digits:
  assumes x: "uint x = dig_val ds" "length ds = 4" "digits ds"
  shows "uint (pop_pairs x) = dig_val (map pairs8 ds)"
proof -
  let ?m = "dig_val (map (\<lambda>d. d div 2 AND 0x55) ds)"
  have "uint (drop_bit 1 x AND 0x55555555) = (dig_val ds div 2 ^ 1) AND dig_val (replicate (length ds) 0x55)"
    unfolding uint_and_num uint_drop x(1,2) masks by simp
  also have "\<dots> = ?m"
    by (subst and_shift_digits) (simp_all add: x(3))
  finally have m: "uint (drop_bit 1 x AND 0x55555555) = ?m" .
  have "d div 2 AND 0x55 \<le> d" if "d \<in> set ds" for d
    using byte_steps(1) [of d] that x(3) by (auto simp: digits_def pairs8_def)
  then have "?m \<le> dig_val ds"
    by (intro dig_val_mono) (auto simp: list_all2_conv_all_nth)
  then have "uint (pop_pairs x) = dig_val ds - ?m"
    using m x(1) unfolding pop_pairs_def by (subst uint_sub_lem [THEN iffD1]) simp_all
  also have "\<dots> = dig_val (map pairs8 ds)"
    by (subst dig_val_diff) (simp_all add: map2_map_right pairs8_def [abs_def])
  finally show ?thesis .
qed

lemma pop_nibbles_digits:
  assumes x: "uint x = dig_val ds" "length ds = 4" "digits ds" and small: "\<forall>d \<in> set ds. nibbles8 d \<le> 0x44"
  shows "uint (pop_nibbles x) = dig_val (map nibbles8 ds)"
proof -
  have a: "uint (x AND 0x33333333) = dig_val (map (\<lambda>d. d AND 0x33) ds)"
    using and_digits [of 51 ds] x masks by (simp add: uint_and_num)
  have b: "uint (drop_bit 2 x AND 0x33333333) = dig_val (map (\<lambda>d. d div 4 AND 0x33) ds)"
  proof -
    have "uint (drop_bit 2 x AND 0x33333333) = (dig_val ds div 2 ^ 2) AND dig_val (replicate (length ds) 0x33)"
      unfolding uint_and_num uint_drop x(1,2) masks by simp
    also have "\<dots> = dig_val (map (\<lambda>d. d div 2 ^ 2 AND 0x33) ds)"
      by (subst and_shift_digits) (simp_all add: x(3))
    finally show ?thesis
      by simp
  qed
  have sum: "dig_val (map (\<lambda>d. d AND 0x33) ds) + dig_val (map (\<lambda>d. d div 4 AND 0x33) ds) = dig_val (map nibbles8 ds)"
    by (subst dig_val_add) (simp_all add: map2_map_map nibbles8_def [abs_def])
  have "0 \<le> nibbles8 d" if "d \<in> set ds" for d
    using that x(3) by (simp add: nibbles8_def digits_def)
  then have "digits (map nibbles8 ds)"
    using small by (auto simp: digits_def)
  then have "dig_val (map nibbles8 ds) < 2 ^ 32"
    using dig_val_less [of "map nibbles8 ds"] x(2) by simp
  then show ?thesis
    using a b sum unfolding pop_nibbles_def by (subst uint_add_lem [THEN iffD1]) simp_all
qed

lemma pop_bytes_digits:
  assumes x: "uint x = dig_val ds" "length ds = 4" and small: "\<forall>d \<in> set ds. 0 \<le> d \<and> d \<le> 0x44 \<and> d mod 16 \<le> 4"
  shows "uint (pop_bytes x) = dig_val (map (\<lambda>d. (d + d div 16) mod 16) ds)"
proof -
  have "dig_val ds \<le> dig_val (replicate 4 0x44)"
    using x(2) small by (intro dig_val_mono) (auto simp: list_all2_conv_all_nth)
  then have le: "dig_val ds \<le> 0x44444444"
    by (simp add: numeral_eq_Suc)
  have shift: "uint (drop_bit 4 x) = dig_val ds div 16"
    using x(1) by (simp add: uint_drop)
  have "dig_val ds + dig_val ds div 16 < 2 ^ 32"
    using le by simp
  then have "uint (x + drop_bit 4 x) = dig_val ds + dig_val ds div 16"
    using x(1) shift by (subst uint_add_lem [THEN iffD1]) simp_all
  then have "uint (pop_bytes x) = (dig_val ds + dig_val ds div 16) AND dig_val (replicate (length ds) 15)"
    unfolding pop_bytes_def uint_and_num x(2) masks by simp
  then show ?thesis
    using add_shift_and [OF small] by simp
qed

lemma pop_word_bytes:
  assumes "length bs = 4"
  shows "uint (pop_word (word_of_int (le_uint bs))) = dig_val (map (\<lambda>b. int (byte_count b)) bs)"
proof -
  let ?ds = "map uint bs" and ?x = "word_of_int (le_uint bs) :: 32 word"
  have range: "0 \<le> uint b" "uint b < 256" for b :: byte
    using uint_lt2p [of b] by simp_all
  have ds: "digits ?ds" "length ?ds = 4"
    using range assms by (auto simp: digits_def)
  have "uint ?x = dig_val ?ds"
    using dig_val_less [OF ds(1)] dig_val_pos [OF ds(1)] ds(2)
    by (simp add: le_uint_dig uint_word_of_int take_bit_int_eq_self)
  note p = pop_pairs_digits [OF this ds(2,1)]
  have q: "digits (map pairs8 ?ds)"
    using byte_steps(1,2) [OF range] by (simp add: digits_def)
  have r: "\<forall>d \<in> set (map pairs8 ?ds). nibbles8 d \<le> 0x44"
    using byte_steps(4) [OF range] by simp
  have t: "\<forall>d \<in> set (map nibbles8 (map pairs8 ?ds)). 0 \<le> d \<and> d \<le> 0x44 \<and> d mod 16 \<le> 4"
    using byte_steps(3,4,5) [OF range] by simp
  have count: "count8 (uint b) = int (byte_count b)" for b :: byte
    unfolding byte_steps(6) [OF range] nat_uint_eq bitsinbyte_count ..
  have "uint (pop_nibbles (pop_pairs ?x)) = dig_val (map nibbles8 (map pairs8 ?ds))"
    using pop_nibbles_digits [OF p _ q r] ds(2) by simp
  then have "uint (pop_word ?x) = dig_val (map (\<lambda>d. (d + d div 16) mod 16) (map nibbles8 (map pairs8 ?ds)))"
    unfolding pop_word_def by (rule pop_bytes_digits [OF _ _ t]) (use ds(2) in simp)
  also have "map (\<lambda>d. (d + d div 16) mod 16) (map nibbles8 (map pairs8 ?ds)) = map (\<lambda>b. count8 (uint b)) bs"
    by (simp add: count8_def Let_def)
  also have "\<dots> = map (\<lambda>b. int (byte_count b)) bs"
    using count by simp
  finally show ?thesis .
qed

lemma sum_product:
  fixes a b c d :: int
  assumes "0 \<le> a" "0 \<le> b" "0 \<le> c" "0 \<le> d" "a + b + c + d < 256"
  shows "((a + 256 * b + 65536 * c + 16777216 * d) * 0x01010101) mod 2 ^ 32 div 2 ^ 24 = a + b + c + d"
proof -
  define lo where "lo = a + 256 * (a + b) + 65536 * (a + b + c)"
  have "(a + 256 * b + 65536 * c + 16777216 * d) * 0x01010101 =
      (lo + 2 ^ 24 * (a + b + c + d)) + 2 ^ 32 * (b + c + d + 256 * (c + d) + 65536 * d)"
    by (simp add: lo_def algebra_simps)
  moreover have "0 \<le> lo" "lo < 2 ^ 24"
    using assms by (simp_all add: lo_def)
  moreover have "lo + 2 ^ 24 * (a + b + c + d) < 2 ^ 32"
    using assms \<open>lo < 2 ^ 24\<close> by simp
  ultimately have "((a + 256 * b + 65536 * c + 16777216 * d) * 0x01010101) mod 2 ^ 32 = lo + 2 ^ 24 * (a + b + c + d)"
    using assms by (simp only: mod_mult_self2) (rule mod_pos_pos_trivial, simp_all)
  then show ?thesis
    using \<open>0 \<le> lo\<close> \<open>lo < 2 ^ 24\<close> by simp
qed

lemma pop_word_value:
  assumes "length bs = 4"
  obtains a b c d where "uint (pop_word (word_of_int (le_uint bs))) = a + 256 * b + 65536 * c + 16777216 * d"
    "0 \<le> a" "a \<le> 8" "0 \<le> b" "b \<le> 8" "0 \<le> c" "c \<le> 8" "0 \<le> d" "d \<le> 8" "a + b + c + d = int (bit_count bs)"
proof -
  obtain w x y z where bs: "bs = [w, x, y, z]"
    using assms by (auto simp: numeral_eq_Suc length_Suc_conv)
  show ?thesis
    by (rule that [of "int (byte_count w)" "int (byte_count x)" "int (byte_count y)" "int (byte_count z)"])
      (use pop_word_bytes [OF assms] byte_count_le in \<open>simp_all add: bs bit_count_def\<close>)
qed

lemma uint_mult_shift: "uint (drop_bit 24 ((x :: 32 word) * 0x01010101)) = (uint x * 0x01010101) mod 2 ^ 32 div 2 ^ 24"
  by (simp only: uint_drop uint_mult_lem) (simp add: uint_word_ariths)

definition pop_load :: "bytes \<Rightarrow> 32 word" where
  "pop_load bs = pop_word (word_of_int (le_uint bs))"

lemma pop_words_value:
  assumes "\<forall>bs \<in> set bss. length bs = 4" "length bss \<le> 7"
  shows "\<exists>a b c d. uint (sum_list (map pop_load bss)) = a + 256 * b + 65536 * c + 16777216 * d \<and>
    0 \<le> a \<and> a \<le> 8 * int (length bss) \<and> 0 \<le> b \<and> b \<le> 8 * int (length bss) \<and> 0 \<le> c \<and> c \<le> 8 * int (length bss) \<and>
    0 \<le> d \<and> d \<le> 8 * int (length bss) \<and> a + b + c + d = int (bit_count (concat bss))"
  using assms
proof (induction bss)
  case Nil
  show ?case
    by (rule exI [of _ 0])+ (simp add: bit_count_def)
next
  case (Cons bs bss)
  then have "length bs = 4"
    by simp
  then obtain a b c d where h: "uint (pop_load bs) = a + 256 * b + 65536 * c + 16777216 * d"
    "0 \<le> a" "a \<le> 8" "0 \<le> b" "b \<le> 8" "0 \<le> c" "c \<le> 8" "0 \<le> d" "d \<le> 8" "a + b + c + d = int (bit_count bs)"
    unfolding pop_load_def by (rule pop_word_value)
  obtain a' b' c' d' where t: "uint (sum_list (map pop_load bss)) = a' + 256 * b' + 65536 * c' + 16777216 * d'"
    "0 \<le> a'" "a' \<le> 8 * int (length bss)" "0 \<le> b'" "b' \<le> 8 * int (length bss)" "0 \<le> c'" "c' \<le> 8 * int (length bss)"
    "0 \<le> d'" "d' \<le> 8 * int (length bss)" "a' + b' + c' + d' = int (bit_count (concat bss))"
    using Cons by auto
  have "int (length bss) \<le> 6"
    using Cons.prems by simp
  then have "uint (pop_load bs) + uint (sum_list (map pop_load bss)) < 2 ^ 32"
    using h t by simp
  then have "uint (sum_list (map pop_load (bs # bss))) =
      (a + a') + 256 * (b + b') + 65536 * (c + c') + 16777216 * (d + d')"
    using uint_add_lem [of "pop_load bs" "sum_list (map pop_load bss)"] h(1) t(1) by simp
  moreover have "a + a' + (b + b') + (c + c') + (d + d') = int (bit_count (concat (bs # bss)))"
    using h(10) t(10) by (simp add: bit_count_def)
  ultimately show ?case
    using h t by (intro exI conjI) (assumption | simp)+
qed

lemma pop_block:
  assumes "\<forall>bs \<in> set bss. length bs = 4" "length bss \<le> 7"
  shows "unat (drop_bit 24 (sum_list (map pop_load bss) * 0x01010101)) = bit_count (concat bss)"
proof -
  obtain a b c d where v: "uint (sum_list (map pop_load bss)) = a + 256 * b + 65536 * c + 16777216 * d"
    "0 \<le> a" "a \<le> 8 * int (length bss)" "0 \<le> b" "b \<le> 8 * int (length bss)" "0 \<le> c" "c \<le> 8 * int (length bss)"
    "0 \<le> d" "d \<le> 8 * int (length bss)" "a + b + c + d = int (bit_count (concat bss))"
    using pop_words_value [OF assms] by blast
  have "a + b + c + d < 256"
    using v assms(2) by simp
  then have "uint (drop_bit 24 (sum_list (map pop_load bss) * 0x01010101)) = a + b + c + d"
    unfolding uint_mult_shift v(1) by (intro sum_product) (use v in simp_all)
  then show ?thesis
    using v(10) by (simp add: unat_eq_nat_uint)
qed

section \<open>Correctness of \<open>redisPopcount\<close>\<close>

lemma bit_count_Cons [simp]: "bit_count (b # bs) = byte_count b + bit_count bs" "bit_count [] = 0"
  "bit_count (xs @ ys) = bit_count xs + bit_count ys"
  by (simp_all add: bit_count_def)

lemma bit_count_le: "bit_count bs \<le> 8 * length bs"
  by (induction bs) (auto intro: add_mono [OF byte_count_le, simplified])

lemma take_Suc_drop: "p < length m \<Longrightarrow> 0 < n \<Longrightarrow> take n (drop p m) = m ! p # take (n - 1) (drop (Suc p) m)"
  by (cases n) (simp_all add: Cons_nth_drop_Suc [symmetric])

lemma popcount_bytes_correct:
  "p + count \<le> length m \<Longrightarrow> bits + 8 * count < 2 ^ 64 \<Longrightarrow>
   popcount_bytes m p count bits = Some (bits + bit_count (take count (drop p m)))"
proof (induction m p count bits rule: popcount_bytes.induct)
  case (1 m p count bits)
  show ?case
  proof (cases "count = 0")
    case False
    have "u64 (bits + byte_count (m ! p)) = bits + byte_count (m ! p)"
      using 1(3) byte_count_le [of "m ! p"] False by (intro u64_id) simp
    then show ?thesis
      using 1 False byte_count_le [of "m ! p"]
      by (subst popcount_bytes.simps) (simp add: mem_simps bitsinbyte_count take_Suc_drop)
  qed (subst popcount_bytes.simps, simp)
qed

lemma popcount_align_correct:
  "p + count \<le> length m \<Longrightarrow> bits + 8 * count < 2 ^ 64 \<Longrightarrow>
   \<exists>n \<le> count. popcount_align addr m p count bits = Some (p + n, count - n, bits + bit_count (take n (drop p m)))"
proof (induction addr m p count bits rule: popcount_align.induct)
  case (1 addr m p count bits)
  show ?case
  proof (cases "(addr + p) mod 4 \<noteq> 0 \<and> count \<noteq> 0")
    case True
    then obtain c where c: "count = Suc c"
      by (cases count) auto
    have u: "u64 (bits + byte_count (m ! p)) = bits + byte_count (m ! p)"
      using 1(3) byte_count_le [of "m ! p"] c by (intro u64_id) simp
    have "mem_get m p = Some (m ! p)" "p + 1 + (count - 1) \<le> length m"
      "u64 (bits + bitsinbyte ! unat (m ! p)) + 8 * (count - 1) < 2 ^ 64"
      using 1(2,3) byte_count_le [of "m ! p"] by (simp_all add: mem_simps bitsinbyte_count u c)
    then obtain n where n: "n \<le> count - 1" "popcount_align addr m (p + 1) (count - 1) (u64 (bits + bitsinbyte ! unat (m ! p))) =
        Some (p + 1 + n, count - 1 - n, u64 (bits + bitsinbyte ! unat (m ! p)) + bit_count (take n (drop (p + 1) m)))"
      using 1(1) [OF True] by blast
    have "popcount_align addr m p count bits = Some (p + Suc n, count - Suc n, bits + bit_count (take (Suc n) (drop p m)))"
      using True n(2) 1(2) by (subst popcount_align.simps) (simp add: mem_simps bitsinbyte_count u take_Suc_drop)
    then show ?thesis
      using n(1) True by (intro exI [of _ "Suc n"]) auto
  next
    case False
    then have "popcount_align addr m p count bits = Some (p, count, bits)"
      by (subst popcount_align.simps) auto
    then show ?thesis
      by (intro exI [of _ 0]) simp
  qed
qed


lemma load32_in: "p + 4 \<le> length m \<Longrightarrow> load32 m p = Some (word_of_int (le_uint (take 4 (drop p m))))"
  by (simp add: load32_def mem_simps)

definition chunks4 :: "bytes \<Rightarrow> nat \<Rightarrow> bytes list" where
  "chunks4 m p = map (\<lambda>k. take 4 (drop (p + 4 * k) m)) [0..<7]"

lemma concat_chunks4: "p + 28 \<le> length m \<Longrightarrow> concat (chunks4 m p) = take 28 (drop p m)"
proof -
  have "concat (map (\<lambda>k. take 4 (drop (4 * k) xs)) [0..<n]) = take (4 * n) xs" for n and xs :: bytes
    by (induction n) (simp_all add: take_add add.commute [of 4])
  from this [of "drop p m" 7] show ?thesis
    by (simp add: chunks4_def add.commute)
qed

lemma popcount_block_step:
  assumes "p + 28 \<le> length m" "28 \<le> count" "bits + 8 * 28 < 2 ^ 64"
  shows "popcount_blocks m p count bits = popcount_blocks m (p + 28) (count - 28) (bits + bit_count (take 28 (drop p m)))"
proof -
  have "(pop_load (take 4 (drop p m)) + pop_load (take 4 (drop (p + 4) m)) + pop_load (take 4 (drop (p + 8) m)) +
      pop_load (take 4 (drop (p + 12) m)) + pop_load (take 4 (drop (p + 16) m)) + pop_load (take 4 (drop (p + 20) m)) +
      pop_load (take 4 (drop (p + 24) m))) = sum_list (map pop_load (chunks4 m p))"
    by (simp add: chunks4_def upt_rec add.assoc)
  moreover have "unat (drop_bit 24 (sum_list (map pop_load (chunks4 m p)) * 0x01010101)) = bit_count (take 28 (drop p m))"
    using pop_block [of "chunks4 m p"] assms(1) by (auto simp: chunks4_def concat_chunks4 [symmetric])
  moreover have "u64 (bits + bit_count (take 28 (drop p m))) = bits + bit_count (take 28 (drop p m))"
    using bit_count_le [of "take 28 (drop p m)"] assms by (intro u64_id) simp
  ultimately show ?thesis
    using assms by (subst popcount_blocks.simps) (simp add: load32_in pop_load_def [symmetric] del: distrib_right_numeral)
qed

lemma popcount_blocks_correct:
  "p + count \<le> length m \<Longrightarrow> bits + 8 * count < 2 ^ 64 \<Longrightarrow>
   \<exists>n \<le> count. popcount_blocks m p count bits = Some (p + n, count - n, bits + bit_count (take n (drop p m)))"
proof (induction count arbitrary: p bits rule: less_induct)
  case (less count)
  show ?case
  proof (cases "28 \<le> count")
    case True
    have step: "popcount_blocks m p count bits = popcount_blocks m (p + 28) (count - 28) (bits + bit_count (take 28 (drop p m)))"
      by (rule popcount_block_step) (use less.prems True in simp_all)
    have "bit_count (take 28 (drop p m)) \<le> 8 * 28"
      using bit_count_le [of "take 28 (drop p m)"] less.prems True by simp
    then have small: "bits + bit_count (take 28 (drop p m)) + 8 * (count - 28) < 2 ^ 64"
      using less.prems True by linarith
    obtain n where n: "n \<le> count - 28" "popcount_blocks m (p + 28) (count - 28) (bits + bit_count (take 28 (drop p m))) =
        Some (p + 28 + n, count - 28 - n, bits + bit_count (take 28 (drop p m)) + bit_count (take n (drop (p + 28) m)))"
      using less.IH [OF _ _ small, of "p + 28"] less.prems True by auto
    have "bit_count (take (28 + n) (drop p m)) = bit_count (take 28 (drop p m)) + bit_count (take n (drop (p + 28) m))"
      by (simp only: take_add bit_count_Cons(3) drop_drop add.commute [of 28 p])
    then show ?thesis
      using n step True by (intro exI [of _ "28 + n"]) auto
  next
    case False
    then have "popcount_blocks m p count bits = Some (p, count, bits)"
      by (subst popcount_blocks.simps) simp
    then show ?thesis
      by (intro exI [of _ 0]) simp
  qed
qed

lemma redisPopcount_count:
  assumes "count \<le> length m" "8 * count < 2 ^ 64"
  shows "redisPopcount addr m count = Some (bit_count (take count m))"
proof -
  obtain n where n: "n \<le> count" "popcount_align addr m 0 count 0 = Some (n, count - n, bit_count (take n m))"
    using popcount_align_correct [of 0 count m 0 addr] assms by auto
  have b: "bit_count (take n m) \<le> 8 * n"
    using bit_count_le [of "take n m"] by simp
  have r1: "n + (count - n) \<le> length m" "bit_count (take n m) + 8 * (count - n) < 2 ^ 64"
    using assms n(1) b by auto
  from popcount_blocks_correct [OF r1] obtain k where k: "k \<le> count - n" "popcount_blocks m n (count - n) (bit_count (take n m)) =
      Some (n + k, count - n - k, bit_count (take n m) + bit_count (take k (drop n m)))"
    by blast
  have c: "bit_count (take k (drop n m)) \<le> 8 * k"
    using bit_count_le [of "take k (drop n m)"] by simp
  have "popcount_bytes m (n + k) (count - n - k) (bit_count (take n m) + bit_count (take k (drop n m))) =
      Some (bit_count (take n m) + bit_count (take k (drop n m)) + bit_count (take (count - n - k) (drop (n + k) m)))"
    by (rule popcount_bytes_correct) (use assms n(1) k(1) b c in auto)
  moreover have "take count m = take n m @ take k (drop n m) @ take (count - n - k) (drop (n + k) m)"
  proof -
    have "count = n + (k + (count - n - k))"
      using n(1) k(1) by simp
    then have "take count m = take (n + (k + (count - n - k))) m"
      by simp
    then show ?thesis
      by (simp only: take_add drop_drop add.commute)
  qed
  ultimately show ?thesis
    using n(2) k(2) by (simp add: redisPopcount_def)
qed

section \<open>Bits of a string\<close>

text \<open>The bit of an offset: the first bit is the most significant one of the first byte.\<close>

definition bit_at :: "bytes \<Rightarrow> nat \<Rightarrow> bool" where
  "bit_at bs i = bit (bs ! (i div 8)) (7 - i mod 8)"

definition first_bit :: "bytes \<Rightarrow> bool \<Rightarrow> nat \<Rightarrow> nat option" where
  "first_bit bs v n = find (\<lambda>i. bit_at bs i = v) [0..<n]"

lemma first_bit_Some: "k < n \<Longrightarrow> bit_at bs k = v \<Longrightarrow> (\<And>j. j < k \<Longrightarrow> bit_at bs j \<noteq> v) \<Longrightarrow> first_bit bs v n = Some k"
  unfolding first_bit_def find_Some_iff by (intro exI [of _ k]) auto

lemma first_bit_None: "(\<And>j. j < n \<Longrightarrow> bit_at bs j \<noteq> v) \<Longrightarrow> first_bit bs v n = None"
  unfolding first_bit_def find_None_iff by auto

text \<open>A byte that is skipped has no bit of the value, and the others have one.\<close>

definition skip_byte :: "bool \<Rightarrow> byte" where
  "skip_byte v = (if v then 0 else 255)"

lemma skip_byte_bits: "b = skip_byte v \<longleftrightarrow> (\<forall>k < 8. bit b k \<noteq> v)"
proof (cases v)
  case True
  then show ?thesis
    by (auto simp: skip_byte_def intro!: bit_eqI bit_word_eqI)
next
  case False
  have eq: "(255 :: byte) = - 1"
    by simp
  have "bit (255 :: byte) k" if "k < 8" for k
    using that by (simp only: eq bit_minus_1_iff) simp
  then show ?thesis
    using False by (auto simp: skip_byte_def intro!: bit_word_eqI)
qed

lemma bit_at_byte: "k < 8 \<Longrightarrow> bit_at bs (8 * i + k) = bit (bs ! i) (7 - k)"
  by (simp add: bit_at_def)

lemma skip_bits:
  assumes "\<And>i. i < c \<Longrightarrow> m ! i = skip_byte v" "j < 8 * c"
  shows "bit_at m j \<noteq> v"
proof -
  have "m ! (j div 8) = skip_byte v"
    using assms by (intro assms(1)) auto
  then show ?thesis
    by (simp add: bit_at_def skip_byte_bits)
qed

section \<open>Correctness of \<open>redisBitpos\<close>\<close>

lemma bitpos_align_correct:
  "c + count \<le> length m \<Longrightarrow>
   \<exists>n found. bitpos_align addr m sk c count pos = Some (c + n, count - n, pos + 8 * int n, found) \<and> n \<le> count \<and>
     (\<forall>i. c \<le> i \<and> i < c + n \<longrightarrow> m ! i = sk) \<and> (found \<longrightarrow> n < count \<and> m ! (c + n) \<noteq> sk)"
proof (induction addr m sk c count pos rule: bitpos_align.induct)
  case (1 addr m sk c count pos)
  show ?case
  proof (cases "(addr + c) mod 8 \<noteq> 0 \<and> count \<noteq> 0 \<and> m ! c = sk")
    case True
    then have eq: "bitpos_align addr m sk c count pos = bitpos_align addr m sk (c + 1) (count - 1) (pos + 8)"
      using 1(2) by (subst bitpos_align.simps) (simp add: mem_simps)
    have get: "mem_get m c = Some (m ! c)" "c + 1 + (count - 1) \<le> length m" "\<not> m ! c \<noteq> sk"
      using 1(2) True by (auto simp: mem_simps)
    obtain n found where n: "bitpos_align addr m sk (c + 1) (count - 1) (pos + 8) =
        Some (c + 1 + n, count - 1 - n, pos + 8 + 8 * int n, found)" "n \<le> count - 1"
      "\<forall>i. c + 1 \<le> i \<and> i < c + 1 + n \<longrightarrow> m ! i = sk" "found \<longrightarrow> n < count - 1 \<and> m ! (c + 1 + n) \<noteq> sk"
      using 1(1) [OF _ get(1,3,2)] True by blast
    have "\<forall>i. c \<le> i \<and> i < c + Suc n \<longrightarrow> m ! i = sk"
      using n(3) True by (metis Suc_eq_plus1 Suc_leI add_Suc_right add_Suc le_neq_implies_less)
    then show ?thesis
      using n(1,2,4) eq True by (intro exI [of _ "Suc n"] exI [of _ found]) auto
  next
    case False
    then show ?thesis
      using 1(2) by (intro exI [of _ 0] exI [of _ "(addr + c) mod 8 \<noteq> 0 \<and> count \<noteq> 0"], subst bitpos_align.simps)
        (auto simp: mem_simps)
  qed
qed


definition skip_word :: "bool \<Rightarrow> 64 word" where
  "skip_word v = (if v then 0 else - 1)"

lemma le_uint_bounds: "0 \<le> le_uint bs" "le_uint bs < 256 ^ length bs"
proof -
  have "digits (map uint bs)"
    using uint_lt2p [where 'a = 8] by (auto simp: digits_def)
  then show "0 \<le> le_uint bs" "le_uint bs < 256 ^ length bs"
    using dig_val_pos [of "map uint bs"] dig_val_less [of "map uint bs"] by (simp_all add: le_uint_dig)
qed

lemma le_uint_inj: "length xs = length ys \<Longrightarrow> le_uint xs = le_uint ys \<Longrightarrow> xs = ys"
proof (induction xs ys rule: list_induct2)
  case (Cons x xs y ys)
  have b: "0 \<le> uint x" "uint x < 256" "0 \<le> uint y" "uint y < 256"
    using uint_lt2p [of x] uint_lt2p [of y] by simp_all
  have "uint x = (uint x + 256 * le_uint xs) mod 256"
    using b by simp
  also have "\<dots> = uint y"
    using Cons.prems b by simp
  finally show ?case
    using Cons by (simp add: word_uint_eq_iff)
qed simp

lemma load64_skip:
  assumes "l + 8 \<le> length m"
  shows "load64 m l = Some (skip_word v) \<longleftrightarrow> (\<forall>i. l \<le> i \<and> i < l + 8 \<longrightarrow> m ! i = skip_byte v)"
proof -
  let ?bs = "take 8 (drop l m)"
  have rep: "replicate 8 x = [x, x, x, x, x, x, x, x]" for x :: byte
    by (simp add: numeral_eq_Suc)
  have "le_uint (replicate 8 (skip_byte v)) = uint (skip_word v)"
    by (cases v) (simp_all add: skip_byte_def skip_word_def rep unsigned_minus_1_eq_mask mask_eq_exp_minus_1)
  moreover have "uint (word_of_int (le_uint ?bs) :: 64 word) = le_uint ?bs"
    using le_uint_bounds [of ?bs] assms by (simp add: uint_word_of_int take_bit_int_eq_self)
  ultimately have "word_of_int (le_uint ?bs) = skip_word v \<longleftrightarrow> le_uint ?bs = le_uint (replicate 8 (skip_byte v))"
    by (simp add: word_uint_eq_iff)
  also have "\<dots> \<longleftrightarrow> ?bs = replicate 8 (skip_byte v)"
    using le_uint_inj [of ?bs "replicate 8 (skip_byte v)"] assms by auto
  also have "\<dots> \<longleftrightarrow> (\<forall>i. l \<le> i \<and> i < l + 8 \<longrightarrow> m ! i = skip_byte v)"
  proof -
    have "(\<forall>k < 8. m ! (l + k) = skip_byte v) \<longleftrightarrow> (\<forall>i. l \<le> i \<and> i < l + 8 \<longrightarrow> m ! i = skip_byte v)"
      by (metis add_less_cancel_left le_add1 le_add_diff_inverse)
    then show ?thesis
      using assms by (auto simp: list_eq_iff_nth_eq)
  qed
  finally show ?thesis
    using assms by (simp add: load64_def mem_simps)
qed

lemma bitpos_words_correct:
  "l + count \<le> length m \<Longrightarrow>
   \<exists>n. bitpos_words m (skip_word v) l count pos = Some (l + n, count - n, pos + 8 * int n) \<and> n \<le> count \<and>
     (\<forall>i. l \<le> i \<and> i < l + n \<longrightarrow> m ! i = skip_byte v) \<and>
     (8 \<le> count - n \<longrightarrow> (\<exists>i. l + n \<le> i \<and> i < l + n + 8 \<and> m ! i \<noteq> skip_byte v))"
proof (induction count arbitrary: l pos rule: less_induct)
  case (less count)
  show ?case
  proof (cases "8 \<le> count \<and> load64 m l = Some (skip_word v)")
    case True
    then have eq: "bitpos_words m (skip_word v) l count pos = bitpos_words m (skip_word v) (l + 8) (count - 8) (pos + 64)"
      by (subst bitpos_words.simps) simp
    obtain n where n: "bitpos_words m (skip_word v) (l + 8) (count - 8) (pos + 64) =
        Some (l + 8 + n, count - 8 - n, pos + 64 + 8 * int n)" "n \<le> count - 8"
      "\<forall>i. l + 8 \<le> i \<and> i < l + 8 + n \<longrightarrow> m ! i = skip_byte v"
      "8 \<le> count - 8 - n \<longrightarrow> (\<exists>i. l + 8 + n \<le> i \<and> i < l + 8 + n + 8 \<and> m ! i \<noteq> skip_byte v)"
      using less.IH [of "count - 8" "l + 8" "pos + 64"] less.prems True by auto
    have "\<forall>i. l \<le> i \<and> i < l + 8 \<longrightarrow> m ! i = skip_byte v"
      using load64_skip [of l m v] less.prems True by simp
    then have "\<forall>i. l \<le> i \<and> i < l + (8 + n) \<longrightarrow> m ! i = skip_byte v"
      using n(3) by (metis add.assoc not_less)
    then show ?thesis
      using n(1,2,4) eq True by (intro exI [of _ "8 + n"]) (auto simp: add.assoc)
  next
    case False
    have "bitpos_words m (skip_word v) l count pos = Some (l, count, pos)"
      using False less.prems by (subst bitpos_words.simps) (auto simp: load64_def mem_simps)
    moreover have "8 \<le> count \<longrightarrow> (\<exists>i. l \<le> i \<and> i < l + 8 \<and> m ! i \<noteq> skip_byte v)"
      using False load64_skip [of l m v] less.prems by auto
    ultimately show ?thesis
      by (intro exI [of _ 0]) auto
  qed
qed

lemma bitpos_load_correct:
  "c + count \<le> length m \<Longrightarrow> j \<le> 8 \<Longrightarrow>
   \<exists>w'. bitpos_load m j c count w = Some w' \<and>
     (\<forall>k < 64. bit w' k = (if k < 8 * j then j - Suc (k div 8) < count \<and> bit (m ! (c + (j - Suc (k div 8)))) (k mod 8)
                            else bit w (k - 8 * j)))"
proof (induction j arbitrary: c count w)
  case (Suc j)
  define w1 where "w1 = (if count \<noteq> 0 then push_bit 8 w OR ucast (m ! c) else push_bit 8 w)"
  have get: "count \<noteq> 0 \<Longrightarrow> mem_get m c = Some (m ! c)"
    using Suc.prems by (simp add: mem_simps)
  have step: "bitpos_load m (Suc j) c count w = bitpos_load m j (if count \<noteq> 0 then c + 1 else c) (count - 1) w1"
    using get by (simp add: w1_def)
  have pre: "(if count \<noteq> 0 then c + 1 else c) + (count - 1) \<le> length m" "j \<le> 8"
    using Suc.prems by auto
  obtain w' where w': "bitpos_load m j (if count \<noteq> 0 then c + 1 else c) (count - 1) w1 = Some w'"
    "\<forall>k < 64. bit w' k = (if k < 8 * j then j - Suc (k div 8) < count - 1 \<and>
         bit (m ! ((if count \<noteq> 0 then c + 1 else c) + (j - Suc (k div 8)))) (k mod 8) else bit w1 (k - 8 * j))"
    using Suc.IH [OF pre, of w1] by blast
  have w1: "bit w1 k = (if k < 8 then count \<noteq> 0 \<and> bit (m ! c) k else bit w (k - 8))" if "k < 64" for k
    using that bit_imp_le_length [of "m ! c" k] by (auto simp: w1_def bit_or_iff bit_push_bit_iff bit_ucast_iff)
  have "bit w' k = (if k < 8 * Suc j then Suc j - Suc (k div 8) < count \<and> bit (m ! (c + (Suc j - Suc (k div 8)))) (k mod 8)
      else bit w (k - 8 * Suc j))" if k: "k < 64" for k
  proof (cases "k < 8 * j")
    case True
    then have "k div 8 < j"
      by auto
    then show ?thesis
      using w'(2) k True by (auto simp: Suc_diff_Suc [symmetric] less_diff_conv)
  next
    case False
    then have "bit w' k = bit w1 (k - 8 * j)"
      using w'(2) k by simp
    moreover have "k div 8 = j \<and> k mod 8 = k - 8 * j" if "k < 8 * Suc j"
    proof -
      have "k div 8 = j"
        using that False by (intro div_nat_eqI) auto
      then show ?thesis
        using minus_div_mult_eq_mod [of k 8] by auto
    qed
    ultimately show ?thesis
      using w1 [of "k - 8 * j"] k False by (auto simp: diff_diff_eq add.commute)
  qed
  then show ?case
    using step w'(1) by auto
qed simp


lemma and_one_bit: "(2 ^ k AND w = 0) = (\<not> bit (w :: 64 word) k)"
  by (metis and.commute and_exp_eq_0_iff_not_bit)

lemma bitpos_scan_first:
  assumes "i < 64" "bit w (63 - i) = v"
  shows "s \<le> i \<Longrightarrow> (\<And>j. s \<le> j \<Longrightarrow> j < i \<Longrightarrow> bit w (63 - j) \<noteq> v) \<Longrightarrow>
    bitpos_scan w v (2 ^ (63 - s)) pos = Some (pos + int (i - s))"
proof (induction "i - s" arbitrary: s pos)
  case 0
  have "(2 :: 64 word) ^ (63 - i) \<noteq> 0"
    by simp
  then show ?case
    using 0 assms by (subst bitpos_scan.simps) (simp add: and_one_bit)
next
  case (Suc n)
  have s: "s < i" "63 - s < 64" "63 - s = Suc (63 - Suc s)"
    using Suc.hyps(2) assms(1) by simp_all
  have "(2 :: 64 word) ^ (63 - s) \<noteq> 0"
    by simp
  moreover have "drop_bit (Suc 0) ((2 :: 64 word) ^ (63 - s)) = 2 ^ (63 - Suc s)"
    using s by (intro bit_word_eqI) (auto simp: bit_simps)
  moreover have "bit w (63 - s) \<noteq> v"
    using Suc.prems(2) [of s] s by simp
  ultimately have "bitpos_scan w v (2 ^ (63 - s)) pos = bitpos_scan w v (2 ^ (63 - Suc s)) (pos + 1)"
    by (subst bitpos_scan.simps) (simp add: and_one_bit)
  also have "\<dots> = Some (pos + 1 + int (i - Suc s))"
    using Suc.hyps(1) [of "Suc s" "pos + 1"] Suc.hyps(2) Suc.prems s by simp
  finally show ?case
    using s by (simp add: of_nat_diff)
qed

lemma bitpos_start:
  assumes "c + count \<le> length m"
    and skip: "\<And>i. i < c \<Longrightarrow> m ! i = skip_byte v"
    and rest: "8 \<le> count \<Longrightarrow> \<exists>i. c \<le> i \<and> i < c + 8 \<and> m ! i \<noteq> skip_byte v"
    and w: "\<And>i. i < 64 \<Longrightarrow> bit w (63 - i) = (i < 8 * count \<and> bit_at m (8 * c + i))"
  shows "(if v \<and> w = 0 then Some (- 1) else bitpos_scan w v (2 ^ 63) (8 * int c)) =
    Some (case first_bit m v (8 * (c + count)) of Some i \<Rightarrow> int i | None \<Rightarrow> if v then - 1 else int (8 * (c + count)))"
proof (cases "\<exists>i < 64. bit w (63 - i) = v")
  case True
  define i where "i = (LEAST i. i < 64 \<and> bit w (63 - i) = v)"
  have i: "i < 64" "bit w (63 - i) = v"
    using LeastI_ex [OF True] by (auto simp: i_def)
  have least: "bit w (63 - j) \<noteq> v" if "j < i" for j
    using not_less_Least [of j "\<lambda>i. i < 64 \<and> bit w (63 - i) = v"] that i(1) by (auto simp: i_def)
  have scan: "bitpos_scan w v (2 ^ 63) (8 * int c) = Some (8 * int c + int i)"
    using bitpos_scan_first [OF i, of 0 "8 * int c"] least by simp
  have before: "bit_at m j \<noteq> v" if "j < 8 * c + i" "j < 8 * (c + count)" for j
  proof (cases "j < 8 * c")
    case True
    then show ?thesis
      using skip_bits [of c m v j] skip by simp
  next
    case False
    then show ?thesis
      using least [of "j - 8 * c"] w [of "j - 8 * c"] that i(1) by auto
  qed
  have w0: "\<not> (v \<and> w = 0)"
    using i by auto
  show ?thesis
  proof (cases "i < 8 * count")
    case True
    then have "first_bit m v (8 * (c + count)) = Some (8 * c + i)"
      using i w [of i] before by (intro first_bit_Some) auto
    then show ?thesis
      using scan w0 by simp
  next
    case False
    then have v: "\<not> v"
      using i w [of i] by simp
    have "\<not> 8 * count < i"
    proof
      assume "8 * count < i"
      then show False
        using least [of "8 * count"] w [of "8 * count"] i(1) v by simp
    qed
    then have "i = 8 * count"
      using False by linarith
    moreover have "first_bit m v (8 * (c + count)) = None"
      using before False by (intro first_bit_None) auto
    ultimately show ?thesis
      using scan w0 v by simp
  qed
next
  case False
  have "\<not> 8 \<le> count"
  proof
    assume "8 \<le> count"
    then obtain i where i: "c \<le> i" "i < c + 8" "m ! i \<noteq> skip_byte v"
      using rest by auto
    then obtain k where k: "k < 8" "bit (m ! i) k = v"
      by (auto simp: skip_byte_bits)
    define j where "j = 8 * (i - c) + (7 - k)"
    have j: "j < 64" "j < 8 * count" "8 * c + j = 8 * i + (7 - k)"
      using i k \<open>8 \<le> count\<close> by (auto simp: j_def)
    then have "bit_at m (8 * c + j) = v"
      using bit_at_byte [of "7 - k" m i] k by simp
    then have "bit w (63 - j) = v"
      using w [OF j(1)] j(2) by simp
    then show False
      using False j(1) by blast
  qed
  have ne: "bit w (63 - i) \<noteq> v" if "i < 64" for i
    using False that by blast
  have "v"
    using ne [of 63] w [of 63] \<open>\<not> 8 \<le> count\<close> by simp
  have "w = 0"
  proof (rule bit_word_eqI)
    fix n assume "n < LENGTH(64)"
    then show "bit w n = bit 0 n"
      using ne [of "63 - n"] \<open>v\<close> by simp
  qed
  moreover have "first_bit m v (8 * (c + count)) = None"
  proof (rule first_bit_None)
    fix j assume j: "j < 8 * (c + count)"
    show "bit_at m j \<noteq> v"
    proof (cases "j < 8 * c")
      case True
      then show ?thesis
        using skip_bits [of c m v j] skip by simp
    next
      case False
      then have "j - 8 * c < 64" "j - 8 * c < 8 * count" "8 * c + (j - 8 * c) = j"
        using j \<open>\<not> 8 \<le> count\<close> by auto
      then show ?thesis
        using ne [of "j - 8 * c"] w [of "j - 8 * c"] by simp
    qed
  qed
  ultimately show ?thesis
    using \<open>v\<close> by simp
qed

lemma redisBitpos_first:
  assumes "count \<le> length m"
  shows "redisBitpos addr m count v =
    Some (case first_bit m v (8 * count) of Some i \<Rightarrow> int i | None \<Rightarrow> if v then - 1 else int (8 * count))"
proof -
  obtain n found where n: "bitpos_align addr m (skip_byte v) 0 count 0 = Some (n, count - n, 8 * int n, found)" "n \<le> count"
    "\<forall>i. i < n \<longrightarrow> m ! i = skip_byte v" "found \<longrightarrow> n < count \<and> m ! n \<noteq> skip_byte v"
    using bitpos_align_correct [of 0 count m addr "skip_byte v" 0] assms by auto
  obtain c where c: "(if \<not> found then bitpos_words m (skip_word v) n (count - n) (8 * int n) else Some (n, count - n, 8 * int n)) =
      Some (c, count - c, 8 * int c)" "c \<le> count" "\<forall>i. i < c \<longrightarrow> m ! i = skip_byte v"
    "8 \<le> count - c \<longrightarrow> (\<exists>i. c \<le> i \<and> i < c + 8 \<and> m ! i \<noteq> skip_byte v)"
    "found \<longrightarrow> c < count \<and> m ! c \<noteq> skip_byte v"
  proof (cases found)
    case True
    then show ?thesis
      using n by (intro that [of n]) auto
  next
    case False
    have "n + (count - n) \<le> length m"
      using n(2) assms by simp
    from bitpos_words_correct [OF this, of v "8 * int n"] obtain k where k:
      "bitpos_words m (skip_word v) n (count - n) (8 * int n) = Some (n + k, count - n - k, 8 * int n + 8 * int k)"
      "k \<le> count - n" "\<forall>i. n \<le> i \<and> i < n + k \<longrightarrow> m ! i = skip_byte v"
      "8 \<le> count - n - k \<longrightarrow> (\<exists>i. n + k \<le> i \<and> i < n + k + 8 \<and> m ! i \<noteq> skip_byte v)"
      by blast
    have "\<forall>i. i < n + k \<longrightarrow> m ! i = skip_byte v"
      using n(3) k(3) by (metis not_less)
    then show ?thesis
      using False k n(2) by (intro that [of "n + k"]) (auto simp: distrib_left)
  qed
  obtain w where w: "bitpos_load m 8 c (count - c) 0 = Some w"
    "\<And>k. k < 64 \<Longrightarrow> bit w k = (8 - Suc (k div 8) < count - c \<and> bit (m ! (c + (8 - Suc (k div 8)))) (k mod 8))"
    using bitpos_load_correct [of c "count - c" m 8 0] assms c(2) by auto
  have bits: "bit w (63 - i) = (i < 8 * (count - c) \<and> bit_at m (8 * c + i))" if "i < 64" for i
  proof -
    have q: "i div 8 < 8" "i mod 8 < 8"
      using that by auto
    then have eq: "63 - i = 8 * (7 - i div 8) + (7 - i mod 8)"
      using div_mult_mod_eq [of i 8] by linarith
    have "(8 * x + y) div 8 = x" "(8 * x + y) mod 8 = y" if "y < 8" for x y :: nat
      using that by simp_all
    from this [of "7 - i mod 8" "7 - i div 8"] have "(63 - i) div 8 = 7 - i div 8" "(63 - i) mod 8 = 7 - i mod 8" "i div 8 < 8"
      unfolding eq using q by simp_all
    moreover have "i div 8 < count - c \<longleftrightarrow> i < 8 * (count - c)"
      by auto
    moreover have "bit_at m (8 * c + i) = bit (m ! (c + i div 8)) (7 - i mod 8)"
      by (simp add: bit_at_def)
    moreover have "63 - i < 64"
      by arith
    ultimately show ?thesis
      using w(2) [of "63 - i"] by simp
  qed
  have one: "NOT (drop_bit 1 (- 1)) = (2 ^ 63 :: 64 word)"
    by (simp add: mask_eq_exp_minus_1)
  have skip: "(if v then 0 else 255) = skip_byte v" "(if v then 0 else - 1) = skip_word v"
    by (simp_all add: skip_byte_def skip_word_def)
  have "redisBitpos addr m count v = (if v \<and> w = 0 then Some (- 1) else bitpos_scan w v (2 ^ 63) (8 * int c))"
    unfolding redisBitpos_def skip one n(1) bind.bind_lunit prod.case c(1) w(1) ..
  moreover have cc: "c + (count - c) = count"
    using c(2) by simp
  note start = bitpos_start [of c "count - c" m v w, unfolded cc, OF assms _ _ bits]
  ultimately show ?thesis
    using start c(3,4) by simp
qed

section \<open>Properties\<close>

lemma bit_count_card: "bit_count bs = (\<Sum>b\<leftarrow>bs. card {k. k < 8 \<and> bit (b :: byte) k})"
proof -
  have "byte_count b = card {k. k < 8 \<and> bit b k}" for b :: byte
    by (auto simp: byte_count_def distinct_length_filter intro: arg_cong [where f = card])
  then show ?thesis
    by (induction bs) simp_all
qed

text \<open>C10: The population count, which works on seven words at a time with masks and a multiplication, returns the number
  of set bits of the first \<open>count\<close> bytes, for every alignment of the memory.\<close>

theorem redisPopcount_correct:
  assumes "count \<le> length m" "8 * count < 2 ^ 64"
  shows "redisPopcount addr m count = Some (\<Sum>b\<leftarrow>take count m. card {k. k < 8 \<and> bit b k})"
  using redisPopcount_count [OF assms] by (simp add: bit_count_card)

theorem redisPopcount_correct_witness: "redisPopcount 3 (replicate 40 7) 37 = Some 111"
proof -
  have "{k. k < 8 \<and> bit (7 :: byte) k} = set (filter (bit (7 :: byte)) [0..<8])"
    by auto
  also have "\<dots> = {0, 1, 2}"
    by code_simp
  finally have "card {k. k < 8 \<and> bit (7 :: byte) k} = 3"
    by simp
  then show ?thesis
    using redisPopcount_correct [of 37 "replicate 40 7" 3] by (simp add: sum_list_replicate min_def)
qed

text \<open>C17: The search for the first bit of a value, which skips whole words, returns the first offset that has the value.
  With no such bit it returns -1 for a set bit, and for a clear bit the offset behind the last byte.\<close>

theorem redisBitpos_correct:
  assumes "count \<le> length m"
  shows "redisBitpos addr m count v =
    Some (case find (\<lambda>i. bit_at m i = v) [0..<8 * count] of Some i \<Rightarrow> int i | None \<Rightarrow> if v then - 1 else int (8 * count))"
  using redisBitpos_first [OF assms] by (simp add: first_bit_def)

theorem redisBitpos_correct_witness: "redisBitpos 5 [255, 239] 2 False = Some 11"
proof -
  have "find (\<lambda>i. bit_at [255, 239] i = False) [0..<8 * 2] = Some 11"
    by code_simp
  then show ?thesis
    using redisBitpos_correct [of 2 "[255, 239]" 5 False] by simp
qed

end
