(* ===== verification/Bitfield.thy ===== *)
theory Bitfield
  imports Bitops
begin

text \<open>
  Integers of any width in a string, from \<open>redis-6.0.10/src/bitops.c\<close>: \<open>setUnsignedBitfield\<close>, \<open>getUnsignedBitfield\<close>,
  their signed versions and the two overflow checks. Shifts and masks are on words of 64 bits, and the differences of
  the overflow checks wrap around where the code stores them in an \<open>int64_t\<close>.
\<close>

unbundle bit_operations_syntax

section \<open>Integers of any width in a bitmap\<close>

text \<open>The loops count down the bits still to be stored or read.\<close>

primrec set_bits_loop :: "bytes \<Rightarrow> nat \<Rightarrow> 64 word \<Rightarrow> nat \<Rightarrow> bytes option" where
  "set_bits_loop p offset v 0 = Some p"
| "set_bits_loop p offset v (Suc left) =
     (let bitval = (if v AND push_bit left 1 \<noteq> 0 then 1 else 0 :: 64 word);
          byte = offset div 8;
          bit = 7 - offset mod 8
      in do { b \<leftarrow> mem_get p byte;
              let byteval = (ucast b AND NOT (push_bit bit 1)) OR push_bit bit bitval;
              p \<leftarrow> mem_set p byte (ucast (byteval AND 255));
              set_bits_loop p (u64 (offset + 1)) v left })"

definition setUnsignedBitfield :: "bytes \<Rightarrow> nat \<Rightarrow> nat \<Rightarrow> 64 word \<Rightarrow> bytes option" where
  "setUnsignedBitfield p offset bits v = set_bits_loop p offset v bits"

definition setSignedBitfield :: "bytes \<Rightarrow> nat \<Rightarrow> nat \<Rightarrow> int \<Rightarrow> bytes option" where
  "setSignedBitfield p offset bits v = (let uv = word_of_int v in setUnsignedBitfield p offset bits uv)"

primrec get_bits_loop :: "bytes \<Rightarrow> nat \<Rightarrow> nat \<Rightarrow> 64 word \<Rightarrow> 64 word option" where
  "get_bits_loop p offset 0 v = Some v"
| "get_bits_loop p offset (Suc left) v =
     (let byte = offset div 8;
          bit = 7 - offset mod 8
      in do { b \<leftarrow> mem_get p byte;
              let bitval = drop_bit bit (ucast b) AND 1;
              get_bits_loop p (u64 (offset + 1)) left (push_bit 1 v OR bitval) })"

definition getUnsignedBitfield :: "bytes \<Rightarrow> nat \<Rightarrow> nat \<Rightarrow> 64 word option" where
  "getUnsignedBitfield p offset bits = get_bits_loop p offset bits 0"

definition getSignedBitfield :: "bytes \<Rightarrow> nat \<Rightarrow> nat \<Rightarrow> int option" where
  "getSignedBitfield p offset bits =
     do { u \<leftarrow> getUnsignedBitfield p offset bits;
          Some (sint (if bits < 64 \<and> u AND push_bit (bits - 1) 1 \<noteq> 0 then u OR push_bit bits (- 1) else u)) }"

text \<open>
  The overflow checks return the code and what they store at \<open>*limit\<close>, which is \<open>None\<close> when they store nothing. The
  unsigned value is a number below \<open>2 ^ 64\<close>, the increments wrap around at the point where they are stored.
\<close>

datatype bf_overflow = BFOVERFLOW_WRAP | BFOVERFLOW_SAT | BFOVERFLOW_FAIL

text \<open>The code at the label \<open>handle_wrap\<close> of the two functions.\<close>

definition unsigned_wrap :: "nat \<Rightarrow> int \<Rightarrow> nat \<Rightarrow> nat" where
  "unsigned_wrap v incr bits =
     (let mask = push_bit bits (- 1) :: 64 word;
          res = word_of_int (int v + incr)
      in unat (res AND NOT mask))"

definition signed_wrap :: "int \<Rightarrow> int \<Rightarrow> nat \<Rightarrow> int" where
  "signed_wrap v incr bits =
     (let msb = push_bit (bits - 1) 1 :: 64 word;
          c = word_of_int v + word_of_int incr;
          mask = push_bit bits (- 1)
      in sint (if bits < 64 then (if c AND msb \<noteq> 0 then c OR mask else c AND NOT mask) else c))"

definition checkUnsignedBitfieldOverflow :: "nat \<Rightarrow> int \<Rightarrow> nat \<Rightarrow> bf_overflow \<Rightarrow> int \<times> nat option" where
  "checkUnsignedBitfieldOverflow v incr bits owtype =
     (let mx = (if bits = 64 then ULLONG_MAX else 2 ^ bits - 1);
          maxincr = s64 (int mx - int v);
          minincr = s64 (- int v);
          wrap = unsigned_wrap v incr bits
      in if v > mx \<or> incr > 0 \<and> incr > maxincr then
           (case owtype of BFOVERFLOW_WRAP \<Rightarrow> (1, Some wrap) | BFOVERFLOW_SAT \<Rightarrow> (1, Some mx) | BFOVERFLOW_FAIL \<Rightarrow> (1, None))
         else if incr < 0 \<and> incr < minincr then
           (case owtype of BFOVERFLOW_WRAP \<Rightarrow> (1, Some wrap) | BFOVERFLOW_SAT \<Rightarrow> (- 1, Some 0) | BFOVERFLOW_FAIL \<Rightarrow> (- 1, None))
         else (0, None))"

definition checkSignedBitfieldOverflow :: "int \<Rightarrow> int \<Rightarrow> nat \<Rightarrow> bf_overflow \<Rightarrow> int \<times> int option" where
  "checkSignedBitfieldOverflow v incr bits owtype =
     (let mx = (if bits = 64 then LLONG_MAX else 2 ^ (bits - 1) - 1);
          mn = - mx - 1;
          maxincr = s64 (mx - v);
          minincr = s64 (mn - v);
          wrap = signed_wrap v incr bits
      in if v > mx \<or> bits \<noteq> 64 \<and> incr > maxincr \<or> v \<ge> 0 \<and> incr > 0 \<and> incr > maxincr then
           (case owtype of BFOVERFLOW_WRAP \<Rightarrow> (1, Some wrap) | BFOVERFLOW_SAT \<Rightarrow> (1, Some mx) | BFOVERFLOW_FAIL \<Rightarrow> (1, None))
         else if v < mn \<or> bits \<noteq> 64 \<and> incr < minincr \<or> v < 0 \<and> incr < 0 \<and> incr < minincr then
           (case owtype of BFOVERFLOW_WRAP \<Rightarrow> (1, Some wrap) | BFOVERFLOW_SAT \<Rightarrow> (- 1, Some mn) | BFOVERFLOW_FAIL \<Rightarrow> (- 1, None))
         else (0, None))"

section \<open>Correctness of the bit fields\<close>

definition put_bit :: "byte \<Rightarrow> nat \<Rightarrow> bool \<Rightarrow> byte" where
  "put_bit b k v = ucast (((ucast b AND NOT (push_bit k 1)) OR push_bit k (if v then 1 else 0 :: 64 word)) AND 255)"

lemma bit_255: "bit (255 :: 64 word) j \<longleftrightarrow> j < 8"
proof -
  have "(255 :: 64 word) = mask 8"
    by (simp add: mask_eq_exp_minus_1)
  then show ?thesis
    by (simp only: bit_mask_iff) auto
qed

lemma bit_255_int: "bit (255 :: int) j \<longleftrightarrow> j < 8"
proof -
  have "(255 :: int) = mask 8"
    by (simp add: mask_eq_exp_minus_1)
  then show ?thesis
    by (simp only: bit_mask_iff) auto
qed

lemma bit_put_bit: "k < 8 \<Longrightarrow> j < 8 \<Longrightarrow> bit (put_bit b k v) j = (if j = k then v else bit b j)"
  unfolding put_bit_def by (cases v) (auto simp: bit_simps bit_255 bit_255_int)

lemma bit_at_update:
  assumes "i < 8 * length p" "j < 8 * length p"
  shows "bit_at (p[i div 8 := put_bit (p ! (i div 8)) (7 - i mod 8) v]) j = (if j = i then v else bit_at p j)"
proof (cases "j div 8 = i div 8")
  case True
  then have "j = i \<longleftrightarrow> 7 - j mod 8 = 7 - i mod 8"
    using div_mult_mod_eq [of i 8] div_mult_mod_eq [of j 8] mod_less_divisor [of 8 i] mod_less_divisor [of 8 j] by linarith
  moreover have "i div 8 < length p"
    using assms(1) by (simp add: less_mult_imp_div_less mult.commute)
  ultimately show ?thesis
    using True by (simp add: bit_at_def bit_put_bit)
next
  case False
  then show ?thesis
    by (auto simp: bit_at_def)
qed

lemma set_bits_loop_correct:
  "offset + left \<le> 8 * length p \<Longrightarrow> offset + left < 2 ^ 64 \<Longrightarrow>
   \<exists>p'. set_bits_loop p offset v left = Some p' \<and> length p' = length p \<and>
     (\<forall>i < 8 * length p. bit_at p' i = (if offset \<le> i \<and> i < offset + left then bit v (offset + left - 1 - i) else bit_at p i))"
proof (induction left arbitrary: p offset)
  case (Suc left)
  let ?q = "offset div 8" and ?k = "7 - offset mod 8"
  define p1 where "p1 = p[?q := put_bit (p ! ?q) ?k (bit v left)]"
  have off: "offset < 8 * length p" "?q < length p"
    using Suc.prems by (auto simp: less_mult_imp_div_less mult.commute)
  have "u64 (offset + 1) = offset + 1"
    using Suc.prems by (intro u64_id) simp
  then have step: "set_bits_loop p offset v (Suc left) = set_bits_loop p1 (offset + 1) v left"
    using off by (simp add: mem_simps p1_def put_bit_def and_exp_eq_0_iff_not_bit Let_def)
  obtain p' where p': "set_bits_loop p1 (offset + 1) v left = Some p'" "length p' = length p"
    "\<forall>i < 8 * length p. bit_at p' i =
       (if offset + 1 \<le> i \<and> i < offset + 1 + left then bit v (offset + 1 + left - 1 - i) else bit_at p1 i)"
    using Suc.IH [of "offset + 1" p1] Suc.prems by (auto simp: p1_def)
  have "bit_at p' i = (if offset \<le> i \<and> i < offset + Suc left then bit v (offset + Suc left - 1 - i) else bit_at p i)"
    if "i < 8 * length p" for i
  proof -
    have "bit_at p1 i = (if i = offset then bit v left else bit_at p i)"
      unfolding p1_def by (rule bit_at_update) (use off that in auto)
    then show ?thesis
      using p'(3) that by auto
  qed
  then show ?case
    using step p'(1,2) by auto
qed auto

lemma get_bits_loop_correct:
  "offset + left \<le> 8 * length p \<Longrightarrow> offset + left < 2 ^ 64 \<Longrightarrow>
   \<exists>v'. get_bits_loop p offset left v = Some v' \<and>
     (\<forall>k < 64. bit v' k = (if k < left then bit_at p (offset + left - 1 - k) else bit v (k - left)))"
proof (induction left arbitrary: offset v)
  case (Suc left)
  let ?q = "offset div 8" and ?k = "7 - offset mod 8"
  define v1 :: "64 word" where "v1 = push_bit 1 v OR (drop_bit ?k (ucast (p ! ?q)) AND 1)"
  have off: "?q < length p"
    using Suc.prems by (auto simp: less_mult_imp_div_less mult.commute)
  have "u64 (offset + 1) = offset + 1"
    using Suc.prems by (intro u64_id) simp
  then have step: "get_bits_loop p offset (Suc left) v = get_bits_loop p (offset + 1) left v1"
    using off by (simp add: mem_simps v1_def Let_def)
  obtain v' where v': "get_bits_loop p (offset + 1) left v1 = Some v'"
    "\<forall>k < 64. bit v' k = (if k < left then bit_at p (offset + 1 + left - 1 - k) else bit v1 (k - left))"
    using Suc.IH [of "offset + 1" v1] Suc.prems by auto
  have v1: "bit v1 k = (if k = 0 then bit_at p offset else bit v (k - 1))" if "k < 64" for k
    using that by (auto simp: v1_def bit_at_def bit_simps mult.commute [of v 2] bit_double_iff)
  have "bit v' k = (if k < Suc left then bit_at p (offset + Suc left - 1 - k) else bit v (k - Suc left))" if k: "k < 64" for k
  proof -
    consider "k < left" | "k = left" | "left < k"
      by linarith
    then show ?thesis
      using v'(2) v1 [of "k - left"] k by cases auto
  qed
  then show ?case
    using step v'(1) by auto
qed simp

lemma getUnsignedBitfield_bits:
  assumes "offset + bits \<le> 8 * length p" "offset + bits < 2 ^ 64"
  obtains u where "getUnsignedBitfield p offset bits = Some u"
    "\<And>k. k < 64 \<Longrightarrow> bit u k = (k < bits \<and> bit_at p (offset + bits - 1 - k))"
  using get_bits_loop_correct [OF assms, of 0] by (auto simp: getUnsignedBitfield_def)

lemma setUnsignedBitfield_bits:
  assumes "offset + bits \<le> 8 * length p" "offset + bits < 2 ^ 64"
  obtains p' where "setUnsignedBitfield p offset bits v = Some p'" "length p' = length p"
    "\<And>i. i < 8 * length p \<Longrightarrow> bit_at p' i = (if offset \<le> i \<and> i < offset + bits then bit v (offset + bits - 1 - i) else bit_at p i)"
  using set_bits_loop_correct [OF assms, of v] by (auto simp: setUnsignedBitfield_def)

lemma set_get_unsigned:
  assumes "offset + bits \<le> 8 * length p" "offset + bits < 2 ^ 64" "setUnsignedBitfield p offset bits v = Some p'"
  shows "getUnsignedBitfield p' offset bits = Some (take_bit bits v)"
proof -
  have p': "length p' = length p"
    "\<And>i. i < 8 * length p \<Longrightarrow> bit_at p' i = (if offset \<le> i \<and> i < offset + bits then bit v (offset + bits - 1 - i) else bit_at p i)"
    using setUnsignedBitfield_bits [OF assms(1,2), of v] assms(3) by (metis option.inject)+
  obtain u where u: "getUnsignedBitfield p' offset bits = Some u"
    "\<And>k. k < 64 \<Longrightarrow> bit u k = (k < bits \<and> bit_at p' (offset + bits - 1 - k))"
    using getUnsignedBitfield_bits [of offset bits p'] assms(1,2) p'(1) by metis
  have "u = take_bit bits v"
  proof (rule bit_word_eqI)
    fix k assume "k < LENGTH(64)"
    moreover have "bit_at p' (offset + bits - 1 - k) = bit v k" if "k < bits"
      using p'(2) [of "offset + bits - 1 - k"] that assms(1) by (simp add: le_diff_conv2)
    ultimately show "bit u k = bit (take_bit bits v) k"
      using u(2) [of k] by (auto simp: bit_take_bit_iff)
  qed
  then show ?thesis
    using u(1) by simp
qed

lemma sign_extend:
  assumes "0 < bits" "bits \<le> 64" and high: "\<And>k. bit u k \<Longrightarrow> k < bits"
  shows "sint (if bits < 64 \<and> u AND push_bit (bits - 1) 1 \<noteq> 0 then u OR push_bit bits (- 1) else u :: 64 word) =
    signed_take_bit (bits - 1) (uint u)"
proof (rule bit_eqI)
  fix n :: nat
  let ?s = "bit u (bits - 1)"
  have test: "(u AND push_bit (bits - 1) 1 \<noteq> 0) = ?s"
    by (simp add: and_exp_eq_0_iff_not_bit)
  have rhs: "bit (signed_take_bit (bits - 1) (uint u)) n = (if n < bits then bit u n else ?s)"
    using assms(1,2) by (cases "n = bits - 1") (auto simp: bit_signed_take_bit_iff bit_uint_iff min_def)
  have word: "bit (sint w) n = (if n < 64 then bit w n else bit w 63)" for w :: "64 word"
    using bit_imp_le_length [of w n] by (auto simp: bit_sint_iff)
  have ext: "bit (u OR push_bit bits (- 1)) k = (bit u k \<or> bits \<le> k)" if "k < 64" for k
    using that by (auto simp: bit_or_iff bit_push_bit_iff bit_not_iff bit_mask_iff)
  show "bit (sint (if bits < 64 \<and> u AND push_bit (bits - 1) 1 \<noteq> 0 then u OR push_bit bits (- 1) else u)) n =
      bit (signed_take_bit (bits - 1) (uint u)) n"
  proof (cases "bits < 64 \<and> ?s")
    case True
    then show ?thesis
      using rhs ext [of n] ext [of 63] high [of n] unfolding test word by auto
  next
    case False
    then have "bit u 63 = ?s \<or> bits < 64"
      using assms(2) by (cases "bits = 64") auto
    then show ?thesis
      using False rhs high [of n] high [of 63] assms(2) unfolding test word by (auto split: if_splits)
  qed
qed

lemma set_get_signed:
  assumes "offset + bits \<le> 8 * length p" "offset + bits < 2 ^ 64" "0 < bits" "bits \<le> 64"
    "setSignedBitfield p offset bits v = Some p'"
  shows "getSignedBitfield p' offset bits = Some (signed_take_bit (bits - 1) v)"
proof -
  let ?u = "take_bit bits (word_of_int v) :: 64 word"
  have u: "getUnsignedBitfield p' offset bits = Some ?u"
    using set_get_unsigned [OF assms(1,2)] assms(5) by (simp add: setSignedBitfield_def)
  have "bit ?u k \<Longrightarrow> k < bits" for k
    by (simp add: bit_take_bit_iff)
  note ext = sign_extend [OF assms(3,4) this]
  have "signed_take_bit (bits - 1) (uint ?u) = signed_take_bit (bits - 1) v"
  proof (rule bit_eqI)
    fix n
    show "bit (signed_take_bit (bits - 1) (uint ?u)) n = bit (signed_take_bit (bits - 1) v) n"
      using assms(3,4) by (auto simp: bit_signed_take_bit_iff bit_uint_iff bit_take_bit_iff bit_word_of_int_iff min_def)
  qed
  then show ?thesis
    using u ext by (simp add: getSignedBitfield_def)
qed


section \<open>Correctness of the overflow checks\<close>

lemma wrap_unsigned:
  assumes "bits < 64"
  shows "unsigned_wrap v incr bits = nat ((int v + incr) mod 2 ^ bits)"
proof -
  define i where "i = int v + incr"
  have "word_of_int i AND NOT (push_bit bits (- 1)) = (take_bit bits (word_of_int i) :: 64 word)"
    by (intro bit_word_eqI) (auto simp: bit_simps)
  also have "uint \<dots> = take_bit bits i"
    using assms by (simp add: unsigned_take_bit_eq uint_word_of_int_eq min_def)
  finally show ?thesis
    unfolding unsigned_wrap_def Let_def i_def [symmetric] by (simp add: unat_eq_nat_uint take_bit_eq_mod)
qed

lemma s64_range: "- (2 ^ 63) \<le> i \<Longrightarrow> i < 2 ^ 63 \<Longrightarrow> s64 i = i"
  by (rule s64_id) (simp add: int64_range_def)

text \<open>The result that is expected: whether the sum leaves the range, and the value to store then.\<close>

definition overflow_sign :: "bf_overflow \<Rightarrow> int" where
  "overflow_sign ow = (if ow = BFOVERFLOW_WRAP then 1 else - 1)"

lemma checkUnsigned_result:
  assumes "0 < bits" "bits < 64" "v < 2 ^ bits" "int64_range incr"
  shows "checkUnsignedBitfieldOverflow v incr bits ow =
    (if int v + incr > 2 ^ bits - 1 then
       (1, case ow of BFOVERFLOW_WRAP \<Rightarrow> Some (nat ((int v + incr) mod 2 ^ bits)) | BFOVERFLOW_SAT \<Rightarrow> Some (2 ^ bits - 1)
           | BFOVERFLOW_FAIL \<Rightarrow> None)
     else if int v + incr < 0 then
       (overflow_sign ow, case ow of BFOVERFLOW_WRAP \<Rightarrow> Some (nat ((int v + incr) mod 2 ^ bits)) | BFOVERFLOW_SAT \<Rightarrow> Some 0
           | BFOVERFLOW_FAIL \<Rightarrow> None)
     else (0, None))"
proof -
  have le: "(2 :: nat) ^ bits \<le> 2 ^ 63" "(2 :: int) ^ bits \<le> 2 ^ 63"
    using power_increasing [of bits 63 "2 :: nat"] power_increasing [of bits 63 "2 :: int"] assms(2) by simp_all
  have v: "int v < 2 ^ bits"
    using assms(3) by (metis of_nat_less_iff of_nat_numeral of_nat_power)
  have mx: "int (2 ^ bits - 1) = 2 ^ bits - 1"
    by (simp add: of_nat_diff)
  have m: "s64 (int (2 ^ bits - 1) - int v) = 2 ^ bits - 1 - int v" "s64 (- int v) = - int v"
    unfolding mx by (rule s64_range; use le(2) v in linarith)+
  have n: "\<not> v > 2 ^ bits - 1"
    using assms(3) by simp
  have c: "(incr > 0 \<and> incr > 2 ^ bits - 1 - int v) = (int v + incr > 2 ^ bits - 1)"
    "(incr < 0 \<and> incr < - int v) = (int v + incr < 0)"
    using v by linarith+
  have mxeq: "(if bits = 64 then ULLONG_MAX else 2 ^ bits - 1) = 2 ^ bits - 1"
    using assms(2) by simp
  show ?thesis
    unfolding checkUnsignedBitfieldOverflow_def Let_def wrap_unsigned [OF assms(2)] mxeq m c
    using n by (cases ow) (auto simp: overflow_sign_def)
qed

lemma wrap_signed:
  assumes "0 < bits" "bits \<le> 64"
  shows "signed_wrap v incr bits = signed_take_bit (bits - 1) (v + incr)"
proof -
  define i where "i = v + incr"
  let ?c = "word_of_int i :: 64 word" and ?u = "take_bit bits (word_of_int i) :: 64 word"
  have "bit ?u k \<Longrightarrow> k < bits" for k
    by (simp add: bit_take_bit_iff)
  note ext = sign_extend [OF assms this]
  have c: "bits < 64 \<Longrightarrow> ?c OR push_bit bits (- 1) = ?u OR push_bit bits (- 1)" "?c AND NOT (push_bit bits (- 1)) = ?u"
    by (intro bit_word_eqI; auto simp: bit_simps)+
  have t: "(?c AND push_bit (bits - 1) 1 \<noteq> 0) = (?u AND push_bit (bits - 1) 1 \<noteq> 0)"
    using assms(1) by (simp add: and_exp_eq_0_iff_not_bit bit_take_bit_iff)
  have "bits = 64 \<Longrightarrow> ?c = ?u"
    by (intro bit_word_eqI) (auto simp: bit_take_bit_iff)
  then have "(if bits < 64 then (if ?c AND push_bit (bits - 1) 1 \<noteq> 0 then ?c OR push_bit bits (- 1) else ?c AND NOT (push_bit bits (- 1))) else ?c) =
      (if bits < 64 \<and> ?u AND push_bit (bits - 1) 1 \<noteq> 0 then ?u OR push_bit bits (- 1) else ?u)"
    using c assms(2) unfolding t by auto
  moreover have "signed_take_bit (bits - 1) (uint ?u) = signed_take_bit (bits - 1) i"
  proof (rule bit_eqI)
    fix n
    show "bit (signed_take_bit (bits - 1) (uint ?u)) n = bit (signed_take_bit (bits - 1) i) n"
      using assms by (auto simp: bit_signed_take_bit_iff bit_uint_iff bit_take_bit_iff bit_word_of_int_iff min_def)
  qed
  ultimately show ?thesis
    using ext unfolding signed_wrap_def Let_def wi_hom_add i_def [symmetric] by (simp only:)
qed

lemma checkSigned_result:
  assumes "0 < bits" "bits \<le> 64" "- (2 ^ (bits - 1)) \<le> v" "v < 2 ^ (bits - 1)" "int64_range incr"
  shows "checkSignedBitfieldOverflow v incr bits ow =
    (if v + incr > 2 ^ (bits - 1) - 1 then
       (1, case ow of BFOVERFLOW_WRAP \<Rightarrow> Some (signed_take_bit (bits - 1) (v + incr)) | BFOVERFLOW_SAT \<Rightarrow> Some (2 ^ (bits - 1) - 1)
           | BFOVERFLOW_FAIL \<Rightarrow> None)
     else if v + incr < - (2 ^ (bits - 1)) then
       (overflow_sign ow, case ow of BFOVERFLOW_WRAP \<Rightarrow> Some (signed_take_bit (bits - 1) (v + incr))
           | BFOVERFLOW_SAT \<Rightarrow> Some (- (2 ^ (bits - 1))) | BFOVERFLOW_FAIL \<Rightarrow> None)
     else (0, None))"
proof -
  let ?m = "2 ^ (bits - 1) :: int"
  have m: "?m \<le> 2 ^ 63" "0 < ?m" "(if bits = 64 then LLONG_MAX else ?m - 1) = ?m - 1"
    using power_increasing [of "bits - 1" 63 "2 :: int"] assms(2) by auto
  show ?thesis
  proof (cases "bits = 64")
    case True
    have "s64 (LLONG_MAX - v) = LLONG_MAX - v" if "v \<ge> 0"
      using that assms(4) True by (intro s64_range) auto
    moreover have "s64 (LLONG_MIN - v) = LLONG_MIN - v" if "v < 0"
      using that assms(3) True by (intro s64_range) auto
    ultimately show ?thesis
      using True assms(3,4,5) by (auto simp: checkSignedBitfieldOverflow_def wrap_signed Let_def overflow_sign_def int64_range_def split: bf_overflow.splits)
  next
    case False
    then have "2 * ?m \<le> 2 ^ 63"
      using assms(1,2) power_increasing [of bits 63 "2 :: int"] power_Suc [of "2 :: int" "bits - 1"] by simp
    then have s: "s64 (?m - 1 - v) = ?m - 1 - v" "s64 (- (?m - 1) - 1 - v) = - ?m - v"
      using assms(3,4) by (subst s64_range; simp)+
    show ?thesis
      using False assms(3,4,5) s m(2) by (auto simp: checkSignedBitfieldOverflow_def wrap_signed [OF assms(1,2)] Let_def overflow_sign_def split: bf_overflow.splits)
  qed
qed

section \<open>Properties\<close>

text \<open>Two memories that agree on every bit outside a field.\<close>

definition same_outside :: "bytes \<Rightarrow> bytes \<Rightarrow> nat \<Rightarrow> nat \<Rightarrow> bool" where
  "same_outside p p' offset bits \<longleftrightarrow> (\<forall>i < 8 * length p. i < offset \<or> offset + bits \<le> i \<longrightarrow> bit_at p' i = bit_at p i)"

lemma setUnsignedBitfield_outside:
  assumes "offset + bits \<le> 8 * length p" "offset + bits < 2 ^ 64"
  shows "\<exists>p'. setUnsignedBitfield p offset bits v = Some p' \<and> length p' = length p \<and> same_outside p p' offset bits"
  by (rule setUnsignedBitfield_bits [OF assms, of v]) (auto simp: same_outside_def)

text \<open>C21: Storing an integer of any width at any bit offset and reading it back with the same width gives the low bits of
  the stored value, sign-extended for the signed pair, and every bit outside the field is as before.\<close>

theorem bitfield_roundtrip:
  assumes "offset + bits \<le> 8 * length p" "offset + bits < 2 ^ 64" "0 < bits" "bits \<le> 64"
  shows "(\<exists>p'. setUnsignedBitfield p offset bits v = Some p' \<and> length p' = length p \<and>
      getUnsignedBitfield p' offset bits = Some (take_bit bits v) \<and> same_outside p p' offset bits) \<and>
    (\<exists>p'. setSignedBitfield p offset bits i = Some p' \<and> length p' = length p \<and>
      getSignedBitfield p' offset bits = Some (signed_take_bit (bits - 1) i) \<and> same_outside p p' offset bits)"
proof
  obtain p' where p': "setUnsignedBitfield p offset bits v = Some p'" "length p' = length p" "same_outside p p' offset bits"
    using setUnsignedBitfield_outside [OF assms(1,2), of v] by auto
  then show "\<exists>p'. setUnsignedBitfield p offset bits v = Some p' \<and> length p' = length p \<and>
      getUnsignedBitfield p' offset bits = Some (take_bit bits v) \<and> same_outside p p' offset bits"
    using set_get_unsigned [OF assms(1,2)] by blast
next
  obtain p' where p': "setUnsignedBitfield p offset bits (word_of_int i) = Some p'" "length p' = length p"
    "same_outside p p' offset bits"
    using setUnsignedBitfield_outside [OF assms(1,2), of "word_of_int i"] by auto
  then have run: "setSignedBitfield p offset bits i = Some p'"
    by (simp add: setSignedBitfield_def)
  then show "\<exists>p'. setSignedBitfield p offset bits i = Some p' \<and> length p' = length p \<and>
      getSignedBitfield p' offset bits = Some (signed_take_bit (bits - 1) i) \<and> same_outside p p' offset bits"
    using set_get_signed [OF assms run] p' by blast
qed

theorem bitfield_roundtrip_witness:
  "\<exists>p'. setSignedBitfield [0, 255, 7] 5 7 (- 3) = Some p' \<and> getSignedBitfield p' 5 7 = Some (- 3)"
proof -
  have "signed_take_bit (7 - 1) (- 3 :: int) = - 3"
    by (rule signed_take_bit_int_eq_self) simp_all
  then show ?thesis
    using bitfield_roundtrip [of 5 7 "[0, 255, 7]" 0 "- 3"] by auto
qed



text \<open>C38: The overflow check of signed fields reports exactly the increments that leave the range of the width, and
  computes the value to store, for every old value that is in the range.\<close>

theorem checkSignedBitfieldOverflow_correct:
  assumes "0 < bits" "bits \<le> 64" "- (2 ^ (bits - 1)) \<le> v" "v < 2 ^ (bits - 1)" "int64_range incr"
  shows "checkSignedBitfieldOverflow v incr bits ow =
    (if v + incr > 2 ^ (bits - 1) - 1 then
       (1, case ow of BFOVERFLOW_WRAP \<Rightarrow> Some (signed_take_bit (bits - 1) (v + incr)) | BFOVERFLOW_SAT \<Rightarrow> Some (2 ^ (bits - 1) - 1)
           | BFOVERFLOW_FAIL \<Rightarrow> None)
     else if v + incr < - (2 ^ (bits - 1)) then
       (if ow = BFOVERFLOW_WRAP then 1 else - 1,
        case ow of BFOVERFLOW_WRAP \<Rightarrow> Some (signed_take_bit (bits - 1) (v + incr))
           | BFOVERFLOW_SAT \<Rightarrow> Some (- (2 ^ (bits - 1))) | BFOVERFLOW_FAIL \<Rightarrow> None)
     else (0, None))"
  using checkSigned_result [OF assms] by (simp only: overflow_sign_def)

theorem checkSignedBitfieldOverflow_correct_witness:
  "checkSignedBitfieldOverflow 100 100 8 BFOVERFLOW_SAT = (1, Some 127) \<and>
   checkSignedBitfieldOverflow (- 100) (- 100) 8 BFOVERFLOW_SAT = (- 1, Some (- 128))"
  using checkSignedBitfieldOverflow_correct [of 8 100 100 BFOVERFLOW_SAT]
    checkSignedBitfieldOverflow_correct [of 8 "- 100" "- 100" BFOVERFLOW_SAT] by (simp add: int64_range_def)


end
