(* ===== verification/Bit_Commands.thy ===== *)
theory Bit_Commands
  imports Object Bitfield
begin

text \<open>
  The bit commands, from \<open>redis-6.0.10/src/bitops.c\<close>: SETBIT, GETBIT, BITOP, BITCOUNT and BITPOS. A command gets its
  arguments as objects and the object that the lookup of its key found; it returns the reply, the object that is stored under
  the key afterwards and the increment of \<open>server.dirty\<close>, or \<open>None\<close> for an access outside of a memory block or a failed
  assertion. BITOP takes references to its sources and drops them, which leaves their counts as they were.
  Notifications of key changes are not modelled.
\<close>

unbundle bit_operations_syntax

section \<open>Replies and arguments\<close>

text \<open>What a command adds to the output of its client.\<close>

datatype reply = Reply_int int | Reply_null | Reply_array nat | Reply_error string | Reply_set nat | Reply_bulk bytes

text \<open>An error code is put before the text, unless the text has one.\<close>

definition addReplyError :: "string \<Rightarrow> reply" where
  "addReplyError err = (if err = [] \<or> hd err \<noteq> CHR ''-'' then Reply_error (''ERR '' @ err) else Reply_error (tl err))"

definition syntaxerr :: string where
  "syntaxerr = ''ERR syntax error''"

definition wrongtypeerr :: string where
  "wrongtypeerr = ''WRONGTYPE Operation against a key holding the wrong kind of value''"

text \<open>The bytes of an argument of a command, which is encoded as a string, and the comparison with a name without regard to case.\<close>

definition arg_bytes :: "'x robj \<Rightarrow> bytes option" where
  "arg_bytes ob = do { s \<leftarrow> obj_sds ob; mem_read (sh_buf s) 0 (sdslen s) }"

definition strcaseeq :: "bytes \<Rightarrow> string \<Rightarrow> bool" where
  "strcaseeq s name \<longleftrightarrow> map tolower_byte (takeWhile (\<lambda>c. c \<noteq> 0) s) = map of_char name"

definition bitoffset_err :: string where
  "bitoffset_err = ''bit offset is not an integer or out of range''"

definition getBitOffsetFromArgument :: "'x robj \<Rightarrow> bool \<Rightarrow> nat \<Rightarrow> (string + nat) option" where
  "getBitOffsetFromArgument ob hash bits =
     do { p \<leftarrow> arg_bytes ob;
          let usehash = (if p \<noteq> [] \<and> hd p = of_char CHR ''#'' \<and> hash \<and> bits > 0 then 1 else 0);
          Some (case string2ll (drop usehash p) of
                  None \<Rightarrow> Inl bitoffset_err
                | Some loffset \<Rightarrow>
                    let loffset = (if usehash = 1 then s64 (loffset * int bits) else loffset) in
                    if loffset < 0 \<or> nat loffset div 8 \<ge> 512 * 1024 * 1024 then Inl bitoffset_err
                    else Inr (nat loffset)) }"

definition bitfield_type_err :: string where
  "bitfield_type_err = ''Invalid bitfield type. Use something like i16 u8. Note that u64 is not supported but i64 is.''"

definition getBitfieldTypeFromArgument :: "'x robj \<Rightarrow> (string + bool \<times> nat) option" where
  "getBitfieldTypeFromArgument ob =
     do { p \<leftarrow> arg_bytes ob;
          Some (case p of
                  [] \<Rightarrow> Inl bitfield_type_err
                | c # cs \<Rightarrow>
                    if c \<noteq> of_char CHR ''i'' \<and> c \<noteq> of_char CHR ''u'' then Inl bitfield_type_err
                    else let sign = (c = of_char CHR ''i'') in
                      case string2ll (takeWhile (\<lambda>c. c \<noteq> 0) cs) of
                        None \<Rightarrow> Inl bitfield_type_err
                      | Some llbits \<Rightarrow>
                          if llbits < 1 \<or> sign \<and> llbits > 64 \<or> \<not> sign \<and> llbits > 63 then Inl bitfield_type_err
                          else Inr (sign, nat llbits)) }"

text \<open>
  The object that \<open>lookupKeyRead\<close> or \<open>lookupKeyWrite\<close> finds under the key is the argument \<open>found\<close>, and the object that is
  stored under the key afterwards is a result.
\<close>

definition lookupStringForBitCommand :: "(nat \<Rightarrow> byte) \<Rightarrow> 'x robj option \<Rightarrow> nat \<Rightarrow> (string + 'x robj) option" where
  "lookupStringForBitCommand junk found maxbit =
     (let byte = maxbit div 8 in
      case found of
        None \<Rightarrow> do { s \<leftarrow> sdsnewlen junk NULL (byte + 1); Some (Inr (createObject OBJ_STRING (Ptr_sds s))) }
      | Some ob \<Rightarrow>
          if checkType ob OBJ_STRING then Some (Inl wrongtypeerr)
          else do { ob \<leftarrow> dbUnshareStringValue junk ob;
                    s \<leftarrow> obj_sds ob;
                    s \<leftarrow> sdsgrowzero junk s (byte + 1);
                    Some (Inr (ob\<lparr>optr := Ptr_sds s\<rparr>)) })"

definition LONG_STR_SIZE :: nat where
  "LONG_STR_SIZE = 21"

definition getObjectReadOnlyString :: "(nat \<Rightarrow> byte) \<Rightarrow> 'x robj \<Rightarrow> (bytes \<times> nat) option" where
  "getObjectReadOnlyString junk ob =
     (if otype ob \<noteq> OBJ_STRING then None
      else if oenc ob = OBJ_ENCODING_INT then
        do { v \<leftarrow> obj_long ob;
             (n, llbuf) \<leftarrow> ll2string (fresh_block junk LONG_STR_SIZE) LONG_STR_SIZE v;
             Some (llbuf, n) }
      else do { s \<leftarrow> obj_sds ob; Some (sh_buf s, sdslen s) })"

section \<open>SETBIT and GETBIT\<close>

text \<open>A command returns its reply, the object stored under the key afterwards and by how much it advances \<open>server.dirty\<close>.\<close>

definition bit_err :: string where
  "bit_err = ''bit is not an integer or out of range''"

definition setbitCommand :: "(nat \<Rightarrow> byte) \<Rightarrow> 'x robj option \<Rightarrow> 'x robj \<Rightarrow> 'x robj \<Rightarrow> (reply \<times> 'x robj option \<times> nat) option" where
  "setbitCommand junk found arg2 arg3 =
     do { r \<leftarrow> getBitOffsetFromArgument arg2 False 0;
          case r of
            Inl e \<Rightarrow> Some (addReplyError e, found, 0)
          | Inr bitoffset \<Rightarrow>
              do { r \<leftarrow> getLongFromObjectOrReply (Some arg3) (Some bit_err);
                   case r of
                     Inl e \<Rightarrow> Some (addReplyError e, found, 0)
                   | Inr on \<Rightarrow>
                       if on AND NOT 1 \<noteq> 0 then Some (addReplyError bit_err, found, 0)
                       else do { r \<leftarrow> lookupStringForBitCommand junk found bitoffset;
                                 case r of
                                   Inl e \<Rightarrow> Some (Reply_error e, found, 0)
                                 | Inr ob \<Rightarrow>
                                     do { s \<leftarrow> obj_sds ob;
                                          let byte = bitoffset div 8;
                                          b \<leftarrow> mem_get (sh_buf s) byte;
                                          let byteval = uint b;
                                          let bt = 7 - bitoffset mod 8;
                                          let bitval = byteval AND push_bit bt 1;
                                          let byteval = (byteval AND NOT (push_bit bt 1)) OR push_bit bt (on AND 1);
                                          buf \<leftarrow> mem_set (sh_buf s) byte (word_of_int byteval);
                                          Some (Reply_int (if bitval \<noteq> 0 then 1 else 0),
                                                Some (ob\<lparr>optr := Ptr_sds (s\<lparr>sh_buf := buf\<rparr>)\<rparr>), 1) } } } }"

definition getbitCommand :: "(nat \<Rightarrow> byte) \<Rightarrow> 'x robj option \<Rightarrow> 'x robj \<Rightarrow> reply option" where
  "getbitCommand junk found arg2 =
     do { r \<leftarrow> getBitOffsetFromArgument arg2 False 0;
          case r of
            Inl e \<Rightarrow> Some (addReplyError e)
          | Inr bitoffset \<Rightarrow>
              (case found of
                 None \<Rightarrow> Some (Reply_int 0)
               | Some ob \<Rightarrow>
                   if checkType ob OBJ_STRING then Some (Reply_error wrongtypeerr)
                   else
                     do { let byte = bitoffset div 8;
                          let bt = 7 - bitoffset mod 8;
                          (buf, len) \<leftarrow> (if sdsEncodedObject ob then do { s \<leftarrow> obj_sds ob; Some (sh_buf s, sdslen s) }
                            else do { v \<leftarrow> obj_long ob; (n, llbuf) \<leftarrow> ll2string (fresh_block junk 32) 32 v; Some (llbuf, n) });
                          bitval \<leftarrow> (if byte < len then do { b \<leftarrow> mem_get buf byte; Some (sint b AND push_bit bt 1) } else Some 0);
                          Some (Reply_int (if bitval \<noteq> 0 then 1 else 0)) }) }"

section \<open>BITOP\<close>

datatype bitop = BITOP_AND | BITOP_OR | BITOP_XOR | BITOP_NOT

definition bitop_name :: "bytes \<Rightarrow> bitop option" where
  "bitop_name opname =
     (if strcaseeq opname ''and'' then Some BITOP_AND
      else if strcaseeq opname ''or'' then Some BITOP_OR
      else if strcaseeq opname ''xor'' then Some BITOP_XOR
      else if strcaseeq opname ''not'' then Some BITOP_NOT else None)"

text \<open>
  The loop over the source keys: the buffers and lengths of the strings, and the shortest and longest length. \<open>Inl\<close> is the error
  for a key that does not hold a string.
\<close>

fun bitop_sources :: "(nat \<Rightarrow> byte) \<Rightarrow> nat \<Rightarrow> 'x robj option list \<Rightarrow> (bytes \<times> nat) list \<Rightarrow> nat \<Rightarrow> nat \<Rightarrow>
    (string + (bytes \<times> nat) list \<times> nat \<times> nat) option" where
  "bitop_sources junk j [] src minlen maxlen = Some (Inr (src, minlen, maxlen))"
| "bitop_sources junk j (None # keys) src minlen maxlen =
     bitop_sources junk (j + 1) keys (src @ [([], 0)]) 0 maxlen"
| "bitop_sources junk j (Some ob # keys) src minlen maxlen =
     (if checkType ob OBJ_STRING then Some (Inl wrongtypeerr)
      else do { dec \<leftarrow> getDecodedObject junk ob;
                s \<leftarrow> obj_sds dec;
                let len = sdslen s;
                bitop_sources junk (j + 1) keys (src @ [(sh_buf s, len)])
                  (if j = 0 \<or> len < minlen then len else minlen) (if len > maxlen then len else maxlen) })"

definition word_op :: "bitop \<Rightarrow> 'a::len word \<Rightarrow> 'a word \<Rightarrow> 'a word" where
  "word_op bop x y =
     (case bop of BITOP_AND \<Rightarrow> x AND y | BITOP_OR \<Rightarrow> x OR y | BITOP_XOR \<Rightarrow> x XOR y | BITOP_NOT \<Rightarrow> x)"

definition store64 :: "bytes \<Rightarrow> nat \<Rightarrow> 64 word \<Rightarrow> bytes option" where
  "store64 m p w = mem_write m p (le_bytes 8 (uint w))"

text \<open>One assignment \<open>lres[k] &= lp[i][k]\<close> of the fast path, and one \<open>lres[k] = ~lres[k]\<close>.\<close>

definition fast_word :: "bitop \<Rightarrow> bytes \<Rightarrow> nat \<Rightarrow> bytes \<Rightarrow> bytes option" where
  "fast_word bop res p src =
     do { x \<leftarrow> load64 res p; y \<leftarrow> load64 src p; store64 res p (word_op bop x y) }"

definition fast_not :: "bytes \<Rightarrow> nat \<Rightarrow> bytes option" where
  "fast_not res p = do { x \<leftarrow> load64 res p; store64 res p (NOT x) }"

fun fast_keys :: "bitop \<Rightarrow> bytes \<Rightarrow> nat \<Rightarrow> (bytes \<times> nat) list \<Rightarrow> bytes option" where
  "fast_keys bop res p [] = Some res"
| "fast_keys bop res p ((src, len) # keys) =
     do { res \<leftarrow> fast_word bop res p src;
          res \<leftarrow> fast_word bop res (p + 8) src;
          res \<leftarrow> fast_word bop res (p + 16) src;
          res \<leftarrow> fast_word bop res (p + 24) src;
          fast_keys bop res p keys }"

fun bitop_fast :: "bitop \<Rightarrow> bytes \<Rightarrow> nat \<Rightarrow> nat \<Rightarrow> (bytes \<times> nat) list \<Rightarrow> (bytes \<times> nat) option" where
  "bitop_fast bop res j minlen keys =
     (if minlen \<ge> 32 then
        do { res \<leftarrow> (if bop = BITOP_NOT then
                       do { res \<leftarrow> fast_not res j; res \<leftarrow> fast_not res (j + 8); res \<leftarrow> fast_not res (j + 16); fast_not res (j + 24) }
                     else fast_keys bop res j keys);
             bitop_fast bop res (j + 32) (minlen - 32) keys }
      else Some (res, j))"

declare bitop_fast.simps [simp del]

definition src_byte :: "bytes \<times> nat \<Rightarrow> nat \<Rightarrow> byte option" where
  "src_byte s j = (case s of (buf, len) \<Rightarrow> if len \<le> j then Some 0 else mem_get buf j)"

fun slow_keys :: "bitop \<Rightarrow> byte \<Rightarrow> nat \<Rightarrow> (bytes \<times> nat) list \<Rightarrow> byte option" where
  "slow_keys bop output j [] = Some output"
| "slow_keys bop output j (s # keys) = do { b \<leftarrow> src_byte s j; slow_keys bop (word_op bop output b) j keys }"

text \<open>The loop from byte \<open>j\<close> on; \<open>n\<close> is the number of bytes left.\<close>

primrec bitop_slow :: "bitop \<Rightarrow> bytes \<Rightarrow> nat \<Rightarrow> nat \<Rightarrow> bytes \<times> nat \<Rightarrow> (bytes \<times> nat) list \<Rightarrow> bytes option" where
  "bitop_slow bop res j 0 s0 keys = Some res"
| "bitop_slow bop res j (Suc n) s0 keys =
     do { output \<leftarrow> src_byte s0 j;
          let output = (if bop = BITOP_NOT then NOT output else output);
          output \<leftarrow> slow_keys bop output j keys;
          res \<leftarrow> mem_set res j output;
          bitop_slow bop res (j + 1) n s0 keys }"

definition bitopCommand :: "(nat \<Rightarrow> byte) \<Rightarrow> 'x robj \<Rightarrow> 'x robj option \<Rightarrow> 'x robj option list \<Rightarrow>
    (reply \<times> 'x robj option \<times> nat) option" where
  "bitopCommand junk arg1 target keys =
     do { opname \<leftarrow> arg_bytes arg1;
          case bitop_name opname of
            None \<Rightarrow> Some (Reply_error syntaxerr, target, 0)
          | Some bop \<Rightarrow>
              if bop = BITOP_NOT \<and> length keys \<noteq> 1 then
                Some (addReplyError ''BITOP NOT must be called with a single source key.'', target, 0)
              else
                do { r \<leftarrow> bitop_sources junk 0 keys [] 0 0;
                     case r of
                       Inl e \<Rightarrow> Some (Reply_error e, target, 0)
                     | Inr (src, minlen, maxlen) \<Rightarrow>
                         if maxlen \<noteq> 0 then
                           do { s \<leftarrow> sdsnewlen junk NULL maxlen;
                                let res = sh_buf s;
                                (res, j) \<leftarrow> (if minlen \<ge> 32 \<and> length keys \<le> 16 then
                                              do { bs \<leftarrow> mem_read (fst (hd src)) 0 minlen;
                                                   res \<leftarrow> mem_write res 0 bs;
                                                   bitop_fast bop res 0 minlen (tl src) }
                                            else Some (res, 0));
                                res \<leftarrow> bitop_slow bop res j (maxlen - j) (hd src) (tl src);
                                Some (Reply_int (int maxlen), Some (createObject OBJ_STRING (Ptr_sds (s\<lparr>sh_buf := res\<rparr>))), 1) }
                         else Some (Reply_int 0, None, if target = None then 0 else 1) } }"

section \<open>BITCOUNT and BITPOS\<close>

text \<open>
  The conversion of the indexes of a range that is common to both commands; \<open>addr\<close> is the address of the string in memory.
\<close>

definition clip_range :: "int \<Rightarrow> int \<Rightarrow> int \<Rightarrow> int \<times> int" where
  "clip_range start e len =
     (let start = (if start < 0 then len + start else start);
          e = (if e < 0 then len + e else e);
          start = (if start < 0 then 0 else start);
          e = (if e < 0 then 0 else e);
          e = (if e \<ge> len then len - 1 else e)
      in (start, e))"

definition bitcountCommand :: "(nat \<Rightarrow> byte) \<Rightarrow> nat \<Rightarrow> 'x robj option \<Rightarrow> 'x robj list \<Rightarrow> reply option" where
  "bitcountCommand junk addr found args =
     (case found of
        None \<Rightarrow> Some (Reply_int 0)
      | Some ob \<Rightarrow>
          if checkType ob OBJ_STRING then Some (Reply_error wrongtypeerr)
          else do { (p, len) \<leftarrow> getObjectReadOnlyString junk ob;
                    let count = (\<lambda>(start, e). if start > e then Some (Reply_int 0)
                          else if start \<le> int (length p) then
                            do { n \<leftarrow> redisPopcount (addr + nat start) (drop (nat start) p) (nat (e - start + 1));
                                 Some (Reply_int (int n)) }
                          else None);
                    case args of
                      [] \<Rightarrow> count (0, int len - 1)
                    | [arg2, arg3] \<Rightarrow>
                        do { r \<leftarrow> getLongFromObjectOrReply (Some arg2) None;
                             case r of
                               Inl e \<Rightarrow> Some (addReplyError e)
                             | Inr start \<Rightarrow>
                                 do { r \<leftarrow> getLongFromObjectOrReply (Some arg3) None;
                                      case r of
                                        Inl e \<Rightarrow> Some (addReplyError e)
                                      | Inr e \<Rightarrow>
                                          if start < 0 \<and> e < 0 \<and> start > e then Some (Reply_int 0)
                                          else count (clip_range start e (int len)) } }
                    | _ \<Rightarrow> Some (Reply_error syntaxerr) })"

definition bitposCommand :: "(nat \<Rightarrow> byte) \<Rightarrow> nat \<Rightarrow> 'x robj option \<Rightarrow> 'x robj \<Rightarrow> 'x robj list \<Rightarrow> reply option" where
  "bitposCommand junk addr found arg2 args =
     do { r \<leftarrow> getLongFromObjectOrReply (Some arg2) None;
          case r of
            Inl e \<Rightarrow> Some (addReplyError e)
          | Inr bt \<Rightarrow>
              if bt \<noteq> 0 \<and> bt \<noteq> 1 then Some (addReplyError ''The bit argument must be 1 or 0.'')
              else (case found of
                None \<Rightarrow> Some (Reply_int (if bt \<noteq> 0 then - 1 else 0))
              | Some ob \<Rightarrow>
                  if checkType ob OBJ_STRING then Some (Reply_error wrongtypeerr)
                  else do { (p, len) \<leftarrow> getObjectReadOnlyString junk ob;
                            let search = (\<lambda>(start, e) end_given.
                                  if start > e then Some (Reply_int (- 1))
                                  else if start \<le> int (length p) then
                                    do { let bytes = e - start + 1;
                                         pos \<leftarrow> redisBitpos (addr + nat start) (drop (nat start) p) (nat bytes) (bt = 1);
                                         if end_given \<and> bt = 0 \<and> pos = bytes * 8 then Some (Reply_int (- 1))
                                         else Some (Reply_int (if pos \<noteq> - 1 then pos + start * 8 else pos)) }
                                  else None);
                            case args of
                              [] \<Rightarrow> search (0, int len - 1) False
                            | [arg3] \<Rightarrow>
                                do { r \<leftarrow> getLongFromObjectOrReply (Some arg3) None;
                                     case r of
                                       Inl e \<Rightarrow> Some (addReplyError e)
                                     | Inr start \<Rightarrow> search (clip_range start (int len - 1) (int len)) False }
                            | [arg3, arg4] \<Rightarrow>
                                do { r \<leftarrow> getLongFromObjectOrReply (Some arg3) None;
                                     case r of
                                       Inl e \<Rightarrow> Some (addReplyError e)
                                     | Inr start \<Rightarrow>
                                         do { r \<leftarrow> getLongFromObjectOrReply (Some arg4) None;
                                              case r of
                                                Inl e \<Rightarrow> Some (addReplyError e)
                                              | Inr e \<Rightarrow> search (clip_range start e (int len)) True } }
                            | _ \<Rightarrow> Some (Reply_error syntaxerr) }) }"

section \<open>Strings as bitmaps\<close>

text \<open>The bit of an offset in a string that is followed by zeros.\<close>

definition padded_bit :: "bytes \<Rightarrow> nat \<Rightarrow> bool" where
  "padded_bit bs i \<longleftrightarrow> i < 8 * length bs \<and> bit_at bs i"

definition found_str :: "'x robj option \<Rightarrow> bytes" where
  "found_str found = (case found of None \<Rightarrow> [] | Some ob \<Rightarrow> obj_str ob)"

text \<open>An object in the keyspace that the commands may change, and an argument of a command.\<close>

definition key_obj :: "'x robj option \<Rightarrow> bool" where
  "key_obj found = (case found of None \<Rightarrow> True | Some ob \<Rightarrow> str_obj ob \<and> refcount ob + 1 \<noteq> OBJ_STATIC_REFCOUNT)"

definition arg_obj :: "'x robj \<Rightarrow> bool" where
  "arg_obj ob \<longleftrightarrow> str_obj ob \<and> sdsEncodedObject ob"

lemma arg_obj_bytes: "arg_obj ob \<Longrightarrow> arg_bytes ob = Some (obj_str ob)"
  by (auto simp: arg_obj_def arg_bytes_def sds_bytes elim: str_obj_cases)

lemma div8_less: "i div 8 < n \<longleftrightarrow> i < 8 * (n :: nat)"
  by auto

lemma padded_append: "padded_bit (xs @ replicate n 0) i = padded_bit xs i"
proof (cases "i < 8 * length xs")
  case True
  then have "i div 8 < length xs"
    by (simp add: div8_less)
  then show ?thesis
    using True by (simp add: padded_bit_def bit_at_def nth_append)
next
  case False
  then have "\<not> i div 8 < length xs"
    by (simp add: div8_less)
  moreover have "i div 8 - length xs < n" if "i < 8 * (length xs + n)"
    using that False by (simp add: less_diff_conv2 div8_less not_less le_div_geq)
  ultimately show ?thesis
    using False by (auto simp: padded_bit_def bit_at_def nth_append)
qed

lemma padded_zeros [simp]: "\<not> padded_bit (replicate n 0) i"
  using padded_append [of "[]" n i] by (simp add: padded_bit_def)

lemma sdsnewlen_NULL:
  assumes "n + 18 < 2 ^ 64"
  shows "\<exists>s. sdsnewlen junk NULL n = Some s \<and> sds_ok s \<and> sds_str s = replicate n 0"
proof -
  define t where "t = (if sdsReqType n = 0 \<and> n = 0 then 1 else sdsReqType n)"
  have room: "sds_room (sdsHdrSize t) n = Some (n + 1)"
    using sds_room_in [of "sdsHdrSize t" n] sdsHdrSize_le [of t] assms by simp
  have fit: "n < 2 ^ sds_bits t" "t \<le> 4"
    using sdsReqType_fits [of n] assms by (auto simp: t_def sds_bits_def)
  define b :: bytes where "b = (replicate (n + 1) 0)[n := 0]"
  have b: "take n b = replicate n 0" "b ! n = 0" "length b = n + 1"
    by (simp_all add: b_def del: replicate_Suc)
  have "sdsnewlen junk NULL n = Some (sdssetalloc (sdssetlen \<lparr>sh_type = t, sh_len = 0, sh_alloc = 0, sh_buf = b\<rparr> n) n)"
    using room fit unfolding b_def
    by (cases "t = 0") (simp_all add: sdsnewlen_def mem_simps Let_def sdssetalloc_def sdssetlen_def flip: t_def)
  then show ?thesis
    using fit b by (cases "t = 0") (simp_all add: sds_ok_def sds_wf_def sds_str_def sdssetalloc_def sdssetlen_def)
qed

lemma lookupString_correct:
  assumes "key_obj found" "maxbit div 8 < 512 * 1024 * 1024 + 8"
  obtains ob s where "lookupStringForBitCommand junk found maxbit = Some (Inr ob)" "optr ob = Ptr_sds s" "sds_ok s"
    "sds_str s = found_str found @ replicate (maxbit div 8 + 1 - length (found_str found)) 0"
    "str_obj ob" "oenc ob = OBJ_ENCODING_RAW" "refcount ob = 1" "sh_len s < 2 ^ 32"
proof (cases found)
  case None
  obtain s where s: "sdsnewlen junk NULL (maxbit div 8 + 1) = Some s" "sds_ok s" "sds_str s = replicate (maxbit div 8 + 1) 0"
    using sdsnewlen_NULL [of "maxbit div 8 + 1" junk] assms(2) by auto
  have "sh_len s < 2 ^ 32"
    using sds_str_len [OF s(2)] s(3) assms(2) by simp
  then show ?thesis
    using that [of "createObject OBJ_STRING (Ptr_sds s)" s] s None
    by (simp add: lookupStringForBitCommand_def Let_def createObject_def found_str_def str_obj_def OBJ_STATIC_REFCOUNT_def
      OBJ_SHARED_REFCOUNT_def)
next
  case (Some ob)
  then have ob: "str_obj ob" "refcount ob + 1 \<noteq> OBJ_STATIC_REFCOUNT"
    using assms(1) by (auto simp: key_obj_def)
  obtain ob1 s1 where 1: "dbUnshareStringValue junk ob = Some ob1" "str_obj ob1" "optr ob1 = Ptr_sds s1"
    "oenc ob1 = OBJ_ENCODING_RAW" "refcount ob1 = 1" "sds_ok s1" "sds_str s1 = obj_str ob" "sh_len s1 < 2 ^ 32"
    using dbUnshareStringValue_correct [OF ob, of junk] by auto
  obtain s where s: "sdsgrowzero junk s1 (maxbit div 8 + 1) = Some s" "sds_ok s"
    "sds_str s = sds_str s1 @ replicate (maxbit div 8 + 1 - sdslen s1) 0"
    using sdsgrowzero_correct [OF 1(6), of "maxbit div 8 + 1" junk] assms(2) by auto
  have len: "sdslen s1 = length (obj_str ob)"
    using sds_str_len [OF 1(6)] 1(7) by (simp add: sdslen_def)
  have "sh_len s < 2 ^ 32"
    using sds_str_len [OF s(2)] s(3) assms(2) 1(8) sds_str_len [OF 1(6)] by (simp add: sdslen_def)
  moreover have "\<not> checkType ob OBJ_STRING"
    using ob(1) by (simp add: str_obj_def checkType_def)
  ultimately show ?thesis
    using that [of "ob1\<lparr>optr := Ptr_sds s\<rparr>" s] s 1 len Some
    by (simp add: lookupStringForBitCommand_def Let_def obj_sds_def found_str_def str_obj_def)
qed


section \<open>Correctness of SETBIT and GETBIT\<close>

definition bit_limit :: nat where
  "bit_limit = 8 * (512 * 1024 * 1024)"

lemma getBitOffset_result:
  assumes "arg_obj arg"
  shows "getBitOffsetFromArgument arg False 0 =
    Some (case string2ll (obj_str arg) of
            Some off \<Rightarrow> if 0 \<le> off \<and> off < int bit_limit then Inr (nat off) else Inl bitoffset_err
          | None \<Rightarrow> Inl bitoffset_err)"
proof -
  have "nat off div 8 \<ge> 512 * 1024 * 1024 \<longleftrightarrow> \<not> off < int bit_limit" if "0 \<le> off" for off
  proof -
    have "\<not> nat off div 8 < 512 * 1024 * 1024 \<longleftrightarrow> \<not> nat off < bit_limit"
      unfolding div8_less bit_limit_def ..
    then show ?thesis
      using that by (simp add: not_less nat_le_iff zless_nat_conj) linarith
  qed
  then show ?thesis
    using assms by (auto simp: getBitOffsetFromArgument_def arg_obj_bytes Let_def split: option.split)
qed

lemma getLong_arg:
  assumes "arg_obj arg" "string2ll (obj_str arg) = Some v"
  shows "getLongFromObjectOrReply (Some arg) msg = Some (Inr v)" "getLongLongFromObjectOrReply (Some arg) msg = Some (Inr v)"
proof -
  have r: "LLONG_MIN \<le> v \<and> v \<le> LLONG_MAX"
    using string2ll_sound [OF assms(2)] by (simp add: int64_range_def)
  obtain s where "obj_sds arg = Some s" "sds_ok s" "obj_str arg = sds_str s" "sdsEncodedObject arg" "otype arg = OBJ_STRING"
    using assms(1) unfolding arg_obj_def by (metis str_obj_cases str_obj_def)
  then have "getLongLongFromObject (Some arg) = Some (Some v)"
    using assms(2) by (simp add: getLongLongFromObject_def isSdsRepresentableAsLongLong_def sds_bytes)
  then show "getLongFromObjectOrReply (Some arg) msg = Some (Inr v)" "getLongLongFromObjectOrReply (Some arg) msg = Some (Inr v)"
    using r by (auto simp: getLongFromObjectOrReply_def getLongLongFromObjectOrReply_def)
qed

text \<open>The byte that SETBIT stores.\<close>

lemma setbit_byte:
  assumes "k < 8" "v \<in> {0, 1}"
  shows "word_of_int ((uint b AND NOT (push_bit k 1)) OR push_bit k (v AND 1)) = put_bit b k (v = 1)"
    and "(uint b AND push_bit k 1 \<noteq> 0) = bit b k"
proof -
  show "word_of_int ((uint b AND NOT (push_bit k 1)) OR push_bit k (v AND 1)) = put_bit b k (v = 1)"
  proof (rule bit_word_eqI)
    fix n assume "n < LENGTH(8)"
    then show "bit (word_of_int ((uint b AND NOT (push_bit k 1)) OR push_bit k (v AND 1)) :: byte) n = bit (put_bit b k (v = 1)) n"
      using assms by (auto simp: bit_put_bit bit_simps)
  qed
  show "(uint b AND push_bit k 1 \<noteq> 0) = bit b k"
    using assms(1) by (simp add: and_exp_eq_0_iff_not_bit bit_uint_iff)
qed

lemma sds_update_ok:
  assumes "sds_ok s" "i < sh_len s"
  shows "sds_ok (s\<lparr>sh_buf := (sh_buf s)[i := b]\<rparr>)" "sds_str (s\<lparr>sh_buf := (sh_buf s)[i := b]\<rparr>) = (sds_str s)[i := b]"
  using assms by (auto simp: sds_ok_def sds_wf_def sds_str_def take_update_swap)

lemma setbit_result:
  fixes found :: "'x robj option"
  assumes found: "key_obj found" and args: "arg_obj arg2" "arg_obj arg3"
    and off: "string2ll (obj_str arg2) = Some (int off)" "off < bit_limit"
    and v: "string2ll (obj_str arg3) = Some v" "v \<in> {0, 1}"
  shows "\<exists>ob. setbitCommand junk found arg2 arg3 = Some (Reply_int (of_bool (padded_bit (found_str found) off)), Some ob, 1) \<and>
    str_obj ob \<and> refcount ob = 1 \<and> length (obj_str ob) = max (length (found_str found)) (off div 8 + 1) \<and>
    (\<forall>i. padded_bit (obj_str ob) i = (if i = off then v = 1 else padded_bit (found_str found) i))"
proof -
  let ?q = "off div 8" and ?k = "7 - off mod 8" and ?str = "found_str found"
  have q: "?q < 512 * 1024 * 1024 + 8"
    using off(2) by (simp add: bit_limit_def)
  obtain ob s where ob: "lookupStringForBitCommand junk found off = Some (Inr ob)" "optr ob = Ptr_sds s" "sds_ok s"
    "sds_str s = ?str @ replicate (?q + 1 - length ?str) 0" "str_obj ob" "oenc ob = OBJ_ENCODING_RAW" "refcount ob = 1" "sh_len s < 2 ^ 32"
    using lookupString_correct [OF found q] by blast
  have len: "sh_len s = max (length ?str) (?q + 1)"
    using sds_str_len [OF ob(3)] ob(4) by (auto simp: max_def)
  then have in_buf: "?q < sh_len s" "?q < length (sh_buf s)"
    using ob(3) by (auto simp: sds_ok_def sds_wf_def)
  define b where "b = sh_buf s ! ?q"
  have b: "b = sds_str s ! ?q"
    using in_buf by (simp add: b_def sds_str_def)
  define s' where "s' = s\<lparr>sh_buf := (sh_buf s)[?q := put_bit b ?k (v = 1)]\<rparr>"
  have s': "sds_ok s'" "sds_str s' = (sds_str s)[?q := put_bit (sds_str s ! ?q) ?k (v = 1)]" "sh_len s' = sh_len s"
    using sds_update_ok [OF ob(3) in_buf(1)] b by (simp_all add: s'_def)
  have on: "v AND NOT 1 = 0"
    using v(2) by auto
  have k: "?k < 8"
    by simp
  have "setbitCommand junk found arg2 arg3 = Some (Reply_int (if bit b ?k then 1 else 0), Some (ob\<lparr>optr := Ptr_sds s'\<rparr>), 1)"
    using getBitOffset_result [OF args(1)] off getLong_arg(1) [OF args(2) v(1)] on ob(1,2) in_buf setbit_byte [OF k v(2), of b]
    by (simp add: setbitCommand_def obj_sds_def mem_simps Let_def s'_def b_def [symmetric])
  moreover have "bit b ?k = padded_bit ?str off"
  proof -
    have "bit b ?k = padded_bit (sds_str s) off"
      using in_buf sds_str_len [OF ob(3)] by (simp add: b padded_bit_def bit_at_def div8_less [symmetric])
    then show ?thesis
      using ob(4) by (simp add: padded_append)
  qed
  moreover have "str_obj (ob\<lparr>optr := Ptr_sds s'\<rparr>)" "obj_str (ob\<lparr>optr := Ptr_sds s'\<rparr>) = sds_str s'" "refcount (ob\<lparr>optr := Ptr_sds s'\<rparr>) = 1"
    using ob(2,5,6,7,8) s' by (auto simp: str_obj_def obj_str_def)
  moreover have "padded_bit (sds_str s') i = (if i = off then v = 1 else padded_bit ?str i)" for i
  proof -
    have "off < 8 * length (sds_str s)"
      using in_buf(1) sds_str_len [OF ob(3)] by (simp add: div8_less [symmetric])
    then have "padded_bit (sds_str s') i = (if i = off then v = 1 else padded_bit (sds_str s) i)"
      using bit_at_update [of off "sds_str s" i "v = 1"] by (auto simp: padded_bit_def s'(2))
    then show ?thesis
      using ob(4) by (simp add: padded_append)
  qed
  ultimately show ?thesis
    using len s'(3) sds_str_len [OF s'(1)] by auto
qed


lemma getbit_result:
  fixes found :: "'x robj option"
  assumes found: "key_obj found" and args: "arg_obj arg2"
    and off: "string2ll (obj_str arg2) = Some (int off)" "off < bit_limit"
  shows "getbitCommand junk found arg2 = Some (Reply_int (of_bool (padded_bit (found_str found) off)))"
proof (cases found)
  case None
  then show ?thesis
    using getBitOffset_result [OF args] off by (simp add: getbitCommand_def found_str_def padded_bit_def)
next
  case (Some ob)
  let ?q = "off div 8" and ?k = "7 - off mod 8"
  have ob: "str_obj ob" "\<not> checkType ob OBJ_STRING"
    using found Some by (auto simp: key_obj_def str_obj_def checkType_def)
  obtain buf where buf: "(if sdsEncodedObject ob then do { s \<leftarrow> obj_sds ob; Some (sh_buf s, sdslen s) }
      else do { v \<leftarrow> obj_long ob; (n, llbuf) \<leftarrow> ll2string (fresh_block junk 32) 32 v; Some (llbuf, n) }) =
      Some (buf, length (obj_str ob))" "take (length (obj_str ob)) buf = obj_str ob"
    using ob(1)
  proof (cases rule: str_obj_cases)
    case (Sds s)
    then show ?thesis
      using that [of "sh_buf s"] by (simp add: sdslen_def sds_str_len) (simp add: sds_str_def)
  next
    case (Long v)
    have "length (dec_string v) < 32"
      using length_dec_string_le [OF Long(4)] by simp
    then show ?thesis
      using that ll2string_eq [OF Long(4), of 32 "fresh_block junk 32"] Long by simp
  qed
  have len: "length (obj_str ob) \<le> length buf"
    using buf(2) by (metis length_take min.cobounded1 min.commute)
  have "(sint b AND push_bit ?k 1 \<noteq> 0) = bit b ?k" for b :: byte
    by (auto simp: and_exp_eq_0_iff_not_bit bit_sint_iff)
  moreover have "buf ! ?q = obj_str ob ! ?q" if "?q < length (obj_str ob)"
    using that buf(2) by (metis nth_take)
  moreover have "padded_bit (obj_str ob) off = (?q < length (obj_str ob) \<and> bit (obj_str ob ! ?q) ?k)"
    by (simp add: padded_bit_def bit_at_def div8_less)
  ultimately show ?thesis
    using getBitOffset_result [OF args] off buf(1) ob(2) Some len
    by (auto simp: getbitCommand_def found_str_def mem_simps Let_def)
qed

section \<open>Correctness of BITOP\<close>

text \<open>A block in which the bytes of a range are given by a function of the index.\<close>

definition upd_range :: "bytes \<Rightarrow> nat \<Rightarrow> nat \<Rightarrow> (nat \<Rightarrow> byte) \<Rightarrow> bytes" where
  "upd_range m p n f = map (\<lambda>i. if p \<le> i \<and> i < p + n then f i else m ! i) [0..<length m]"

lemma length_upd_range [simp]: "length (upd_range m p n f) = length m"
  by (simp add: upd_range_def)

lemma nth_upd_range: "i < length m \<Longrightarrow> upd_range m p n f ! i = (if p \<le> i \<and> i < p + n then f i else m ! i)"
  by (simp add: upd_range_def)

lemma upd_range_eqI:
  assumes "length m' = length m" "\<And>i. i < length m \<Longrightarrow> m' ! i = (if p \<le> i \<and> i < p + n then f i else m ! i)"
  shows "m' = upd_range m p n f"
  using assms by (auto simp: list_eq_iff_nth_eq nth_upd_range)

lemma upd_range_0 [simp]: "upd_range m p 0 f = m"
  by (rule sym, rule upd_range_eqI) auto

lemma upd_range_join:
  "upd_range (upd_range m p n f) (p + n) k g = upd_range m p (n + k) (\<lambda>i. if i < p + n then f i else g i)"
  by (rule upd_range_eqI) (auto simp: nth_upd_range)

lemma upd_range_cong:
  "(\<And>i. p \<le> i \<Longrightarrow> i < p + n \<Longrightarrow> i < length m \<Longrightarrow> f i = g i) \<Longrightarrow> upd_range m p n f = upd_range m p n g"
  by (rule upd_range_eqI) (auto simp: nth_upd_range)

lemma bit_le_uint: "bit (le_uint bs) n = (n div 8 < length bs \<and> bit (bs ! (n div 8)) (n mod 8))"
proof (induction bs arbitrary: n)
  case (Cons b bs)
  have u: "0 \<le> uint b" "uint b < 2 ^ 8"
    using uint_lt2p [of b] by simp_all
  have "le_uint (b # bs) = uint b OR push_bit 8 (le_uint bs)"
    using add_or [OF u, of "le_uint bs"] by simp
  then have "bit (le_uint (b # bs)) n = (bit (uint b) n \<or> 8 \<le> n \<and> bit (le_uint bs) (n - 8))"
    by (simp add: bit_or_iff bit_push_bit_iff)
  moreover have "bit (uint b) n \<longleftrightarrow> n < 8 \<and> bit b n"
    using high_bit [OF u, of n] by (auto simp: bit_uint_iff)
  moreover have "n div 8 = Suc ((n - 8) div 8)" "n mod 8 = (n - 8) mod 8" if "8 \<le> n"
    using that by (simp_all add: le_div_geq le_mod_geq)
  ultimately show ?case
    using Cons by (cases "n < 8") auto
qed simp

lemma bit_le_bytes: "i < n \<Longrightarrow> k < 8 \<Longrightarrow> bit (le_bytes n v ! i) k = bit v (8 * i + k)"
proof (induction n v arbitrary: i rule: le_bytes.induct)
  case (2 n v)
  show ?case
  proof (cases i)
    case 0
    then show ?thesis
      using 2 by (simp add: bit_word_of_int_iff)
  next
    case (Suc j)
    have "v div 256 = drop_bit 8 v"
      by (simp add: drop_bit_eq_div)
    then show ?thesis
      using 2 Suc by (simp add: bit_drop_bit_eq add.assoc)
  qed
qed simp

lemma load64_bits:
  assumes "p + 8 \<le> length m"
  obtains w where "load64 m p = Some w" "\<And>n. n < 64 \<Longrightarrow> bit w n = bit (m ! (p + n div 8)) (n mod 8)"
proof
  show "load64 m p = Some (word_of_int (le_uint (take 8 (drop p m))))"
    using assms by (simp add: load64_def mem_simps)
  show "bit (word_of_int (le_uint (take 8 (drop p m))) :: 64 word) n = bit (m ! (p + n div 8)) (n mod 8)" if "n < 64" for n
  proof -
    have "n div 8 < 8"
      using that by auto
    then show ?thesis
      using that assms by (simp add: bit_word_of_int_iff bit_le_uint)
  qed
qed

lemma store64_bits:
  assumes "p + 8 \<le> length m" "\<And>i k. p \<le> i \<Longrightarrow> i < p + 8 \<Longrightarrow> k < 8 \<Longrightarrow> bit w (8 * (i - p) + k) = bit (f i) k"
  shows "store64 m p w = Some (upd_range m p 8 f)"
proof -
  have "take p m @ le_bytes 8 (uint w) @ drop (p + 8) m = upd_range m p 8 f"
  proof (rule upd_range_eqI)
    fix i assume i: "i < length m"
    have "le_bytes 8 (uint w) ! (i - p) = f i" if "p \<le> i" "i < p + 8"
    proof (rule bit_word_eqI)
      fix k assume "k < LENGTH(8)"
      then show "bit (le_bytes 8 (uint w) ! (i - p)) k = bit (f i) k"
        using assms(2) [of i k] that bit_le_bytes [of "i - p" 8 k "uint w"] by (simp add: bit_uint_iff)
    qed
    then show "(take p m @ le_bytes 8 (uint w) @ drop (p + 8) m) ! i = (if p \<le> i \<and> i < p + 8 then f i else m ! i)"
      using i assms(1) by (auto simp: nth_append)
  qed (use assms in simp)
  then show ?thesis
    using assms(1) by (simp add: store64_def mem_simps)
qed

lemma bit_word_op:
  "bit (word_op bop x y) n = (case bop of BITOP_AND \<Rightarrow> bit x n \<and> bit y n | BITOP_OR \<Rightarrow> bit x n \<or> bit y n
     | BITOP_XOR \<Rightarrow> bit x n \<noteq> bit y n | BITOP_NOT \<Rightarrow> bit x n)"
  by (cases bop) (simp_all add: word_op_def bit_and_iff bit_or_iff bit_xor_iff)

lemma byte_index: "p \<le> i \<Longrightarrow> i < p + 8 \<Longrightarrow> k < 8 \<Longrightarrow>
    8 * (i - p) + k < 64 \<and> p + (8 * (i - p) + k) div 8 = i \<and> (8 * (i - p) + k) mod 8 = (k :: nat)"
  by auto

lemma fast_word_upd:
  assumes "p + 8 \<le> length res" "p + 8 \<le> length src"
  shows "fast_word bop res p src = Some (upd_range res p 8 (\<lambda>i. word_op bop (res ! i) (src ! i)))"
proof -
  obtain x where x: "load64 res p = Some x" "\<And>n. n < 64 \<Longrightarrow> bit x n = bit (res ! (p + n div 8)) (n mod 8)"
    using load64_bits [OF assms(1)] by blast
  obtain y where y: "load64 src p = Some y" "\<And>n. n < 64 \<Longrightarrow> bit y n = bit (src ! (p + n div 8)) (n mod 8)"
    using load64_bits [OF assms(2)] by blast
  have "store64 res p (word_op bop x y) = Some (upd_range res p 8 (\<lambda>i. word_op bop (res ! i) (src ! i)))"
    using assms(1) by (rule store64_bits) (simp add: bit_word_op x(2) y(2) byte_index split: bitop.split)
  then show ?thesis
    using x(1) y(1) by (simp add: fast_word_def)
qed

lemma fast_not_upd:
  assumes "p + 8 \<le> length res"
  shows "fast_not res p = Some (upd_range res p 8 (\<lambda>i. NOT (res ! i)))"
proof -
  obtain x where x: "load64 res p = Some x" "\<And>n. n < 64 \<Longrightarrow> bit x n = bit (res ! (p + n div 8)) (n mod 8)"
    using load64_bits [OF assms(1)] by blast
  have "store64 res p (NOT x) = Some (upd_range res p 8 (\<lambda>i. NOT (res ! i)))"
    using assms(1) by (rule store64_bits) (simp add: bit_not_iff x(2) byte_index)
  then show ?thesis
    using x(1) by (simp add: fast_not_def)
qed


text \<open>Four steps on consecutive words, each of which gives the bytes of its range from those of the block.\<close>

lemma four_words:
  assumes step: "\<And>m q. length m = length res \<Longrightarrow> p \<le> q \<Longrightarrow> q + 8 \<le> p + 32 \<Longrightarrow> g m q = Some (upd_range m q 8 (\<lambda>i. f (m ! i) i))"
    and p: "p + 32 \<le> length res"
  shows "do { r \<leftarrow> g res p; r \<leftarrow> g r (p + 8); r \<leftarrow> g r (p + 16); g r (p + 24) } =
    Some (upd_range res p 32 (\<lambda>i. f (res ! i) i))"
proof -
  have step2: "g (upd_range res p n (\<lambda>i. f (res ! i) i)) (p + n) = Some (upd_range res p (n + 8) (\<lambda>i. f (res ! i) i))"
    if n: "n + 8 \<le> 32" for n
  proof -
    have "upd_range (upd_range res p n (\<lambda>i. f (res ! i) i)) (p + n) 8 (\<lambda>i. f (upd_range res p n (\<lambda>i. f (res ! i) i) ! i) i) =
        upd_range res p (n + 8) (\<lambda>i. f (res ! i) i)"
      unfolding upd_range_join by (rule upd_range_cong) (auto simp: nth_upd_range)
    then show ?thesis
      using step [of "upd_range res p n (\<lambda>i. f (res ! i) i)" "p + n"] p n by simp
  qed
  show ?thesis
    using step2 [of 0] step2 [of 8] step2 [of 16] step2 [of 24] by simp
qed

lemma fast_keys_upd:
  "p + 32 \<le> length res \<Longrightarrow> \<forall>s \<in> set keys. p + 32 \<le> length (fst s) \<Longrightarrow>
   fast_keys bop res p keys = Some (upd_range res p 32 (\<lambda>i. foldl (word_op bop) (res ! i) (map (\<lambda>s. fst s ! i) keys)))"
proof (induction keys arbitrary: res)
  case Nil
  have "res = upd_range res p 32 (\<lambda>i. res ! i)"
    by (rule upd_range_eqI) auto
  then show ?case
    by simp
next
  case (Cons s keys)
  obtain src len where s: "s = (src, len)"
    by (cases s)
  let ?r = "upd_range res p 32 (\<lambda>i. word_op bop (res ! i) (src ! i))"
  have four: "do { r \<leftarrow> fast_word bop res p src; r \<leftarrow> fast_word bop r (p + 8) src; r \<leftarrow> fast_word bop r (p + 16) src;
      fast_word bop r (p + 24) src } = Some ?r"
    by (rule four_words [where f = "\<lambda>b i. word_op bop b (src ! i)"])
      (use Cons.prems s in \<open>auto intro!: fast_word_upd\<close>)
  have "fast_keys bop res p (s # keys) =
      Option.bind (do { r \<leftarrow> fast_word bop res p src; r \<leftarrow> fast_word bop r (p + 8) src; r \<leftarrow> fast_word bop r (p + 16) src;
        fast_word bop r (p + 24) src }) (\<lambda>res. fast_keys bop res p keys)"
    by (simp add: s)
  also have "\<dots> = fast_keys bop ?r p keys"
    unfolding four by simp
  also have "\<dots> = Some (upd_range ?r p 32 (\<lambda>i. foldl (word_op bop) (?r ! i) (map (\<lambda>s. fst s ! i) keys)))"
    using Cons by simp
  also have "upd_range ?r p 32 (\<lambda>i. foldl (word_op bop) (?r ! i) (map (\<lambda>s. fst s ! i) keys)) =
      upd_range res p 32 (\<lambda>i. foldl (word_op bop) (res ! i) (map (\<lambda>s. fst s ! i) (s # keys)))"
    by (rule upd_range_eqI) (auto simp: nth_upd_range s)
  finally show ?case .
qed

text \<open>The value that the fast path gives a byte.\<close>

definition fast_byte :: "bitop \<Rightarrow> (bytes \<times> nat) list \<Rightarrow> byte \<Rightarrow> nat \<Rightarrow> byte" where
  "fast_byte bop keys b i = (if bop = BITOP_NOT then NOT b else foldl (word_op bop) b (map (\<lambda>s. fst s ! i) keys))"

lemma bitop_fast_upd:
  "j + minlen \<le> length res \<Longrightarrow> \<forall>s \<in> set keys. j + minlen \<le> length (fst s) \<Longrightarrow>
   \<exists>n \<le> minlen. bitop_fast bop res j minlen keys = Some (upd_range res j n (\<lambda>i. fast_byte bop keys (res ! i) i), j + n)"
proof (induction minlen arbitrary: res j rule: less_induct)
  case (less minlen)
  show ?case
  proof (cases "32 \<le> minlen")
    case True
    let ?r = "upd_range res j 32 (\<lambda>i. fast_byte bop keys (res ! i) i)"
    have four: "do { r \<leftarrow> fast_not res j; r \<leftarrow> fast_not r (j + 8); r \<leftarrow> fast_not r (j + 16); fast_not r (j + 24) } =
        Some (upd_range res j 32 (\<lambda>i. NOT (res ! i)))"
      by (rule four_words [where f = "\<lambda>b i. NOT b"]) (use less.prems True in \<open>auto intro!: fast_not_upd\<close>)
    have "j + 32 \<le> length res" "\<forall>s \<in> set keys. j + 32 \<le> length (fst s)"
      using less.prems True by auto
    note keys = fast_keys_upd [OF this, of bop]
    have "(if bop = BITOP_NOT then
             do { res \<leftarrow> fast_not res j; res \<leftarrow> fast_not res (j + 8); res \<leftarrow> fast_not res (j + 16); fast_not res (j + 24) }
           else fast_keys bop res j keys) = Some ?r"
      using four keys by (simp add: fast_byte_def)
    then have step: "bitop_fast bop res j minlen keys = bitop_fast bop ?r (j + 32) (minlen - 32) keys"
      using True by (subst bitop_fast.simps) simp
    obtain n where n: "n \<le> minlen - 32"
      "bitop_fast bop ?r (j + 32) (minlen - 32) keys = Some (upd_range ?r (j + 32) n (\<lambda>i. fast_byte bop keys (?r ! i) i), j + 32 + n)"
      using less.IH [of "minlen - 32" "j + 32" ?r] less.prems True by auto
    have "upd_range ?r (j + 32) n (\<lambda>i. fast_byte bop keys (?r ! i) i) = upd_range res j (32 + n) (\<lambda>i. fast_byte bop keys (res ! i) i)"
      unfolding upd_range_join by (rule upd_range_cong) (auto simp: nth_upd_range)
    then show ?thesis
      using step n True by (intro exI [of _ "32 + n"]) auto
  next
    case False
    then show ?thesis
      by (subst bitop_fast.simps) (auto intro!: exI [of _ 0])
  qed
qed

text \<open>The reference: the operation on the bytes of every string, with zeros after its end.\<close>

definition pad_byte :: "bytes \<Rightarrow> nat \<Rightarrow> byte" where
  "pad_byte bs j = (if j < length bs then bs ! j else 0)"

definition bitop_byte :: "bitop \<Rightarrow> bytes list \<Rightarrow> nat \<Rightarrow> byte" where
  "bitop_byte bop strs j =
     (if bop = BITOP_NOT then NOT (pad_byte (hd strs) j)
      else foldl (word_op bop) (pad_byte (hd strs) j) (map (\<lambda>s. pad_byte s j) (tl strs)))"

definition src_for :: "bytes \<times> nat \<Rightarrow> bytes \<Rightarrow> bool" where
  "src_for s bs \<longleftrightarrow> snd s = length bs \<and> take (length bs) (fst s) = bs \<and> length bs \<le> length (fst s)"

lemma src_for_byte: "src_for s bs \<Longrightarrow> src_byte s j = Some (pad_byte bs j)"
  using nth_take [of j "length bs" "fst s"] by (cases s) (auto simp: src_for_def src_byte_def pad_byte_def mem_simps)

lemma src_for_nth: "src_for s bs \<Longrightarrow> j < length bs \<Longrightarrow> fst s ! j = pad_byte bs j"
  using nth_take [of j "length bs" "fst s"] by (auto simp: src_for_def pad_byte_def)

lemma slow_keys_fold:
  "list_all2 src_for keys strs \<Longrightarrow> slow_keys bop out j keys = Some (foldl (word_op bop) out (map (\<lambda>s. pad_byte s j) strs))"
  by (induction keys strs arbitrary: out rule: list_all2_induct) (simp_all add: src_for_byte)

lemma bitop_slow_upd:
  assumes "src_for s0 b0" "list_all2 src_for keys strs" "bop = BITOP_NOT \<longrightarrow> strs = []"
  shows "j + n \<le> length res \<Longrightarrow> bitop_slow bop res j n s0 keys = Some (upd_range res j n (bitop_byte bop (b0 # strs)))"
proof (induction n arbitrary: res j)
  case (Suc n)
  have "slow_keys bop (if bop = BITOP_NOT then NOT (pad_byte b0 j) else pad_byte b0 j) j keys = Some (bitop_byte bop (b0 # strs) j)"
    using slow_keys_fold [OF assms(2)] assms(3) by (auto simp: bitop_byte_def)
  then have "bitop_slow bop res j (Suc n) s0 keys = bitop_slow bop (res[j := bitop_byte bop (b0 # strs) j]) (j + 1) n s0 keys"
    using Suc.prems src_for_byte [OF assms(1)] by (simp add: mem_simps Let_def)
  also have "\<dots> = Some (upd_range (res[j := bitop_byte bop (b0 # strs) j]) (j + 1) n (bitop_byte bop (b0 # strs)))"
    using Suc by simp
  also have "upd_range (res[j := bitop_byte bop (b0 # strs) j]) (j + 1) n (bitop_byte bop (b0 # strs)) =
      upd_range res j (Suc n) (bitop_byte bop (b0 # strs))"
    by (rule upd_range_eqI) (auto simp: nth_upd_range nth_list_update not_less_eq_eq)
  finally show ?case .
qed simp

lemma bitop_sources_correct:
  fixes keys :: "'x robj option list"
  shows "\<forall>k \<in> set keys. key_obj k \<Longrightarrow> \<exists>srcs mn.
    bitop_sources junk j keys src minlen maxlen = Some (Inr (src @ srcs, mn, foldl max maxlen (map (\<lambda>k. length (found_str k)) keys))) \<and>
    list_all2 src_for srcs (map found_str keys) \<and> (\<forall>k \<in> set keys. mn \<le> length (found_str k)) \<and> (0 < j \<longrightarrow> mn \<le> minlen)"
proof (induction keys arbitrary: j src minlen maxlen)
  case (Cons k keys)
  show ?case
  proof (cases k)
    case None
    obtain srcs mn where "bitop_sources junk (j + 1) keys (src @ [([], 0)]) 0 maxlen =
        Some (Inr ((src @ [([], 0)]) @ srcs, mn, foldl max maxlen (map (\<lambda>k. length (found_str k)) keys)))"
      "list_all2 src_for srcs (map found_str keys)" "\<forall>k \<in> set keys. mn \<le> length (found_str k)" "mn \<le> 0"
      using Cons.IH [of "j + 1" "src @ [([], 0)]" 0 maxlen] Cons.prems by auto
    moreover have "found_str k = []" "src_for ([], 0) []"
      using None by (simp_all add: found_str_def src_for_def)
    ultimately show ?thesis
      using None by (intro exI [of _ "([], 0) # srcs"] exI [of _ mn]) simp
  next
    case (Some ob)
    then have ob: "str_obj ob" "refcount ob + 1 \<noteq> OBJ_STATIC_REFCOUNT" "\<not> checkType ob OBJ_STRING"
      using Cons.prems by (auto simp: key_obj_def checkType_def str_obj_def)
    obtain dec s where dec: "getDecodedObject junk ob = Some dec" "obj_sds dec = Some s" "sds_ok s" "sds_str s = obj_str ob"
      using getDecodedObject_correct [OF ob(1,2), of junk] by blast
    have len: "sdslen s = length (found_str k)" "src_for (sh_buf s, sdslen s) (found_str k)"
      using dec(3,4) sds_str_len [OF dec(3)] Some
      by (auto simp: sdslen_def found_str_def src_for_def sds_ok_def sds_wf_def sds_str_def)
    define mn0 where "mn0 = (if j = 0 \<or> sdslen s < minlen then sdslen s else minlen)"
    have mx: "(if sdslen s > maxlen then sdslen s else maxlen) = max maxlen (length (found_str k))"
      using len(1) by auto
    obtain srcs mn where "bitop_sources junk (j + 1) keys (src @ [(sh_buf s, sdslen s)]) mn0 (max maxlen (length (found_str k))) =
        Some (Inr ((src @ [(sh_buf s, sdslen s)]) @ srcs, mn,
          foldl max (max maxlen (length (found_str k))) (map (\<lambda>k. length (found_str k)) keys)))"
      "list_all2 src_for srcs (map found_str keys)" "\<forall>k \<in> set keys. mn \<le> length (found_str k)" "mn \<le> mn0"
      using Cons.IH [of "j + 1" "src @ [(sh_buf s, sdslen s)]" mn0 "max maxlen (length (found_str k))"] Cons.prems by auto
    moreover have "bitop_sources junk j (k # keys) src minlen maxlen =
        bitop_sources junk (j + 1) keys (src @ [(sh_buf s, sdslen s)]) mn0 (max maxlen (length (found_str k)))"
      using Some ob(3) dec(1,2) mx by (simp add: Let_def mn0_def)
    ultimately show ?thesis
      using len by (intro exI [of _ "(sh_buf s, sdslen s) # srcs"] exI [of _ mn]) (auto simp: mn0_def split: if_splits)
  qed
qed simp

lemma foldl_max_ge: "m \<le> foldl max m ns" "\<forall>n \<in> set ns. n \<le> foldl max m ns" for m :: nat
  by (induction ns arbitrary: m) (auto intro: le_trans [OF max.cobounded1] le_trans [OF max.cobounded2])

lemma foldl_max_eq: "foldl max 0 (n # ns) = Max (set (n # ns))" for n :: nat
proof -
  have "(\<lambda>x s. max s x) = (max :: nat \<Rightarrow> nat \<Rightarrow> nat)"
    by (simp add: fun_eq_iff max.commute)
  then show ?thesis
    unfolding Max.set_eq_fold by (simp add: foldl_conv_fold)
qed

lemma foldl_max_less: "\<forall>n \<in> set ns. n < b \<Longrightarrow> m < b \<Longrightarrow> foldl max m ns < b" for m :: nat
  by (induction ns arbitrary: m) auto

text \<open>The two paths together: whatever part the fast path takes, the bytes are those of the reference.\<close>

lemma fast_byte_ref:
  assumes "list_all2 src_for ss bs" "\<forall>b \<in> set bs. i < length b" "i < length b0" "bop = BITOP_NOT \<longrightarrow> bs = []"
  shows "fast_byte bop ss (b0 ! i) i = bitop_byte bop (b0 # bs) i"
proof -
  have "map (\<lambda>s. fst s ! i) ss = map (\<lambda>s. pad_byte s i) bs"
    using assms(1,2) by (induction ss bs rule: list_all2_induct) (auto simp: src_for_nth)
  then show ?thesis
    using assms(3) by (simp add: fast_byte_def bitop_byte_def pad_byte_def)
qed

lemma bitop_bytes:
  assumes s0: "src_for s0 b0" and ss: "list_all2 src_for ss bs" and one: "bop = BITOP_NOT \<longrightarrow> bs = []"
    and mn: "mn \<le> length b0" "\<forall>b \<in> set bs. mn \<le> length b" and mx: "length b0 \<le> mx" "mx \<le> length res"
  shows "do { (res, j) \<leftarrow> (if fast then do { bs \<leftarrow> mem_read (fst s0) 0 mn; res \<leftarrow> mem_write res 0 bs; bitop_fast bop res 0 mn ss }
                           else Some (res, 0));
              bitop_slow bop res j (mx - j) s0 ss } = Some (upd_range res 0 mx (bitop_byte bop (b0 # bs)))"
proof (cases fast)
  case False
  then show ?thesis
    using bitop_slow_upd [OF s0 ss one, of 0 mx res] mx by simp
next
  case True
  let ?r = "take mn b0 @ drop mn res"
  have src: "take mn (fst s0) = take mn b0" "mn \<le> length (fst s0)"
    using s0 mn(1) by (auto simp: src_for_def min_def) (metis min.absorb1 take_take)
  have r: "length ?r = length res" "\<And>i. i < mn \<Longrightarrow> ?r ! i = b0 ! i" "\<And>i. mn \<le> i \<Longrightarrow> i < length res \<Longrightarrow> ?r ! i = res ! i"
    using mn(1) mx by (auto simp: nth_append)
  have "\<forall>s \<in> set ss. mn \<le> length (fst s)"
    using ss mn(2) by (induction ss bs rule: list_all2_induct) (auto simp: src_for_def)
  then obtain n where n: "n \<le> mn" "bitop_fast bop ?r 0 mn ss = Some (upd_range ?r 0 n (\<lambda>i. fast_byte bop ss (?r ! i) i), n)"
    using bitop_fast_upd [of 0 mn ?r ss bop] r(1) mn(1) mx by auto
  let ?f = "upd_range ?r 0 n (\<lambda>i. fast_byte bop ss (?r ! i) i)"
  have "bitop_slow bop ?f n (mx - n) s0 ss = Some (upd_range ?f n (mx - n) (bitop_byte bop (b0 # bs)))"
    using bitop_slow_upd [OF s0 ss one, of n "mx - n" ?f] n(1) mn(1) mx r(1) by simp
  moreover have "upd_range ?f n (mx - n) (bitop_byte bop (b0 # bs)) = upd_range res 0 mx (bitop_byte bop (b0 # bs))"
  proof (rule upd_range_eqI)
    fix i assume i: "i < length res"
    have "fast_byte bop ss (?r ! i) i = bitop_byte bop (b0 # bs) i" if "i < n"
    proof -
      have "\<forall>b \<in> set bs. i < length b" "i < length b0"
        using that n(1) mn by fastforce+
      then show ?thesis
        using fast_byte_ref [OF ss _ _ one, of i b0] r(2) [of i] that n(1) by simp
    qed
    then show "upd_range ?f n (mx - n) (bitop_byte bop (b0 # bs)) ! i =
        (if 0 \<le> i \<and> i < 0 + mx then bitop_byte bop (b0 # bs) i else res ! i)"
      using i n(1) mn(1) mx r by (auto simp: nth_upd_range)
  qed (use r(1) in simp)
  ultimately show ?thesis
    using True src n(2) mn(1) mx by (simp add: mem_simps)
qed

lemma sds_range_ok:
  assumes "sds_ok s"
  shows "sds_ok (s\<lparr>sh_buf := upd_range (sh_buf s) 0 (sh_len s) f\<rparr>)"
    and "sds_str (s\<lparr>sh_buf := upd_range (sh_buf s) 0 (sh_len s) f\<rparr>) = map f [0..<sh_len s]"
proof -
  have len: "sh_len s < length (sh_buf s)"
    using assms by (simp add: sds_ok_def sds_wf_def)
  then show "sds_ok (s\<lparr>sh_buf := upd_range (sh_buf s) 0 (sh_len s) f\<rparr>)"
    using assms by (simp add: sds_ok_def sds_wf_def nth_upd_range)
  show "sds_str (s\<lparr>sh_buf := upd_range (sh_buf s) 0 (sh_len s) f\<rparr>) = map f [0..<sh_len s]"
    using len by (intro nth_equalityI) (auto simp: sds_str_def nth_upd_range)
qed

lemma found_str_length: "key_obj k \<Longrightarrow> length (found_str k) < 2 ^ 32"
  by (auto simp: key_obj_def found_str_def sds_str_len split: option.splits elim!: str_obj_cases dest!: length_dec_string_le)

lemma bitop_result:
  fixes keys :: "'x robj option list"
  assumes arg: "arg_obj arg1" "bitop_name (obj_str arg1) = Some bop"
    and keys: "keys \<noteq> []" "\<forall>k \<in> set keys. key_obj k" "bop = BITOP_NOT \<longrightarrow> length keys = 1"
    and mx: "mx = Max (set (map (\<lambda>k. length (found_str k)) keys))"
  shows "if mx = 0 then bitopCommand junk arg1 target keys = Some (Reply_int 0, None, if target = None then 0 else 1)
    else \<exists>ob. bitopCommand junk arg1 target keys = Some (Reply_int (int mx), Some ob, 1) \<and> str_obj ob \<and>
      obj_str ob = map (bitop_byte bop (map found_str keys)) [0..<mx]"
proof -
  obtain k0 ks where k: "keys = k0 # ks"
    using keys(1) by (cases keys) auto
  obtain srcs mn where src: "bitop_sources junk 0 keys [] 0 0 = Some (Inr (srcs, mn, foldl max 0 (map (\<lambda>k. length (found_str k)) keys)))"
    "list_all2 src_for srcs (map found_str keys)" "\<forall>k \<in> set keys. mn \<le> length (found_str k)"
    using bitop_sources_correct [OF keys(2), of junk 0 "[]" 0 0] by auto
  have max: "foldl max 0 (map (\<lambda>k. length (found_str k)) keys) = mx"
    unfolding mx k list.map by (rule foldl_max_eq)
  have le: "length (found_str k) \<le> mx" if "k \<in> set keys" for k
    unfolding mx using that by (intro Max_ge) auto
  have lt: "mx < 2 ^ 32"
    unfolding max [symmetric] by (rule foldl_max_less) (use keys(2) found_str_length in auto)
  obtain s0 ss where s: "srcs = s0 # ss" "src_for s0 (found_str k0)" "list_all2 src_for ss (map found_str ks)"
    using src(2) unfolding k by (auto simp: list_all2_Cons2)
  note start = bitopCommand_def arg_obj_bytes [OF arg(1)] bind.bind_lunit arg(2) option.case src(1) max sum.case prod.case
  have not: "(bop = BITOP_NOT \<and> length keys \<noteq> 1) = False" "bop = BITOP_NOT \<longrightarrow> map found_str ks = []"
    using keys(3) k by auto
  show ?thesis
  proof (cases "mx = 0")
    case True
    then show ?thesis
      unfolding start not(1) by simp
  next
    case False
    obtain z where z: "sdsnewlen junk NULL mx = Some z" "sds_ok z" "sds_str z = replicate mx 0"
      using sdsnewlen_NULL [of mx junk] lt by auto
    have zl: "sh_len z = mx" "mx \<le> length (sh_buf z)"
      using sds_str_len [OF z(2)] z(2,3) by (auto simp: sds_ok_def sds_wf_def)
    let ?z = "z\<lparr>sh_buf := upd_range (sh_buf z) 0 mx (bitop_byte bop (map found_str keys))\<rparr>"
    have run: "do { (res, j) \<leftarrow> (if fast then do { bs \<leftarrow> mem_read (fst s0) 0 mn; res \<leftarrow> mem_write (sh_buf z) 0 bs; bitop_fast bop res 0 mn ss }
                           else Some (sh_buf z, 0));
              bitop_slow bop res j (mx - j) s0 ss } = Some (upd_range (sh_buf z) 0 mx (bitop_byte bop (map found_str keys)))" for fast
      unfolding k list.map by (rule bitop_bytes) (use s not(2) src(3) le zl(2) k in auto)
    have cont: "do { (res, j) \<leftarrow> x; res \<leftarrow> g res j; h res } = Option.bind (do { (res, j) \<leftarrow> x; g res j }) h" for x g h
      by (cases x) auto
    have "bitopCommand junk arg1 target keys = Some (Reply_int (int mx), Some (createObject OBJ_STRING (Ptr_sds ?z)), 1)"
      unfolding start s(1) list.sel z(1) Let_def cont run not(1) using False by simp
    moreover have "str_obj (createObject OBJ_STRING (Ptr_sds ?z) :: 'x robj)"
        "obj_str (createObject OBJ_STRING (Ptr_sds ?z) :: 'x robj) = map (bitop_byte bop (map found_str keys)) [0..<mx]"
      using sds_range_ok [OF z(2)] zl(1) lt
      by (simp_all add: createObject_def str_obj_def obj_str_def OBJ_STATIC_REFCOUNT_def OBJ_SHARED_REFCOUNT_def)
    ultimately show ?thesis
      using False by simp
  qed
qed

section \<open>Correctness of BITCOUNT and BITPOS\<close>

text \<open>
  The offsets of the bits in a range of bytes. A negative index counts from the end; an end before the first byte stands
  for the first byte.
\<close>

definition from_end :: "nat \<Rightarrow> int \<Rightarrow> int" where
  "from_end len k = (if k < 0 then int len + k else k)"

definition range_bits :: "nat \<Rightarrow> int \<Rightarrow> int \<Rightarrow> nat list" where
  "range_bits len start e =
     filter (\<lambda>i. from_end len start \<le> int (i div 8) \<and> int (i div 8) \<le> max 0 (from_end len e)) [0..<8 * len]"

lemma filter_upt: "filter (\<lambda>i. a \<le> i \<and> i < b) [0..<n] = [a..<min b n]"
  by (induction n) (auto simp: min_def le_less_Suc_eq, metis Suc_leI le_antisym upt_Suc_append)

lemma clip_range_in: "clip_range start e (int len) = (s, t) \<Longrightarrow> 0 \<le> s \<and> - 1 \<le> t \<and> t < int len"
  by (auto simp: clip_range_def Let_def split: if_splits)

lemma range_bits_clip:
  assumes "clip_range start e (int len) = (s, t)"
  shows "range_bits len start e = [8 * nat s..<8 * nat (t + 1)]"
proof -
  note st = clip_range_in [OF assms]
  have clip: "(from_end len start \<le> int q \<and> int q \<le> max 0 (from_end len e)) = (s \<le> int q \<and> int q \<le> t)" if "q < len" for q
    using assms that by (auto simp: clip_range_def Let_def from_end_def split: if_splits)
  have "(from_end len start \<le> int (i div 8) \<and> int (i div 8) \<le> max 0 (from_end len e)) = (8 * nat s \<le> i \<and> i < 8 * nat (t + 1))"
    if "i < 8 * len" for i
  proof -
    have "i div 8 < len"
      using that by (simp add: div8_less)
    moreover have "s \<le> int (i div 8) \<longleftrightarrow> nat s \<le> i div 8" "int (i div 8) \<le> t \<longleftrightarrow> i div 8 < nat (t + 1)"
      using st by linarith+
    moreover have "nat s \<le> i div 8 \<longleftrightarrow> 8 * nat s \<le> i"
      using div8_less [of i "nat s"] by linarith
    ultimately show ?thesis
      using clip [of "i div 8"] by (simp add: div8_less)
  qed
  then have "range_bits len start e = filter (\<lambda>i. 8 * nat s \<le> i \<and> i < 8 * nat (t + 1)) [0..<8 * len]"
    unfolding range_bits_def by (intro filter_cong) auto
  moreover have "min (8 * nat (t + 1)) (8 * len) = 8 * nat (t + 1)"
    using st by linarith
  ultimately show ?thesis
    by (simp only: filter_upt)
qed

lemma getObjectReadOnlyString_correct:
  assumes "str_obj ob"
  shows "\<exists>p. getObjectReadOnlyString junk ob = Some (p, length (obj_str ob)) \<and> length (obj_str ob) \<le> length p \<and>
    take (length (obj_str ob)) p = obj_str ob"
proof -
  have ty: "otype ob = OBJ_STRING"
    using assms by (simp add: str_obj_def)
  from assms show ?thesis
  proof (cases rule: str_obj_cases)
    case (Sds s)
    then show ?thesis
      using ty sds_str_len [OF Sds(4)] by (auto simp: getObjectReadOnlyString_def sdslen_def sds_str_def sds_ok_def sds_wf_def)
  next
    case (Long v)
    have "length (dec_string v) < LONG_STR_SIZE"
      using length_dec_string_le [OF Long(4)] by (simp add: LONG_STR_SIZE_def)
    then show ?thesis
      using ty Long ll2string_eq [OF Long(4), of LONG_STR_SIZE "fresh_block junk LONG_STR_SIZE"]
      by (simp add: getObjectReadOnlyString_def)
  qed
qed

lemma bit_at_drop: "bit_at (drop n m) i = bit_at m (8 * n + i)" if "8 * n + i < 8 * length m"
proof -
  have "(8 * n + i) div 8 = n + i div 8" "(8 * n + i) mod 8 = i mod 8"
    by simp_all
  then show ?thesis
    using that by (simp add: bit_at_def)
qed

lemma bit_at_take: "i < 8 * n \<Longrightarrow> bit_at (take n m) i = bit_at m i"
  by (simp add: bit_at_def div8_less)

lemma eight_upt: "[0..<8] = [0, 1, 2, 3, 4, 5, 6, 7 :: nat]"
  by code_simp

lemma bit_count_bits: "bit_count bs = length (filter (bit_at bs) [0..<8 * length bs])"
proof (induction bs rule: rev_induct)
  case (snoc b bs)
  have "8 * length (bs @ [b]) = 8 * length bs + 8"
    by simp
  then have "[0..<8 * length (bs @ [b])] = [0..<8 * length bs] @ map (\<lambda>i. i + 8 * length bs) [0..<8]"
    unfolding map_add_upt add.commute [of 8] by (simp only: upt_add_eq_append [OF le0])
  moreover have "filter (bit_at (bs @ [b])) [0..<8 * length bs] = filter (bit_at bs) [0..<8 * length bs]"
    by (intro filter_cong) (auto simp: bit_at_def nth_append div8_less)
  moreover have "length (filter (bit_at (bs @ [b])) (map (\<lambda>i. i + 8 * length bs) [0..<8])) = byte_count b"
  proof -
    have "bit_at (bs @ [b]) (i + 8 * length bs) = bit b (7 - i)" if "i < 8" for i
      using that by (simp add: bit_at_def nth_append)
    then have "length (filter (bit_at (bs @ [b])) (map (\<lambda>i. i + 8 * length bs) [0..<8])) = length (filter (\<lambda>i. bit b (7 - i)) [0..<8])"
      unfolding filter_map length_map comp_def by (intro arg_cong [where f = length] filter_cong) auto
    also have "\<dots> = byte_count b"
      by (simp add: byte_count_def eight_upt)
    finally show ?thesis .
  qed
  ultimately show ?case
    using snoc by simp
qed simp

lemma range_bit_count:
  assumes "s \<le> t" "t \<le> length bs"
  shows "bit_count (take (t - s) (drop s bs)) = length (filter (bit_at bs) [8 * s..<8 * t])"
proof -
  have len: "length (take (t - s) (drop s bs)) = t - s"
    using assms by simp
  have "bit_at (take (t - s) (drop s bs)) i = bit_at bs (i + 8 * s)" if "i < 8 * (t - s)" for i
    using that assms bit_at_take [OF that] bit_at_drop [of s i bs] by (simp add: add.commute)
  then have "filter (bit_at (take (t - s) (drop s bs))) [0..<8 * (t - s)] = filter (\<lambda>i. bit_at bs (i + 8 * s)) [0..<8 * (t - s)]"
    by (intro filter_cong) auto
  moreover have "[8 * s..<8 * t] = map (\<lambda>i. i + 8 * s) [0..<8 * (t - s)]"
    using assms(1) unfolding map_add_upt by (metis add.commute add_mult_distrib2 le_add_diff_inverse)
  ultimately show ?thesis
    unfolding bit_count_bits len by (simp add: filter_map comp_def)
qed

lemma found_SomeD:
  assumes "key_obj (Some ob)"
  shows "str_obj ob" "\<not> checkType ob OBJ_STRING" "length (obj_str ob) < 2 ^ 32"
  using assms found_str_length [OF assms] by (auto simp: key_obj_def checkType_def str_obj_def found_str_def)

lemma count_range:
  assumes "length str < 2 ^ 32" "length str \<le> length p" "take (length str) p = str" "clip_range start e (int (length str)) = (s, t)"
  shows "(if s > t then Some (Reply_int 0)
          else if s \<le> int (length p) then
            do { n \<leftarrow> redisPopcount (addr + nat s) (drop (nat s) p) (nat (t - s + 1)); Some (Reply_int (int n)) }
          else None) = Some (Reply_int (int (length (filter (bit_at str) (range_bits (length str) start e)))))"
proof (cases "s > t")
  case True
  then have "8 * nat (t + 1) \<le> 8 * nat s"
    by simp
  then show ?thesis
    using True by (simp add: range_bits_clip [OF assms(4)])
next
  case False
  note st = clip_range_in [OF assms(4)]
  have n: "nat (t - s + 1) = nat (t + 1) - nat s" "nat s \<le> nat (t + 1)" "nat (t + 1) \<le> length str" "s \<le> int (length p)"
    using st False assms(2) by linarith+
  have "take (nat (t + 1) - nat s) (drop (nat s) p) = take (nat (t + 1) - nat s) (drop (nat s) str)"
    using n(3) assms(3) by (metis drop_take min.absorb1 take_take)
  moreover have "redisPopcount (addr + nat s) (drop (nat s) p) (nat (t + 1) - nat s) =
      Some (bit_count (take (nat (t + 1) - nat s) (drop (nat s) p)))"
    by (rule redisPopcount_count) (use n(3) assms(1,2) in auto)
  ultimately show ?thesis
    using False n range_bit_count [OF n(2,3)] by (simp add: range_bits_clip [OF assms(4)])
qed

lemma clip_whole: "clip_range 0 (- 1) (int len) = (0, int len - 1)"
  by (simp add: clip_range_def Let_def)

definition set_bits_in :: "bytes \<Rightarrow> int \<Rightarrow> int \<Rightarrow> nat" where
  "set_bits_in str start e = length (filter (bit_at str) (range_bits (length str) start e))"

lemma bitcount_all:
  assumes found: "key_obj found"
  shows "bitcountCommand junk addr found [] = Some (Reply_int (int (set_bits_in (found_str found) 0 (- 1))))"
proof (cases found)
  case None
  then show ?thesis
    by (simp add: bitcountCommand_def found_str_def range_bits_def set_bits_in_def)
next
  case (Some ob)
  note ob = found_SomeD [OF found [unfolded Some]]
  obtain p where p: "getObjectReadOnlyString junk ob = Some (p, length (obj_str ob))" "length (obj_str ob) \<le> length p"
    "take (length (obj_str ob)) p = obj_str ob"
    using getObjectReadOnlyString_correct [OF ob(1)] by blast
  show ?thesis
    using count_range [OF ob(3) p(2,3) clip_whole, of addr] Some ob(2) p(1)
    by (simp add: bitcountCommand_def found_str_def set_bits_in_def)
qed

lemma bitcount_range:
  assumes found: "key_obj found" and args: "arg_obj a" "arg_obj b"
    and idx: "string2ll (obj_str a) = Some start" "string2ll (obj_str b) = Some e"
  shows "bitcountCommand junk addr found [a, b] =
    Some (Reply_int (if start < 0 \<and> e < start then 0 else int (set_bits_in (found_str found) start e)))"
proof (cases found)
  case None
  then show ?thesis
    by (simp add: bitcountCommand_def found_str_def range_bits_def set_bits_in_def)
next
  case (Some ob)
  note ob = found_SomeD [OF found [unfolded Some]]
  obtain p where p: "getObjectReadOnlyString junk ob = Some (p, length (obj_str ob))" "length (obj_str ob) \<le> length p"
    "take (length (obj_str ob)) p = obj_str ob"
    using getObjectReadOnlyString_correct [OF ob(1)] by blast
  obtain s t where st: "clip_range start e (int (length (obj_str ob))) = (s, t)"
    by (cases "clip_range start e (int (length (obj_str ob)))")
  show ?thesis
    using count_range [OF ob(3) p(2,3) st, of addr] Some ob(2) p(1) getLong_arg [OF args(1) idx(1)] getLong_arg [OF args(2) idx(2)] st
    by (auto simp: bitcountCommand_def found_str_def set_bits_in_def)
qed

text \<open>The answer of BITPOS: \<open>open_end\<close> says that the bits after the string count as clear bits.\<close>

definition first_in :: "bytes \<Rightarrow> bool \<Rightarrow> nat list \<Rightarrow> bool \<Rightarrow> int" where
  "first_in str v bits open_end =
     (case find (\<lambda>i. bit_at str i = v) bits of
        Some i \<Rightarrow> int i
      | None \<Rightarrow> if bits \<noteq> [] \<and> \<not> v \<and> open_end then int (last bits) + 1 else - 1)"

lemma find_map: "find P (map f xs) = map_option f (find (\<lambda>x. P (f x)) xs)"
  by (induction xs) auto

lemma search_range:
  assumes "length str \<le> length p" "take (length str) p = str" "clip_range start e (int (length str)) = (s, t)"
  shows "(if s > t then Some (Reply_int (- 1))
          else if s \<le> int (length p) then
            do { let bytes = t - s + 1;
                 pos \<leftarrow> redisBitpos (addr + nat s) (drop (nat s) p) (nat bytes) v;
                 if end_given \<and> \<not> v \<and> pos = bytes * 8 then Some (Reply_int (- 1))
                 else Some (Reply_int (if pos \<noteq> - 1 then pos + s * 8 else pos)) }
          else None) = Some (Reply_int (first_in str v (range_bits (length str) start e) (\<not> end_given)))"
proof (cases "s > t")
  case True
  then have "8 * nat (t + 1) \<le> 8 * nat s"
    by simp
  then show ?thesis
    using True by (simp add: range_bits_clip [OF assms(3)] first_in_def)
next
  case False
  note st = clip_range_in [OF assms(3)]
  define n where "n = nat (t - s + 1)"
  have n: "n = nat (t + 1) - nat s" "nat s \<le> nat (t + 1)" "nat s + n \<le> length str" "s \<le> int (length p)" "0 < n" "int n = t - s + 1"
    using st False assms(1) unfolding n_def by linarith+
  have up: "range_bits (length str) start e = map (\<lambda>i. i + 8 * nat s) [0..<8 * n]"
    unfolding range_bits_clip [OF assms(3)] map_add_upt using n(1,2) by (metis add.commute add_mult_distrib2 le_add_diff_inverse)
  have bits: "bit_at (drop (nat s) p) i = bit_at str (i + 8 * nat s)" if "i < 8 * n" for i
  proof -
    have "i + 8 * nat s < 8 * length str"
      using that n(3) by linarith
    then show ?thesis
      using assms(1,2) bit_at_drop [of "nat s" i p] bit_at_take [of "i + 8 * nat s" "length str" p] by (simp add: add.commute)
  qed
  have "find (\<lambda>i. bit_at (drop (nat s) p) i = v) [0..<8 * n] = find (\<lambda>i. bit_at str (i + 8 * nat s) = v) [0..<8 * n]"
    by (rule find_cong) (use bits in auto)
  moreover have "redisBitpos (addr + nat s) (drop (nat s) p) n v =
    Some (case first_bit (drop (nat s) p) v (8 * n) of Some i \<Rightarrow> int i | None \<Rightarrow> if v then - 1 else int (8 * n))"
    by (rule redisBitpos_first) (use n(3) assms(1) in simp)
  ultimately have pos: "redisBitpos (addr + nat s) (drop (nat s) p) n v =
    Some (case find (\<lambda>i. bit_at str (i + 8 * nat s) = v) [0..<8 * n] of Some i \<Rightarrow> int i | None \<Rightarrow> if v then - 1 else int (8 * n))"
    by (simp add: first_bit_def)
  have in_range: "i < 8 * n" if "find (\<lambda>i. bit_at str (i + 8 * nat s) = v) [0..<8 * n] = Some i" for i
    using that by (auto simp: find_Some_iff)
  have last: "last (map (\<lambda>i. i + 8 * nat s) [0..<8 * n]) = 8 * n - 1 + 8 * nat s"
    using n(5) by (simp add: last_map)
  have eq: "int (8 * n) = (t - s + 1) * 8" "int (8 * n - 1 + 8 * nat s) + 1 = (t - s + 1) * 8 + s * 8"
    using n(5,6) st by (simp_all add: of_nat_diff)
  show ?thesis
    using False n(4,5,6) in_range
    unfolding Let_def n_def [symmetric] pos up first_in_def find_map last bind.bind_lunit
    by (auto simp: eq st split: option.split)
qed

text \<open>The range of BITPOS from the indexes that are given: the start, or the start and the end.\<close>

lemma clip_tail: "clip_range start (- 1) (int len) = clip_range start (int len - 1) (int len)"
  by (auto simp: clip_range_def Let_def)

fun idx_start :: "int list \<Rightarrow> int" where
  "idx_start [] = 0"
| "idx_start (start # _) = start"

fun idx_end :: "int list \<Rightarrow> int" where
  "idx_end [start, e] = e"
| "idx_end _ = - 1"

lemma bitpos_result:
  assumes found: "key_obj found" and bt: "arg_obj arg2" "string2ll (obj_str arg2) = Some (of_bool v)"
    and args: "\<forall>a \<in> set args. arg_obj a" "map (\<lambda>a. string2ll (obj_str a)) args = map Some idx" "length idx \<le> 2"
  shows "bitposCommand junk addr found arg2 args =
    Some (Reply_int (case found of
        None \<Rightarrow> if v then - 1 else 0
      | Some _ \<Rightarrow> first_in (found_str found) v
          (range_bits (length (found_str found)) (idx_start idx) (idx_end idx)) (length idx < 2)))"
proof (cases found)
  case None
  then show ?thesis
    using getLong_arg(1) [OF bt] by (simp add: bitposCommand_def)
next
  case (Some ob)
  note ob = found_SomeD [OF found [unfolded Some]]
  obtain p where p: "getObjectReadOnlyString junk ob = Some (p, length (obj_str ob))" "length (obj_str ob) \<le> length p"
    "take (length (obj_str ob)) p = obj_str ob"
    using getObjectReadOnlyString_correct [OF ob(1)] by blast
  obtain s t where st: "clip_range (idx_start idx) (idx_end idx) (int (length (obj_str ob))) = (s, t)"
    by (cases "clip_range (idx_start idx) (idx_end idx) (int (length (obj_str ob)))")
  have v: "(of_bool v = (1 :: int)) = v" "(of_bool v = (0 :: int)) = (\<not> v)"
    by simp_all
  consider "args = []" "idx = []" | a x where "args = [a]" "idx = [x]" | a b x y where "args = [a, b]" "idx = [x, y]"
    using args(2,3) by (cases args; cases "tl args") auto
  then show ?thesis
  proof cases
    case 1
    then have "clip_range 0 (- 1) (int (length (obj_str ob))) = (0, int (length (obj_str ob)) - 1)"
      by (simp add: clip_whole)
    note run = search_range [OF p(2,3) this, of addr v False]
    show ?thesis
      using run 1 p(1) ob(2) Some getLong_arg(1) [OF bt]
      by (cases "obj_str ob = []") (simp_all add: bitposCommand_def found_str_def v Let_def)
  next
    case 2
    then have "arg_obj a" "string2ll (obj_str a) = Some x"
      using args by auto
    note arg = getLong_arg(1) [OF this]
    have "clip_range x (- 1) (int (length (obj_str ob))) = (s, t)"
      using st 2 by simp
    note run = search_range [OF p(2,3) this, of addr v False, unfolded Let_def simp_thms if_False]
    show ?thesis
      using run 2 p(1) ob(2) Some getLong_arg(1) [OF bt] arg st
      by (auto simp: bitposCommand_def found_str_def v clip_tail split: if_splits)
  next
    case 3
    then have "arg_obj a" "string2ll (obj_str a) = Some x" "arg_obj b" "string2ll (obj_str b) = Some y"
      using args by auto
    note arg = getLong_arg(1) [OF this(1,2)] getLong_arg(1) [OF this(3,4)]
    have "clip_range x y (int (length (obj_str ob))) = (s, t)"
      using st 3 by simp
    note run = search_range [OF p(2,3) this, of addr v True, unfolded Let_def simp_thms]
    show ?thesis
      using run 3 p(1) ob(2) Some getLong_arg(1) [OF bt] arg st
      by (auto simp: bitposCommand_def found_str_def v split: if_splits)
  qed
qed

section \<open>Properties\<close>

text \<open>An object that holds a short text, for the examples.\<close>

definition text_obj :: "bytes \<Rightarrow> unit robj" where
  "text_obj bs = createObject OBJ_STRING (Ptr_sds \<lparr>sh_type = 1, sh_len = length bs, sh_alloc = length bs, sh_buf = bs @ [0]\<rparr>)"

lemma text_obj_ok:
  assumes "length bs < 256"
  shows "arg_obj (text_obj bs)" "obj_str (text_obj bs) = bs" "key_obj (Some (text_obj bs))" "found_str (Some (text_obj bs)) = bs"
  using assms by (simp_all add: text_obj_def createObject_def arg_obj_def key_obj_def found_str_def str_obj_def obj_str_def
      sdsEncodedObject_def sds_ok_def sds_wf_def sds_str_def sds_bits_def OBJ_STATIC_REFCOUNT_def OBJ_SHARED_REFCOUNT_def)

lemma text_numbers:
  "string2ll [48] = Some 0" "string2ll [49] = Some 1" "string2ll [45, 49] = Some (- 1)" "string2ll [49, 48] = Some 10"
proof -
  have d: "dec_string 0 = [48]" "dec_string 1 = [49]" "dec_string (- 1) = [45, 49]" "dec_string 10 = [49, 48]"
    by (simp_all add: dec_string_def dec_digits.simps)
  show "string2ll [48] = Some 0" "string2ll [49] = Some 1" "string2ll [45, 49] = Some (- 1)" "string2ll [49, 48] = Some 10"
    using string2ll_complete [of 0] string2ll_complete [of 1] string2ll_complete [of "- 1"] string2ll_complete [of 10]
    by (simp_all add: d int64_range_def)
qed

text \<open>C16: SETBIT answers the old bit of the zero-padded string and stores the new one: the string afterwards reaches the
  offset, GETBIT at that offset answers the new bit, and at every other offset what it answered before.\<close>

theorem setbit_getbit:
  assumes "key_obj found" "arg_obj arg2" "arg_obj arg3" "arg_obj arg4"
    and "string2ll (obj_str arg2) = Some (int off)" "off < bit_limit" "string2ll (obj_str arg3) = Some v" "v \<in> {0, 1}"
    and "string2ll (obj_str arg4) = Some (int i)" "i < bit_limit"
  shows "\<exists>ob. setbitCommand junk found arg2 arg3 = Some (Reply_int (of_bool (padded_bit (found_str found) off)), Some ob, 1) \<and>
    str_obj ob \<and> length (obj_str ob) = max (length (found_str found)) (off div 8 + 1) \<and>
    getbitCommand junk' (Some ob) arg4 = Some (Reply_int (of_bool (if i = off then v = 1 else padded_bit (found_str found) i)))"
proof -
  obtain ob where ob: "setbitCommand junk found arg2 arg3 = Some (Reply_int (of_bool (padded_bit (found_str found) off)), Some ob, 1)"
    "str_obj ob" "refcount ob = 1" "length (obj_str ob) = max (length (found_str found)) (off div 8 + 1)"
    "\<forall>i. padded_bit (obj_str ob) i = (if i = off then v = 1 else padded_bit (found_str found) i)"
    using setbit_result [OF assms(1-3,5-8), of junk] by blast
  have "key_obj (Some ob)"
    using ob(2,3) by (simp add: key_obj_def OBJ_STATIC_REFCOUNT_def OBJ_SHARED_REFCOUNT_def)
  then show ?thesis
    using ob getbit_result [OF _ assms(4,9,10), of "Some ob" junk'] by (auto simp: found_str_def)
qed

theorem setbit_getbit_witness:
  "\<exists>ob. setbitCommand (\<lambda>_. 0) (None :: unit robj option) (text_obj [49, 48]) (text_obj [49]) = Some (Reply_int 0, Some ob, 1) \<and>
    length (obj_str ob) = 2 \<and> getbitCommand (\<lambda>_. 0) (Some ob) (text_obj [49, 48]) = Some (Reply_int 1)"
proof -
  have "key_obj (None :: unit robj option)" "found_str (None :: unit robj option) = []" "\<not> padded_bit [] 10"
    by (simp_all add: key_obj_def found_str_def padded_bit_def)
  then show ?thesis
    using setbit_getbit [of "None :: unit robj option" "text_obj [49, 48]" "text_obj [49]" "text_obj [49, 48]" 10 1 10 "\<lambda>_. 0" "\<lambda>_. 0"]
    by (auto simp: text_obj_ok text_numbers bit_limit_def)
qed

text \<open>C8: BITOP computes every byte of the result as the operation on the bytes of all the strings, with zeros after the
  end of the shorter ones, also where its fast path works on four words at a time; the result is as long as the longest
  string, and the target is deleted when all are empty.\<close>

theorem bitopCommand_correct:
  assumes "arg_obj arg1" "bitop_name (obj_str arg1) = Some bop" "keys \<noteq> []" "\<forall>k \<in> set keys. key_obj k"
    and "bop = BITOP_NOT \<longrightarrow> length keys = 1" "mx = Max (set (map (\<lambda>k. length (found_str k)) keys))"
  shows "if mx = 0 then bitopCommand junk arg1 target keys = Some (Reply_int 0, None, if target = None then 0 else 1)
    else \<exists>ob. bitopCommand junk arg1 target keys = Some (Reply_int (int mx), Some ob, 1) \<and> str_obj ob \<and>
      obj_str ob = map (bitop_byte bop (map found_str keys)) [0..<mx]"
  by (rule bitop_result [OF assms])

theorem bitopCommand_correct_witness:
  "\<exists>ob. bitopCommand (\<lambda>_. 0) (text_obj [65, 110, 100]) None [Some (text_obj [255, 15]), Some (text_obj [240])] =
    Some (Reply_int 2, Some ob, 1) \<and> str_obj ob \<and> obj_str ob = [240, 0]"
proof -
  have "bitop_name [65, 110, 100] = Some BITOP_AND"
    by code_simp
  moreover have "map (bitop_byte BITOP_AND [[255, 15], [240]]) [0..<2] = [240, 0]"
    by code_simp
  ultimately show ?thesis
    using bitopCommand_correct [of "text_obj [65, 110, 100]" BITOP_AND "[Some (text_obj [255, 15]), Some (text_obj [240])]" 2
        "\<lambda>_. 0" None]
    by (simp add: text_obj_ok)
qed

text \<open>C20: BITCOUNT with a range answers the number of set bits in the bytes of the range, where negative indexes count from
  the end and indexes outside of the string are clipped; a range with a negative start and an end before it is empty.\<close>

theorem bitcountCommand_correct:
  assumes "key_obj found" "arg_obj a" "arg_obj b" "string2ll (obj_str a) = Some start" "string2ll (obj_str b) = Some e"
  shows "bitcountCommand junk addr found [a, b] =
    Some (Reply_int (if start < 0 \<and> e < start then 0
      else int (length (filter (bit_at (found_str found)) (range_bits (length (found_str found)) start e)))))"
  using bitcount_range [OF assms] by (simp add: set_bits_in_def)

theorem bitcountCommand_correct_witness:
  "bitcountCommand (\<lambda>_. 0) 3 (Some (text_obj [255, 7, 1])) [text_obj [49], text_obj [45, 49]] = Some (Reply_int 4)"
proof -
  have "length (filter (bit_at [255, 7, 1]) (range_bits (length [255 :: byte, 7, 1]) 1 (- 1))) = 4"
    by code_simp
  then show ?thesis
    using bitcountCommand_correct [of "Some (text_obj [255, 7, 1])" "text_obj [49]" "text_obj [45, 49]" 1 "- 1" "\<lambda>_. 0" 3]
    by (simp add: text_obj_ok text_numbers)
qed

text \<open>C19: BITPOS answers the offset of the first bit with the value in the range of bytes. Without one it answers -1,
  except when it looks for a clear bit and no end is given: then the bits after a string that is not empty count, and
  the answer is the offset after the range. A missing key is a string of clear bits.\<close>

theorem bitposCommand_correct:
  assumes "key_obj found" "arg_obj arg2" "string2ll (obj_str arg2) = Some (of_bool v)"
    and "\<forall>a \<in> set args. arg_obj a" "map (\<lambda>a. string2ll (obj_str a)) args = map Some idx" "length idx \<le> 2"
  shows "bitposCommand junk addr found arg2 args =
    Some (Reply_int (case found of
        None \<Rightarrow> if v then - 1 else 0
      | Some _ \<Rightarrow> first_in (found_str found) v
          (range_bits (length (found_str found)) (idx_start idx) (idx_end idx)) (length idx < 2)))"
  by (rule bitpos_result [OF assms])

theorem bitposCommand_correct_witness:
  "bitposCommand (\<lambda>_. 0) 5 (Some (text_obj [255, 255])) (text_obj [48]) [] = Some (Reply_int 16) \<and>
   bitposCommand (\<lambda>_. 0) 5 (Some (text_obj [255, 16])) (text_obj [49]) [text_obj [49]] = Some (Reply_int 11)"
proof -
  have "first_in [255, 255] False (range_bits (length [255 :: byte, 255]) 0 (- 1)) True = 16"
    "first_in [255, 16] True (range_bits (length [255 :: byte, 16]) 1 (- 1)) True = 11"
    by code_simp+
  then show ?thesis
    using bitposCommand_correct [of "Some (text_obj [255, 255])" "text_obj [48]" False "[]" "[]" "\<lambda>_. 0" 5]
      bitposCommand_correct [of "Some (text_obj [255, 16])" "text_obj [49]" True "[text_obj [49]]" "[1]" "\<lambda>_. 0" 5]
    by (simp add: text_obj_ok text_numbers)
qed

end
