(* ===== verification/Bitfield_Command.thy ===== *)
theory Bitfield_Command
  imports Bit_Commands
begin

text \<open>
  BITFIELD and BITFIELD_RO, from \<open>redis-6.0.10/src/bitops.c\<close>: the parser of the subcommands, the operations GET, SET and
  INCRBY on the string, and the whole command. The lemmas show that the parser bounds every operation, that the string is
  grown far enough before the operations run, and what the operations compute.
\<close>

unbundle bit_operations_syntax

section \<open>BITFIELD\<close>

datatype bitfield_opcode = BITFIELDOP_GET | BITFIELDOP_SET | BITFIELDOP_INCRBY

record bitfieldOp =
  bf_offset :: nat
  bf_i64 :: int
  bf_opcode :: bitfield_opcode
  bf_owtype :: bf_overflow
  bf_bits :: nat
  bf_sign :: bool

text \<open>The name of a subcommand with enough arguments left, and its operands. \<open>Inl\<close> is the reply for an error.\<close>

definition bitfield_subcmd :: "bytes \<Rightarrow> nat \<Rightarrow> bitfield_opcode option" where
  "bitfield_subcmd subcmd remargs =
     (if strcaseeq subcmd ''get'' \<and> remargs \<ge> 2 then Some BITFIELDOP_GET
      else if strcaseeq subcmd ''set'' \<and> remargs \<ge> 3 then Some BITFIELDOP_SET
      else if strcaseeq subcmd ''incrby'' \<and> remargs \<ge> 3 then Some BITFIELDOP_INCRBY else None)"

definition bitfield_operands :: "bitfield_opcode \<Rightarrow> bf_overflow \<Rightarrow> 'x robj list \<Rightarrow> (reply + bitfieldOp) option" where
  "bitfield_operands opcode owtype rest =
     do { r \<leftarrow> getBitfieldTypeFromArgument (rest ! 0);
          case r of
            Inl e \<Rightarrow> Some (Inl (addReplyError e))
          | Inr (sign, bits) \<Rightarrow>
              do { r \<leftarrow> getBitOffsetFromArgument (rest ! 1) True bits;
                   case r of
                     Inl e \<Rightarrow> Some (Inl (addReplyError e))
                   | Inr bitoffset \<Rightarrow>
                       do { r \<leftarrow> (if opcode \<noteq> BITFIELDOP_GET then getLongLongFromObjectOrReply (Some (rest ! 2)) None
                                 else Some (Inr 0));
                            Some (case r of
                                    Inl e \<Rightarrow> Inl (addReplyError e)
                                  | Inr i64 \<Rightarrow> Inr \<lparr>bf_offset = bitoffset, bf_i64 = i64, bf_opcode = opcode, bf_owtype = owtype,
                                                   bf_bits = bits, bf_sign = sign\<rparr>) } } }"

text \<open>
  The loop over the arguments from the third on. It returns the operations, whether all of them read, and the highest offset that
  is written.
\<close>

fun bitfield_parse :: "'x robj list \<Rightarrow> bf_overflow \<Rightarrow> bitfieldOp list \<Rightarrow> bool \<Rightarrow> nat \<Rightarrow>
    (reply + bitfieldOp list \<times> bool \<times> nat) option" where
  "bitfield_parse [] owtype ops readonly highest = Some (Inr (ops, readonly, highest))"
| "bitfield_parse (sub # rest) owtype ops readonly highest =
     do { subcmd \<leftarrow> arg_bytes sub;
          case bitfield_subcmd subcmd (length rest) of
            None \<Rightarrow>
              if strcaseeq subcmd ''overflow'' \<and> length rest \<ge> 1 then
                do { name \<leftarrow> arg_bytes (hd rest);
                     if strcaseeq name ''wrap'' then bitfield_parse (drop 1 rest) BFOVERFLOW_WRAP ops readonly highest
                     else if strcaseeq name ''sat'' then bitfield_parse (drop 1 rest) BFOVERFLOW_SAT ops readonly highest
                     else if strcaseeq name ''fail'' then bitfield_parse (drop 1 rest) BFOVERFLOW_FAIL ops readonly highest
                     else Some (Inl (addReplyError ''Invalid OVERFLOW type specified'')) }
              else Some (Inl (Reply_error syntaxerr))
          | Some opcode \<Rightarrow>
              do { r \<leftarrow> bitfield_operands opcode owtype rest;
                   case r of
                     Inl e \<Rightarrow> Some (Inl e)
                   | Inr bop \<Rightarrow>
                       if opcode = BITFIELDOP_GET then bitfield_parse (drop 2 rest) owtype (ops @ [bop]) readonly highest
                       else bitfield_parse (drop 3 rest) owtype (ops @ [bop]) False
                              (max highest (bf_offset bop + bf_bits bop - 1)) } }"

text \<open>
  A SET or INCRBY on a buffer: the reply and the buffer. The conversions are those of the variables of type \<open>int64_t\<close> and
  \<open>uint64_t\<close>; an unsigned result of more than 63 bits would be sent as a negative number.
\<close>

definition bitfield_write_signed :: "bytes \<Rightarrow> bitfieldOp \<Rightarrow> (reply \<times> bytes) option" where
  "bitfield_write_signed p bop =
     do { oldval \<leftarrow> getSignedBitfield p (bf_offset bop) (bf_bits bop);
          let (newval, overflow, wrapped) =
            (if bf_opcode bop = BITFIELDOP_INCRBY then
               (let (overflow, wrapped) = checkSignedBitfieldOverflow oldval (bf_i64 bop) (bf_bits bop) (bf_owtype bop)
                in (s64 (oldval + bf_i64 bop), overflow, wrapped))
             else
               (let (overflow, wrapped) = checkSignedBitfieldOverflow (bf_i64 bop) 0 (bf_bits bop) (bf_owtype bop)
                in (bf_i64 bop, overflow, wrapped)));
          if overflow \<noteq> 0 \<and> bf_owtype bop = BFOVERFLOW_FAIL then Some (Reply_null, p)
          else do { newval \<leftarrow> (if overflow \<noteq> 0 then wrapped else Some newval);
                    p \<leftarrow> setSignedBitfield p (bf_offset bop) (bf_bits bop) newval;
                    Some (Reply_int (if bf_opcode bop = BITFIELDOP_INCRBY then newval else oldval), p) } }"

definition bitfield_write_unsigned :: "bytes \<Rightarrow> bitfieldOp \<Rightarrow> (reply \<times> bytes) option" where
  "bitfield_write_unsigned p bop =
     do { oldval \<leftarrow> getUnsignedBitfield p (bf_offset bop) (bf_bits bop);
          let (newval, overflow, wrapped) =
            (if bf_opcode bop = BITFIELDOP_INCRBY then
               (let (overflow, wrapped) = checkUnsignedBitfieldOverflow (unat oldval) (bf_i64 bop) (bf_bits bop) (bf_owtype bop)
                in (oldval + word_of_int (bf_i64 bop), overflow, wrapped))
             else
               (let newval = word_of_int (bf_i64 bop);
                    (overflow, wrapped) = checkUnsignedBitfieldOverflow (unat newval) 0 (bf_bits bop) (bf_owtype bop)
                in (newval, overflow, wrapped)));
          if overflow \<noteq> 0 \<and> bf_owtype bop = BFOVERFLOW_FAIL then Some (Reply_null, p)
          else do { newval \<leftarrow> (if overflow \<noteq> 0 then map_option of_nat wrapped else Some newval);
                    p \<leftarrow> setUnsignedBitfield p (bf_offset bop) (bf_bits bop) newval;
                    Some (Reply_int (sint (if bf_opcode bop = BITFIELDOP_INCRBY then newval else oldval)), p) } }"

text \<open>The loop that copies at most 9 bytes of the string to a buffer of zeros; \<open>n\<close> is the number of steps left.\<close>

primrec bitfield_copy :: "nat \<Rightarrow> nat \<Rightarrow> bytes \<Rightarrow> (bytes \<times> nat) option \<Rightarrow> nat \<Rightarrow> bytes option" where
  "bitfield_copy 0 i buf src byte = Some buf"
| "bitfield_copy (Suc n) i buf src byte =
     (case src of
        None \<Rightarrow> Some buf
      | Some (p, len) \<Rightarrow>
          if i + byte \<ge> len then Some buf
          else do { b \<leftarrow> mem_get p (i + byte); buf \<leftarrow> mem_set buf i b; bitfield_copy n (i + 1) buf src byte })"

definition bitfield_get :: "(bytes \<times> nat) option \<Rightarrow> bitfieldOp \<Rightarrow> reply option" where
  "bitfield_get src bop =
     do { let byte = bf_offset bop div 8;
          buf \<leftarrow> bitfield_copy 9 0 (replicate 9 0) src byte;
          if bf_sign bop then
            do { v \<leftarrow> getSignedBitfield buf (bf_offset bop - byte * 8) (bf_bits bop); Some (Reply_int v) }
          else
            do { v \<leftarrow> getUnsignedBitfield buf (bf_offset bop - byte * 8) (bf_bits bop); Some (Reply_int (sint v)) } }"

text \<open>The loop over the operations: the replies, the object and the number of changes.\<close>

fun bitfield_exec :: "(nat \<Rightarrow> byte) \<Rightarrow> 'x robj option \<Rightarrow> bitfieldOp list \<Rightarrow> (reply list \<times> 'x robj option \<times> nat) option" where
  "bitfield_exec junk ob [] = Some ([], ob, 0)"
| "bitfield_exec junk ob (bop # ops) =
     (if bf_opcode bop = BITFIELDOP_GET then
        do { src \<leftarrow> (case ob of None \<Rightarrow> Some None | Some o1 \<Rightarrow> map_option Some (getObjectReadOnlyString junk o1));
             r \<leftarrow> bitfield_get src bop;
             (rs, ob, changes) \<leftarrow> bitfield_exec junk ob ops;
             Some (r # rs, ob, changes) }
      else
        do { o1 \<leftarrow> ob;
             s \<leftarrow> obj_sds o1;
             (r, buf) \<leftarrow> (if bf_sign bop then bitfield_write_signed (sh_buf s) bop else bitfield_write_unsigned (sh_buf s) bop);
             (rs, ob, changes) \<leftarrow> bitfield_exec junk (Some (o1\<lparr>optr := Ptr_sds (s\<lparr>sh_buf := buf\<rparr>)\<rparr>)) ops;
             Some (r # rs, ob, changes + 1) })"

definition bitfieldGeneric :: "(nat \<Rightarrow> byte) \<Rightarrow> 'x robj option \<Rightarrow> 'x robj list \<Rightarrow> bool \<Rightarrow> (reply list \<times> 'x robj option \<times> nat) option" where
  "bitfieldGeneric junk found args flag_readonly =
     do { r \<leftarrow> bitfield_parse args BFOVERFLOW_WRAP [] True 0;
          case r of
            Inl e \<Rightarrow> Some ([e], found, 0)
          | Inr (ops, readonly, highest) \<Rightarrow>
              do { r \<leftarrow> (if readonly then
                           Some (case found of
                                   Some ob \<Rightarrow> if checkType ob OBJ_STRING then Inl (Reply_error wrongtypeerr) else Inr found
                                 | None \<Rightarrow> Inr None)
                         else if flag_readonly then
                           Some (Inl (addReplyError ''BITFIELD_RO only supports the GET subcommand''))
                         else do { r \<leftarrow> lookupStringForBitCommand junk found highest;
                                   Some (case r of Inl e \<Rightarrow> Inl (Reply_error e) | Inr ob \<Rightarrow> Inr (Some ob)) });
                   case r of
                     Inl e \<Rightarrow> Some ([e], found, 0)
                   | Inr ob \<Rightarrow>
                       do { (rs, ob, changes) \<leftarrow> bitfield_exec junk ob ops;
                            Some (Reply_array (length ops) # rs, ob, changes) } } }"

definition bitfieldCommand :: "(nat \<Rightarrow> byte) \<Rightarrow> 'x robj option \<Rightarrow> 'x robj list \<Rightarrow> (reply list \<times> 'x robj option \<times> nat) option" where
  "bitfieldCommand junk found args = bitfieldGeneric junk found args False"

definition bitfieldroCommand :: "(nat \<Rightarrow> byte) \<Rightarrow> 'x robj option \<Rightarrow> 'x robj list \<Rightarrow> (reply list \<times> 'x robj option \<times> nat) option" where
  "bitfieldroCommand junk found args = bitfieldGeneric junk found args True"

section \<open>Correctness of BITFIELD\<close>

text \<open>The integer that a field holds, and its range.\<close>

definition field_at :: "bytes \<Rightarrow> bitfieldOp \<Rightarrow> int option" where
  "field_at p bop =
     (if bf_sign bop then getSignedBitfield p (bf_offset bop) (bf_bits bop)
      else map_option uint (getUnsignedBitfield p (bf_offset bop) (bf_bits bop)))"

definition field_min :: "bitfieldOp \<Rightarrow> int" where
  "field_min bop = (if bf_sign bop then - (2 ^ (bf_bits bop - 1)) else 0)"

definition field_max :: "bitfieldOp \<Rightarrow> int" where
  "field_max bop = (if bf_sign bop then 2 ^ (bf_bits bop - 1) - 1 else 2 ^ bf_bits bop - 1)"

definition field_ok :: "bitfieldOp \<Rightarrow> bool" where
  "field_ok bop \<longleftrightarrow> 0 < bf_bits bop \<and> bf_bits bop \<le> (if bf_sign bop then 64 else 63)"

text \<open>The result of an operation on a field: in range, wrapped around, at the limit, or a failure.\<close>

definition bounded :: "int \<Rightarrow> int \<Rightarrow> bf_overflow \<Rightarrow> int \<Rightarrow> int option" where
  "bounded lo hi ow x =
     (if lo \<le> x \<and> x \<le> hi then Some x
      else case ow of
        BFOVERFLOW_WRAP \<Rightarrow> Some (lo + (x - lo) mod (hi - lo + 1))
      | BFOVERFLOW_SAT \<Rightarrow> Some (if x > hi then hi else lo)
      | BFOVERFLOW_FAIL \<Rightarrow> None)"

definition bitfield_write :: "bytes \<Rightarrow> bitfieldOp \<Rightarrow> (reply \<times> bytes) option" where
  "bitfield_write p bop = (if bf_sign bop then bitfield_write_signed p bop else bitfield_write_unsigned p bop)"

lemma signed_wrap_mod: "0 < n \<Longrightarrow> signed_take_bit (n - 1) x = - (2 ^ (n - 1)) + (x + 2 ^ (n - 1)) mod 2 ^ n" for x :: int
  by (simp add: signed_take_bit_eq_take_bit_shift take_bit_eq_mod)

lemma signed_range: "0 < n \<Longrightarrow> - (2 ^ (n - 1)) \<le> signed_take_bit (n - 1) x \<and> signed_take_bit (n - 1) x < 2 ^ (n - 1)" for x :: int
  by (simp add: signed_take_bit_int_greater_eq_minus_exp signed_take_bit_int_less_exp)

lemma getSigned_range:
  assumes "offset + bits \<le> 8 * length p" "offset + bits < 2 ^ 64" "0 < bits" "bits \<le> 64"
  shows "\<exists>old. getSignedBitfield p offset bits = Some old \<and> - (2 ^ (bits - 1)) \<le> old \<and> old < 2 ^ (bits - 1)"
proof -
  obtain u where u: "getUnsignedBitfield p offset bits = Some u" "\<And>k. k < 64 \<Longrightarrow> bit u k = (k < bits \<and> bit_at p (offset + bits - 1 - k))"
    using getUnsignedBitfield_bits [OF assms(1,2)] by blast
  have "k < bits" if "bit u k" for k
    using that u(2) [of k] bit_imp_le_length [OF that] by simp
  note ext = sign_extend [OF assms(3,4) this]
  show ?thesis
    using u(1) ext signed_range [OF assms(3), of "uint u"] by (simp add: getSignedBitfield_def)
qed

lemma getUnsigned_range:
  assumes "offset + bits \<le> 8 * length p" "offset + bits < 2 ^ 64" "bits < 64"
  shows "\<exists>old. getUnsignedBitfield p offset bits = Some old \<and> uint old < 2 ^ bits"
proof -
  obtain u where u: "getUnsignedBitfield p offset bits = Some u" "\<And>k. k < 64 \<Longrightarrow> bit u k = (k < bits \<and> bit_at p (offset + bits - 1 - k))"
    using getUnsignedBitfield_bits [OF assms(1,2)] by blast
  have "u = take_bit bits u"
    by (rule bit_word_eqI) (use u(2) in \<open>auto simp: bit_take_bit_iff\<close>)
  then have "uint u = take_bit bits (uint u)"
    using assms(3) by (metis unsigned_take_bit_eq)
  then show ?thesis
    using u(1) take_bit_int_less_exp [of bits "uint u"] by simp
qed

lemma incrby_signed:
  assumes bop: "bf_sign bop" "field_ok bop" "bf_opcode bop = BITFIELDOP_INCRBY" "int64_range (bf_i64 bop)"
    and room: "bf_offset bop + bf_bits bop \<le> 8 * length p" "bf_offset bop + bf_bits bop < 2 ^ 64"
  shows "\<exists>old. field_at p bop = Some old \<and>
    (case bounded (field_min bop) (field_max bop) (bf_owtype bop) (old + bf_i64 bop) of
       None \<Rightarrow> bitfield_write p bop = Some (Reply_null, p)
     | Some new \<Rightarrow> \<exists>p'. bitfield_write p bop = Some (Reply_int new, p') \<and> length p' = length p \<and> field_at p' bop = Some new \<and>
         same_outside p p' (bf_offset bop) (bf_bits bop))"
proof -
  let ?o = "bf_offset bop" and ?n = "bf_bits bop" and ?i = "bf_i64 bop" and ?ow = "bf_owtype bop"
  have n: "0 < ?n" "?n \<le> 64"
    using bop(1,2) by (auto simp: field_ok_def)
  obtain old where old: "getSignedBitfield p ?o ?n = Some old" "- (2 ^ (?n - 1)) \<le> old" "old < 2 ^ (?n - 1)"
    using getSigned_range [OF room n] by blast
  note chk = checkSigned_result [OF n old(2,3) bop(4), of ?ow]
  have set: "\<exists>p'. setSignedBitfield p ?o ?n new = Some p' \<and> length p' = length p \<and> getSignedBitfield p' ?o ?n = Some new \<and> same_outside p p' ?o ?n"
    if "- (2 ^ (?n - 1)) \<le> new" "new \<le> 2 ^ (?n - 1) - 1" for new
  proof -
    have "signed_take_bit (?n - 1) new = new"
      using that by (intro signed_take_bit_int_eq_self) auto
    moreover obtain p' where "setUnsignedBitfield p ?o ?n (word_of_int new) = Some p'" "length p' = length p" "same_outside p p' ?o ?n"
      using setUnsignedBitfield_outside [OF room] by blast
    ultimately show ?thesis
      using set_get_signed [OF room n, of new] by (auto simp: setSignedBitfield_def)
  qed
  have two: "(2 :: int) ^ ?n = 2 * 2 ^ (?n - 1)" "(1 :: int) \<le> 2 ^ (?n - 1)" "(2 :: int) ^ (?n - 1) \<le> 2 ^ 63"
    using n power_increasing [of "?n - 1" 63 "2 :: int"] by (simp_all flip: power_Suc)
  have wrap: "signed_take_bit (?n - 1) (old + ?i) =
      field_min bop + (old + ?i - field_min bop) mod (field_max bop - field_min bop + 1)"
    using signed_wrap_mod [OF n(1), of "old + ?i"] bop(1) two(1) by (simp add: field_min_def field_max_def)
  note wr = signed_range [OF n(1), of "old + ?i"]
  have s: "s64 (old + ?i) = old + ?i" if "- (2 ^ (?n - 1)) \<le> old + ?i" "old + ?i \<le> 2 ^ (?n - 1) - 1"
    using that two(3) by (intro s64_range) linarith+
  note defs = bitfield_write_def bitfield_write_signed_def bounded_def field_at_def Let_def
  have min_max: "field_min bop = - (2 ^ (?n - 1))" "field_max bop = 2 ^ (?n - 1) - 1"
    using bop(1) by (simp_all add: field_min_def field_max_def)
  show ?thesis
  proof (cases "- (2 ^ (?n - 1)) \<le> old + ?i \<and> old + ?i \<le> 2 ^ (?n - 1) - 1")
    case True
    then show ?thesis
      using old(1) bop(1,3) chk s set [of "old + ?i"] unfolding min_max by (auto simp: defs)
  next
    case False
    then show ?thesis
      using old(1) bop(1,3) chk wrap wr set [of "signed_take_bit (?n - 1) (old + ?i)"] set [of "2 ^ (?n - 1) - 1"]
        set [of "- (2 ^ (?n - 1))"] two unfolding min_max
      by (cases ?ow) (auto simp: defs overflow_sign_def)
  qed
qed

lemma incrby_unsigned:
  assumes bop: "\<not> bf_sign bop" "field_ok bop" "bf_opcode bop = BITFIELDOP_INCRBY" "int64_range (bf_i64 bop)"
    and room: "bf_offset bop + bf_bits bop \<le> 8 * length p" "bf_offset bop + bf_bits bop < 2 ^ 64"
  shows "\<exists>old. field_at p bop = Some old \<and>
    (case bounded (field_min bop) (field_max bop) (bf_owtype bop) (old + bf_i64 bop) of
       None \<Rightarrow> bitfield_write p bop = Some (Reply_null, p)
     | Some new \<Rightarrow> \<exists>p'. bitfield_write p bop = Some (Reply_int new, p') \<and> length p' = length p \<and> field_at p' bop = Some new \<and>
         same_outside p p' (bf_offset bop) (bf_bits bop))"
proof -
  let ?o = "bf_offset bop" and ?n = "bf_bits bop" and ?i = "bf_i64 bop" and ?ow = "bf_owtype bop"
  have n: "0 < ?n" "?n < 64"
    using bop(1,2) by (auto simp: field_ok_def)
  obtain u where u: "getUnsignedBitfield p ?o ?n = Some u" "uint u < 2 ^ ?n"
    using getUnsigned_range [OF room n(2)] by blast
  have "int (unat u) < int (2 ^ ?n)"
    using u(2) by simp
  then have "unat u < 2 ^ ?n"
    by (simp only: of_nat_less_iff)
  note chk = checkUnsigned_result [OF n this bop(4), of ?ow]
  have two: "(2 :: int) ^ ?n \<le> 2 ^ 63" "(1 :: int) \<le> 2 ^ ?n"
    using n power_increasing [of ?n 63 "2 :: int"] by simp_all
  have set: "\<exists>p'. setUnsignedBitfield p ?o ?n w = Some p' \<and> length p' = length p \<and>
      map_option uint (getUnsignedBitfield p' ?o ?n) = Some x \<and> same_outside p p' ?o ?n \<and> sint w = x"
    if x: "uint w = x" "0 \<le> x" "x < 2 ^ ?n" for w x
  proof -
    have "signed_take_bit 63 x = x"
      using x two(1) by (intro signed_take_bit_int_eq_self) simp_all
    then have "sint w = x"
      using x(1) by (simp add: sint_uint)
    moreover have "uint (take_bit ?n w) = x"
      using x n(2) by (simp add: unsigned_take_bit_eq take_bit_int_eq_self)
    ultimately show ?thesis
      using setUnsignedBitfield_outside [OF room, of w] set_get_unsigned [OF room] by auto
  qed
  have word: "uint (word_of_int x :: 64 word) = x" if x: "0 \<le> x" "x < 2 ^ ?n" for x
    unfolding uint_word_of_int_eq by (rule take_bit_int_eq_self) (use x two(1) in simp_all)
  have nat: "uint (of_nat (nat x) :: 64 word) = x" if x: "0 \<le> x" "x < 2 ^ ?n" for x
    unfolding of_nat_nat [OF x(1)] by (rule word) fact+
  have sum: "uint (u + word_of_int ?i) = uint u + ?i" if "0 \<le> uint u + ?i" "uint u + ?i < 2 ^ ?n"
    using word [OF that] by simp
  have old: "int (unat u) = uint u"
    by simp
  have min_max: "field_min bop = 0" "field_max bop = 2 ^ ?n - 1"
    using bop(1) by (simp_all add: field_min_def field_max_def)
  note defs = bitfield_write_def bitfield_write_unsigned_def bounded_def field_at_def Let_def
  have modn: "0 \<le> (uint u + ?i) mod 2 ^ ?n" "(uint u + ?i) mod 2 ^ ?n < 2 ^ ?n"
    by simp_all
  show ?thesis
  proof (cases "0 \<le> uint u + ?i \<and> uint u + ?i \<le> 2 ^ ?n - 1")
    case True
    then have "checkUnsignedBitfieldOverflow (unat u) ?i ?n ?ow = (0, None)"
      using chk unfolding old by auto
    then show ?thesis
      using True u(1) bop(1,3) set [OF sum] unfolding min_max by (auto simp: defs)
  next
    case False
    show ?thesis
    proof (cases ?ow)
      case BFOVERFLOW_WRAP
      then have "checkUnsignedBitfieldOverflow (unat u) ?i ?n ?ow = (1, Some (nat ((uint u + ?i) mod 2 ^ ?n)))"
        using chk False unfolding old by (auto simp: overflow_sign_def)
      then show ?thesis
        using False BFOVERFLOW_WRAP u(1) bop(1,3) set [OF nat [OF modn] modn] unfolding min_max by (auto simp: defs)
    next
      case BFOVERFLOW_SAT
      let ?x = "if uint u + ?i > 2 ^ ?n - 1 then 2 ^ ?n - 1 else 0 :: int"
      have x: "0 \<le> ?x" "?x < 2 ^ ?n"
        using two(2) by auto
      have "checkUnsignedBitfieldOverflow (unat u) ?i ?n ?ow = (if uint u + ?i > 2 ^ ?n - 1 then 1 else - 1, Some (nat ?x))"
        using chk False BFOVERFLOW_SAT unfolding old by (auto simp: overflow_sign_def nat_diff_distrib nat_power_eq)
      then show ?thesis
        using False BFOVERFLOW_SAT u(1) bop(1,3) set [OF nat [OF x] x] unfolding min_max by (auto simp: defs)
    next
      case BFOVERFLOW_FAIL
      then have "fst (checkUnsignedBitfieldOverflow (unat u) ?i ?n ?ow) \<noteq> 0"
        using chk False unfolding old by (auto simp: overflow_sign_def)
      then show ?thesis
        using False BFOVERFLOW_FAIL u(1) bop(1,3) unfolding min_max by (auto simp: defs split: prod.split)
    qed
  qed
qed

text \<open>A read of a field depends only on its bits.\<close>

lemma getUnsigned_cong:
  assumes "o1 + n \<le> 8 * length p" "o1 + n < 2 ^ 64" "o2 + n \<le> 8 * length q" "o2 + n < 2 ^ 64"
    and "\<And>k. k < n \<Longrightarrow> bit_at p (o1 + k) = bit_at q (o2 + k)"
  shows "getUnsignedBitfield p o1 n = getUnsignedBitfield q o2 n"
proof -
  obtain u where u: "getUnsignedBitfield p o1 n = Some u" "\<And>k. k < 64 \<Longrightarrow> bit u k = (k < n \<and> bit_at p (o1 + n - 1 - k))"
    using getUnsignedBitfield_bits [OF assms(1,2)] by blast
  obtain w where w: "getUnsignedBitfield q o2 n = Some w" "\<And>k. k < 64 \<Longrightarrow> bit w k = (k < n \<and> bit_at q (o2 + n - 1 - k))"
    using getUnsignedBitfield_bits [OF assms(3,4)] by blast
  have "u = w"
  proof (rule bit_word_eqI)
    fix k assume "k < LENGTH(64)"
    moreover have "bit_at p (o1 + n - 1 - k) = bit_at q (o2 + n - 1 - k)" if "k < n"
      using assms(5) [of "n - 1 - k"] that by (simp add: Nat.add_diff_assoc)
    ultimately show "bit u k = bit w k"
      using u(2) [of k] w(2) [of k] by auto
  qed
  then show ?thesis
    using u(1) w(1) by simp
qed

lemma bitfield_copy_correct:
  "\<forall>k. i \<le> k \<and> k < i + n \<longrightarrow> buf ! k = 0 \<Longrightarrow> i + n \<le> length buf \<Longrightarrow> src_for src str \<Longrightarrow>
   bitfield_copy n i buf (Some src) byte = Some (upd_range buf i n (\<lambda>k. pad_byte str (k + byte)))"
proof (induction n arbitrary: i buf)
  case (Suc n)
  obtain p where src: "src = (p, length str)" "length str \<le> length p" "take (length str) p = str"
    using Suc.prems(3) by (cases src) (auto simp: src_for_def)
  show ?case
  proof (cases "i + byte \<ge> length str")
    case True
    have "buf = upd_range buf i (Suc n) (\<lambda>k. pad_byte str (k + byte))"
      by (rule upd_range_eqI) (use Suc.prems(1) True in \<open>auto simp: pad_byte_def\<close>)
    then show ?thesis
      using True by (simp add: src(1))
  next
    case False
    have b: "p ! (i + byte) = pad_byte str (i + byte)"
      using False src(3) by (metis not_le nth_take pad_byte_def)
    let ?buf = "buf[i := pad_byte str (i + byte)]"
    have "bitfield_copy (Suc n) i buf (Some src) byte = bitfield_copy n (i + 1) ?buf (Some src) byte"
      using False src(2) Suc.prems(2) b by (simp add: src(1) mem_simps)
    also have "\<dots> = Some (upd_range ?buf (i + 1) n (\<lambda>k. pad_byte str (k + byte)))"
      by (rule Suc.IH) (use Suc.prems in auto)
    also have "upd_range ?buf (i + 1) n (\<lambda>k. pad_byte str (k + byte)) = upd_range buf i (Suc n) (\<lambda>k. pad_byte str (k + byte))"
      by (rule upd_range_eqI) (auto simp: nth_upd_range nth_list_update not_less_eq_eq)
    finally show ?thesis .
  qed
qed simp

definition padded_field :: "bytes \<Rightarrow> bitfieldOp \<Rightarrow> int option" where
  "padded_field str bop = field_at (str @ replicate (bf_offset bop + bf_bits bop) 0) bop"

lemma bitfield_get_correct:
  assumes bop: "field_ok bop" "bf_offset bop < bit_limit"
    and src: "case src of None \<Rightarrow> str = [] | Some s \<Rightarrow> src_for s str"
  shows "\<exists>v. padded_field str bop = Some v \<and> bitfield_get src bop = Some (Reply_int v)"
proof -
  let ?o = "bf_offset bop" and ?n = "bf_bits bop"
  let ?q = "?o div 8" and ?pad = "str @ replicate (?o + ?n) 0"
  have n: "0 < ?n" "?n \<le> 64"
    using bop(1) by (auto simp: field_ok_def split: if_splits)
  define buf where "buf = map (\<lambda>k. pad_byte str (k + ?q)) [0..<9]"
  have copy: "bitfield_copy 9 0 (replicate 9 0) src ?q = Some buf"
  proof (cases src)
    case None
    have "bitfield_copy (Suc 8) 0 (replicate 9 0) None ?q = Some (replicate 9 0)"
      by (simp only: bitfield_copy.simps option.case)
    moreover have "buf = replicate 9 0"
      using src None by (intro nth_equalityI) (auto simp: buf_def pad_byte_def)
    ultimately show ?thesis
      using None by simp
  next
    case (Some s)
    have "upd_range (replicate 9 0) 0 9 (\<lambda>k. pad_byte str (k + ?q)) = buf"
      by (rule nth_equalityI) (auto simp: buf_def nth_upd_range)
    then show ?thesis
      using Some src bitfield_copy_correct [of 0 9 "replicate 9 0" s str ?q] by simp
  qed
  have off: "?o - ?q * 8 = ?o mod 8" "?o mod 8 < 8"
    by (simp_all add: minus_div_mult_eq_mod)
  have bits: "bit_at buf (?o mod 8 + k) = bit_at ?pad (?o + k)" if "k < ?n" for k
  proof -
    let ?r = "?o mod 8 + k"
    have eq: "?o + k = ?r + 8 * ?q"
      by simp
    have gen: "(a + 8 * b) div 8 = a div 8 + b" "(a + 8 * b) mod 8 = a mod 8" for a b :: nat
      by simp_all
    have r: "?r div 8 < 9"
      using that n(2) off(2) by (simp add: div8_less)
    have "(?o + k) div 8 = ?r div 8 + ?q" "(?o + k) mod 8 = ?r mod 8"
      unfolding eq by (rule gen)+
    moreover have "(?o + k) div 8 < length ?pad"
      using that by (simp add: div8_less)
    moreover have "?pad ! i = pad_byte str i" if "i < length ?pad" for i
      using that by (auto simp: nth_append pad_byte_def)
    ultimately show ?thesis
      using r by (simp add: bit_at_def buf_def)
  qed
  have lim: "?o + ?n < 2 ^ 64" "?o mod 8 + ?n < 2 ^ 64"
    using bop(2) n(2) off(2) by (simp_all add: bit_limit_def)
  have room: "?o mod 8 + ?n \<le> 8 * length buf" "?o + ?n \<le> 8 * length ?pad"
    using n(2) off(2) by (simp_all add: buf_def)
  have eq: "getUnsignedBitfield buf (?o mod 8) ?n = getUnsignedBitfield ?pad ?o ?n"
    by (rule getUnsigned_cong [OF room(1) lim(2) room(2) lim(1) bits])
  show ?thesis
  proof (cases "bf_sign bop")
    case True
    obtain v where "getSignedBitfield ?pad ?o ?n = Some v"
      using getSigned_range [OF room(2) lim(1) n] by blast
    moreover have "getSignedBitfield buf (?o mod 8) ?n = getSignedBitfield ?pad ?o ?n"
      by (simp only: getSignedBitfield_def eq)
    ultimately show ?thesis
      using True copy off(1) by (simp add: bitfield_get_def padded_field_def field_at_def Let_def)
  next
    case False
    then have n2: "?n < 64"
      using bop(1) by (simp add: field_ok_def)
    obtain u where u: "getUnsignedBitfield ?pad ?o ?n = Some u" "uint u < 2 ^ ?n"
      using getUnsigned_range [OF room(2) lim(1) n2] by blast
    have "(2 :: int) ^ ?n \<le> 2 ^ 63"
      using n2 by (intro power_increasing) simp_all
    then have "signed_take_bit 63 (uint u) = uint u"
      using u(2) unsigned_greater_eq [of u, where ?'a = int] by (intro signed_take_bit_int_eq_self) linarith+
    then have "sint u = uint u"
      by (simp add: sint_uint)
    then show ?thesis
      using False copy eq off(1) u(1) by (simp add: bitfield_get_def padded_field_def field_at_def Let_def)
  qed
qed

text \<open>A write of any value stays inside the field, and never leaves the string.\<close>

lemma overflow_limit:
  assumes "r = (if P then (case ow of BFOVERFLOW_WRAP \<Rightarrow> (1, Some a) | BFOVERFLOW_SAT \<Rightarrow> (1, Some b) | BFOVERFLOW_FAIL \<Rightarrow> (1, None))
    else if Q then (case ow of BFOVERFLOW_WRAP \<Rightarrow> (1, Some c) | BFOVERFLOW_SAT \<Rightarrow> (- 1, Some d) | BFOVERFLOW_FAIL \<Rightarrow> (- 1, None))
    else (0 :: int, None))"
  shows "fst r \<noteq> 0 \<Longrightarrow> ow \<noteq> BFOVERFLOW_FAIL \<Longrightarrow> snd r \<noteq> None"
  using assms by (cases ow; cases P; cases Q) simp_all

lemmas signed_limit = overflow_limit [OF checkSignedBitfieldOverflow_def [unfolded Let_def]]
lemmas unsigned_limit = overflow_limit [OF checkUnsignedBitfieldOverflow_def [unfolded Let_def]]

lemma same_outside_refl [simp]: "same_outside p p n k"
  by (simp add: same_outside_def)

lemma write_frame:
  assumes v: "\<not> fail \<Longrightarrow> v \<noteq> None" and put: "\<And>x. \<exists>p'. put x = Some p' \<and> frame p'" and "frame p"
  shows "\<exists>r p'. (if fail then Some (Reply_null, p) else do { x \<leftarrow> v; p \<leftarrow> put x; Some (g x, p) }) = Some (r, p') \<and> frame p'"
proof (cases fail)
  case False
  then obtain x where x: "v = Some x"
    using v by auto
  obtain p' where "put x = Some p'" "frame p'"
    using put by blast
  then show ?thesis
    using False x by simp
qed (use assms(3) in simp)

lemma bitfield_write_inside:
  assumes bop: "field_ok bop"
    and room: "bf_offset bop + bf_bits bop \<le> 8 * length p" "bf_offset bop + bf_bits bop < 2 ^ 64"
  shows "\<exists>r p'. bitfield_write p bop = Some (r, p') \<and> length p' = length p \<and> same_outside p p' (bf_offset bop) (bf_bits bop)"
proof -
  let ?o = "bf_offset bop" and ?n = "bf_bits bop" and ?i = "bf_i64 bop" and ?ow = "bf_owtype bop"
  have n: "0 < ?n" "?n \<le> 64"
    using bop by (auto simp: field_ok_def split: if_splits)
  have put: "\<exists>p'. setUnsignedBitfield p ?o ?n w = Some p' \<and> length p' = length p \<and> same_outside p p' ?o ?n" for w
    using setUnsignedBitfield_outside [OF room] .
  show ?thesis
  proof (cases "bf_sign bop")
    case True
    obtain old where old: "getSignedBitfield p ?o ?n = Some old"
      using getSigned_range [OF room n] by blast
    have sput: "\<exists>p'. setSignedBitfield p ?o ?n x = Some p' \<and> length p' = length p \<and> same_outside p p' ?o ?n" for x
      using put by (simp add: setSignedBitfield_def)
    define c where "c = (if bf_opcode bop = BITFIELDOP_INCRBY then checkSignedBitfieldOverflow old ?i ?n ?ow
      else checkSignedBitfieldOverflow ?i 0 ?n ?ow)"
    define new where "new = (if bf_opcode bop = BITFIELDOP_INCRBY then s64 (old + ?i) else ?i)"
    have c: "fst c \<noteq> 0 \<Longrightarrow> ?ow \<noteq> BFOVERFLOW_FAIL \<Longrightarrow> snd c \<noteq> None"
      using signed_limit unfolding c_def by (cases "bf_opcode bop = BITFIELDOP_INCRBY") simp_all
    have run: "bitfield_write p bop = (if fst c \<noteq> 0 \<and> ?ow = BFOVERFLOW_FAIL then Some (Reply_null, p)
        else do { newval \<leftarrow> (if fst c \<noteq> 0 then snd c else Some new);
                  p \<leftarrow> setSignedBitfield p ?o ?n newval;
                  Some (Reply_int (if bf_opcode bop = BITFIELDOP_INCRBY then newval else old), p) })"
      using True old by (simp add: bitfield_write_def bitfield_write_signed_def c_def new_def Let_def case_prod_beta)
    show ?thesis
      unfolding run by (rule write_frame) (use c sput in auto)
  next
    case False
    then have "?n < 64"
      using bop by (simp add: field_ok_def)
    then obtain old where old: "getUnsignedBitfield p ?o ?n = Some old"
      using getUnsigned_range [OF room] by blast
    define c where "c = (if bf_opcode bop = BITFIELDOP_INCRBY then checkUnsignedBitfieldOverflow (unat old) ?i ?n ?ow
      else checkUnsignedBitfieldOverflow (unat (word_of_int ?i :: 64 word)) 0 ?n ?ow)"
    define new :: "64 word" where "new = (if bf_opcode bop = BITFIELDOP_INCRBY then old + word_of_int ?i else word_of_int ?i)"
    have c: "fst c \<noteq> 0 \<Longrightarrow> ?ow \<noteq> BFOVERFLOW_FAIL \<Longrightarrow> snd c \<noteq> None"
      using unsigned_limit unfolding c_def by (cases "bf_opcode bop = BITFIELDOP_INCRBY") simp_all
    have run: "bitfield_write p bop = (if fst c \<noteq> 0 \<and> ?ow = BFOVERFLOW_FAIL then Some (Reply_null, p)
        else do { newval \<leftarrow> (if fst c \<noteq> 0 then map_option of_nat (snd c) else Some new);
                  p \<leftarrow> setUnsignedBitfield p ?o ?n newval;
                  Some (Reply_int (sint (if bf_opcode bop = BITFIELDOP_INCRBY then newval else old)), p) })"
      using False old by (simp add: bitfield_write_def bitfield_write_unsigned_def c_def new_def Let_def case_prod_beta)
    show ?thesis
      unfolding run by (rule write_frame) (use c put in auto)
  qed
qed

text \<open>
  An operation that the parser accepts: the width is valid, and a write lies below the highest offset, so that the string is
  grown far enough before the operations run.
\<close>

definition op_ok :: "bool \<Rightarrow> nat \<Rightarrow> bitfieldOp \<Rightarrow> bool" where
  "op_ok readonly highest bop \<longleftrightarrow> field_ok bop \<and> bf_offset bop < bit_limit \<and>
     (bf_opcode bop \<noteq> BITFIELDOP_GET \<longrightarrow> \<not> readonly \<and> bf_offset bop + bf_bits bop \<le> highest + 1)"

definition parse_ok :: "reply + bitfieldOp list \<times> bool \<times> nat \<Rightarrow> bool" where
  "parse_ok r = (case r of Inl _ \<Rightarrow> True
     | Inr (ops, readonly, highest) \<Rightarrow> (\<forall>bop \<in> set ops. op_ok readonly highest bop) \<and> highest < bit_limit + 64)"

lemma op_ok_mono: "op_ok readonly highest bop \<Longrightarrow> highest \<le> h \<Longrightarrow> op_ok False h bop"
  by (auto simp: op_ok_def)

lemma type_arg:
  assumes "arg_obj arg"
  shows "(\<exists>e. getBitfieldTypeFromArgument arg = Some (Inl e)) \<or>
    (\<exists>sign bits. getBitfieldTypeFromArgument arg = Some (Inr (sign, bits)) \<and> 0 < bits \<and> bits \<le> (if sign then 64 else 63))"
proof (cases "obj_str arg")
  case Nil
  then show ?thesis
    by (simp add: getBitfieldTypeFromArgument_def arg_obj_bytes [OF assms])
next
  case (Cons c cs)
  define sign where "sign \<longleftrightarrow> c = of_char CHR ''i''"
  define unsign where "unsign \<longleftrightarrow> c = of_char CHR ''u''"
  note run = getBitfieldTypeFromArgument_def arg_obj_bytes [OF assms] Cons bind.bind_lunit list.case Let_def
    sign_def [symmetric] unsign_def [symmetric]
  show ?thesis
  proof (cases "string2ll (takeWhile (\<lambda>c. c \<noteq> 0) cs)")
    case None
    show ?thesis
      unfolding run None by simp
  next
    case (Some v)
    note run = run Some option.case
    show ?thesis
    proof (cases "\<not> sign \<and> \<not> unsign \<or> v < 1 \<or> sign \<and> v > 64 \<or> \<not> sign \<and> v > 63")
      case True
      then show ?thesis
        unfolding run by (intro disjI1 exI [of _ bitfield_type_err]) auto
    next
      case False
      then show ?thesis
        unfolding run by (intro disjI2 exI [of _ sign] exI [of _ "nat v"]) auto
    qed
  qed
qed

lemma offset_arg:
  assumes "arg_obj arg"
  shows "(\<exists>e. getBitOffsetFromArgument arg hash bits = Some (Inl e)) \<or>
    (\<exists>off. getBitOffsetFromArgument arg hash bits = Some (Inr off) \<and> off < bit_limit)"
proof -
  have "off < bit_limit" if "\<not> off div 8 \<ge> 512 * 1024 * 1024" for off
    using that unfolding not_le div8_less bit_limit_def .
  then show ?thesis
    unfolding getBitOffsetFromArgument_def arg_obj_bytes [OF assms] Let_def bind.bind_lunit
    by (auto split: option.split)
qed

lemma integer_arg:
  assumes "arg_obj arg"
  shows "(\<exists>e. getLongLongFromObjectOrReply (Some arg) msg = Some (Inl e)) \<or>
    (\<exists>v. getLongLongFromObjectOrReply (Some arg) msg = Some (Inr v) \<and> int64_range v)"
proof -
  obtain s where "obj_sds arg = Some s" "sds_ok s" "sdsEncodedObject arg" "otype arg = OBJ_STRING"
    using assms unfolding arg_obj_def by (metis str_obj_cases str_obj_def)
  then have "getLongLongFromObject (Some arg) = Some (string2ll (sds_str s))"
    by (simp add: getLongLongFromObject_def isSdsRepresentableAsLongLong_def sds_bytes)
  then show ?thesis
    using string2ll_sound by (auto simp: getLongLongFromObjectOrReply_def split: option.split)
qed

lemma bitfield_operands_ok:
  assumes args: "arg_obj (rest ! 0)" "arg_obj (rest ! 1)" "opcode \<noteq> BITFIELDOP_GET \<Longrightarrow> arg_obj (rest ! 2)"
  shows "(\<exists>e. bitfield_operands opcode ow rest = Some (Inl e)) \<or>
    (\<exists>bop. bitfield_operands opcode ow rest = Some (Inr bop) \<and> field_ok bop \<and> bf_offset bop < bit_limit \<and> bf_opcode bop = opcode)"
proof -
  from type_arg [OF args(1)] consider e where "getBitfieldTypeFromArgument (rest ! 0) = Some (Inl e)"
    | sign bits where "getBitfieldTypeFromArgument (rest ! 0) = Some (Inr (sign, bits))" "0 < bits" "bits \<le> (if sign then 64 else 63)"
    by blast
  then show ?thesis
  proof cases
    case 1
    then show ?thesis
      by (simp add: bitfield_operands_def)
  next
    case 2
    from offset_arg [OF args(2), of True bits] consider e where "getBitOffsetFromArgument (rest ! 1) True bits = Some (Inl e)"
      | off where "getBitOffsetFromArgument (rest ! 1) True bits = Some (Inr off)" "off < bit_limit"
      by blast
    then show ?thesis
    proof cases
      case 1
      then show ?thesis
        using 2 by (simp add: bitfield_operands_def)
    next
      case off: 2
      obtain r where "(if opcode \<noteq> BITFIELDOP_GET then getLongLongFromObjectOrReply (Some (rest ! 2)) None else Some (Inr 0)) = Some r"
        using integer_arg [OF args(3)] by (cases "opcode = BITFIELDOP_GET") auto
      then show ?thesis
        unfolding bitfield_operands_def 2(1) off(1) bind.bind_lunit sum.case prod.case
        using 2(2,3) off(2) by (cases r) (simp_all add: field_ok_def)
    qed
  qed
qed

lemma bitfield_parse_ok:
  assumes "\<forall>a \<in> set args. arg_obj a" "\<forall>bop \<in> set ops. op_ok readonly highest bop" "highest < bit_limit + 64"
  shows "\<exists>r. bitfield_parse args owtype ops readonly highest = Some r \<and> parse_ok r"
  using assms
proof (induction "length args" arbitrary: args owtype ops readonly highest rule: less_induct)
  case less
  show ?case
  proof (cases args)
    case Nil
    then show ?thesis
      using less.prems by (simp add: parse_ok_def)
  next
    case (Cons sub rest)
    have sub: "arg_bytes sub = Some (obj_str sub)"
      by (rule arg_obj_bytes) (use less.prems(1) Cons in simp)
    have nth: "arg_obj (rest ! k)" if "k < length rest" for k
      using less.prems(1) Cons that by simp
    have IH: "\<exists>r. bitfield_parse (drop k rest) ow ops' ro h = Some r \<and> parse_ok r"
      if "\<forall>bop \<in> set ops'. op_ok ro h bop" "h < bit_limit + 64" for k ow ops' ro h
      by (rule less.hyps) (use that less.prems(1) Cons in \<open>auto dest: in_set_dropD\<close>)
    note step = Cons bitfield_parse.simps sub bind.bind_lunit
    show ?thesis
    proof (cases "bitfield_subcmd (obj_str sub) (length rest)")
      case None
      note more = IH [OF less.prems(2,3), of 1]
      show ?thesis
      proof (cases "strcaseeq (obj_str sub) ''overflow'' \<and> length rest \<ge> 1")
        case True
        then have "arg_obj (hd rest)"
          using nth [of 0] by (cases rest) auto
        then show ?thesis
          using more [of BFOVERFLOW_WRAP] more [of BFOVERFLOW_SAT] more [of BFOVERFLOW_FAIL]
          unfolding step None option.case if_P [OF True] by (simp add: arg_obj_bytes parse_ok_def)
      next
        case False
        then show ?thesis
          unfolding step None option.case if_not_P [OF False] by (simp add: parse_ok_def)
      qed
    next
      case (Some opcode)
      then have len: "2 \<le> length rest" "opcode \<noteq> BITFIELDOP_GET \<Longrightarrow> 3 \<le> length rest"
        by (auto simp: bitfield_subcmd_def split: if_splits)
      have args: "arg_obj (rest ! 0)" "arg_obj (rest ! 1)" "opcode \<noteq> BITFIELDOP_GET \<Longrightarrow> arg_obj (rest ! 2)"
        by (rule nth, use len in linarith)+
      from bitfield_operands_ok [OF args, where ow = owtype] consider e where "bitfield_operands opcode owtype rest = Some (Inl e)"
        | bop where "bitfield_operands opcode owtype rest = Some (Inr bop)" "field_ok bop" "bf_offset bop < bit_limit" "bf_opcode bop = opcode"
        by blast
      then show ?thesis
      proof cases
        case 1
        then show ?thesis
          unfolding step Some option.case by (simp add: parse_ok_def)
      next
        case 2
        let ?h = "max highest (bf_offset bop + bf_bits bop - 1)"
        have read: "opcode = BITFIELDOP_GET \<Longrightarrow> \<forall>b \<in> set (ops @ [bop]). op_ok readonly highest b"
          using less.prems(2) 2 by (auto simp: op_ok_def)
        have "\<forall>b \<in> set (ops @ [bop]). op_ok False ?h b"
          using less.prems(2) 2 by (auto simp: op_ok_def)
        moreover have "?h < bit_limit + 64"
          using less.prems(3) 2 by (auto simp: field_ok_def split: if_splits)
        ultimately show ?thesis
          using IH [of "ops @ [bop]" False ?h 3 owtype] IH [OF read less.prems(3), of 2 owtype]
          unfolding step Some option.case 2(1) by simp
      qed
    qed
  qed
qed

lemma same_byte:
  assumes "same_outside p p' offset bits" "offset + bits \<le> 8 * n" "n < length p"
  shows "p' ! n = p ! n"
proof (rule bit_word_eqI)
  fix k assume "k < LENGTH(8)"
  then have k: "8 * n + (7 - k) < 8 * length p" "7 - (7 - k) = k"
    using assms(3) by simp_all
  then have "bit_at p' (8 * n + (7 - k)) = bit_at p (8 * n + (7 - k))"
    using assms(1,2) by (simp add: same_outside_def)
  then show "bit (p' ! n) k = bit (p ! n) k"
    using bit_at_byte [of "7 - k" p' n] bit_at_byte [of "7 - k" p n] k(2) by simp
qed

text \<open>The object while a command with writes runs: a private string that reaches the highest offset.\<close>

definition write_obj :: "nat \<Rightarrow> 'x robj option \<Rightarrow> bool" where
  "write_obj highest ob =
     (case ob of None \<Rightarrow> False
      | Some o1 \<Rightarrow> refcount o1 = 1 \<and> oenc o1 = OBJ_ENCODING_RAW \<and>
          (case optr o1 of Ptr_sds s \<Rightarrow> highest < 8 * sh_len s | _ \<Rightarrow> False))"

lemma write_step:
  assumes ob: "str_obj o1" "write_obj h (Some o1)" and bop: "op_ok ro h bop" "bf_opcode bop \<noteq> BITFIELDOP_GET"
  shows "\<exists>s r buf. obj_sds o1 = Some s \<and> bitfield_write (sh_buf s) bop = Some (r, buf) \<and>
    str_obj (o1\<lparr>optr := Ptr_sds (s\<lparr>sh_buf := buf\<rparr>)\<rparr>) \<and> write_obj h (Some (o1\<lparr>optr := Ptr_sds (s\<lparr>sh_buf := buf\<rparr>)\<rparr>))"
proof -
  obtain s where s: "optr o1 = Ptr_sds s" "h < 8 * sh_len s"
    using ob(2) by (auto simp: write_obj_def split: obj_ptr.splits)
  have ok: "sds_ok s" "sh_len s < length (sh_buf s)"
    using ob(1) s(1) by (auto simp: str_obj_def sds_ok_def sds_wf_def)
  have f: "field_ok bop" "bf_offset bop + bf_bits bop \<le> 8 * sh_len s" "bf_offset bop < bit_limit" "bf_bits bop \<le> 64"
    using bop s(2) by (auto simp: op_ok_def field_ok_def split: if_splits)
  have room: "bf_offset bop + bf_bits bop \<le> 8 * length (sh_buf s)" "bf_offset bop + bf_bits bop < 2 ^ 64"
    using f ok(2) by (auto simp: bit_limit_def)
  obtain r buf where w: "bitfield_write (sh_buf s) bop = Some (r, buf)" "length buf = length (sh_buf s)"
    "same_outside (sh_buf s) buf (bf_offset bop) (bf_bits bop)"
    using bitfield_write_inside [OF f(1) room] by blast
  have "buf ! sh_len s = 0"
    using same_byte [OF w(3) f(2) ok(2)] ok(1) by (simp add: sds_ok_def)
  then have "sds_ok (s\<lparr>sh_buf := buf\<rparr>)"
    using ok w(2) by (simp add: sds_ok_def sds_wf_def)
  then show ?thesis
    using w(1) s ob by (auto simp: obj_sds_def str_obj_def write_obj_def)
qed

lemma bitfield_exec_ok:
  fixes ob :: "'x robj option"
  shows "\<forall>bop \<in> set ops. op_ok ro h bop \<Longrightarrow> key_obj ob \<Longrightarrow> \<not> ro \<longrightarrow> write_obj h ob \<Longrightarrow>
   \<exists>rs ob' n. bitfield_exec junk ob ops = Some (rs, ob', n) \<and> key_obj ob' \<and> length rs = length ops \<and> (ro \<longrightarrow> ob' = ob \<and> n = 0)"
proof (induction ops arbitrary: ob)
  case (Cons bop ops)
  show ?case
  proof (cases "bf_opcode bop = BITFIELDOP_GET")
    case True
    obtain src where src: "(case ob of None \<Rightarrow> Some None | Some o1 \<Rightarrow> map_option Some (getObjectReadOnlyString junk o1)) = Some src"
      "case src of None \<Rightarrow> found_str ob = [] | Some s \<Rightarrow> src_for s (found_str ob)"
    proof (cases ob)
      case (Some o1)
      then show ?thesis
        using that getObjectReadOnlyString_correct [of o1 junk] Cons.prems(2) by (auto simp: key_obj_def found_str_def src_for_def)
    qed (use that in \<open>simp add: found_str_def\<close>)
    have "field_ok bop" "bf_offset bop < bit_limit"
      using Cons.prems(1) by (auto simp: op_ok_def)
    then obtain v where "bitfield_get src bop = Some (Reply_int v)"
      using bitfield_get_correct [OF _ _ src(2)] by blast
    moreover obtain rs ob' n where "bitfield_exec junk ob ops = Some (rs, ob', n)" "key_obj ob'" "length rs = length ops"
      "ro \<longrightarrow> ob' = ob \<and> n = 0"
      using Cons.IH [of ob] Cons.prems by auto
    ultimately show ?thesis
      using True src(1) by simp
  next
    case False
    then have ro: "\<not> ro"
      using Cons.prems(1) by (auto simp: op_ok_def)
    then obtain o1 where o1: "ob = Some o1" "str_obj o1" "write_obj h (Some o1)"
      using Cons.prems(2,3) by (cases ob) (auto simp: write_obj_def key_obj_def)
    obtain s r buf where w: "obj_sds o1 = Some s" "bitfield_write (sh_buf s) bop = Some (r, buf)"
      "str_obj (o1\<lparr>optr := Ptr_sds (s\<lparr>sh_buf := buf\<rparr>)\<rparr>)" "write_obj h (Some (o1\<lparr>optr := Ptr_sds (s\<lparr>sh_buf := buf\<rparr>)\<rparr>))"
      using write_step [OF o1(2,3) _ False] Cons.prems(1) by (metis list.set_intros(1))
    have "key_obj (Some (o1\<lparr>optr := Ptr_sds (s\<lparr>sh_buf := buf\<rparr>)\<rparr>))"
      using w(3,4) by (simp add: key_obj_def write_obj_def OBJ_STATIC_REFCOUNT_def OBJ_SHARED_REFCOUNT_def)
    then obtain rs ob' n where "bitfield_exec junk (Some (o1\<lparr>optr := Ptr_sds (s\<lparr>sh_buf := buf\<rparr>)\<rparr>)) ops = Some (rs, ob', n)"
      "key_obj ob'" "length rs = length ops"
      using Cons.IH [of "Some (o1\<lparr>optr := Ptr_sds (s\<lparr>sh_buf := buf\<rparr>)\<rparr>)"] Cons.prems(1) w(4) by auto
    moreover have "(if bf_sign bop then bitfield_write_signed (sh_buf s) bop else bitfield_write_unsigned (sh_buf s) bop) = Some (r, buf)"
      using w(2) by (simp add: bitfield_write_def)
    ultimately show ?thesis
      using False ro o1(1) w(1) by simp
  qed
qed simp

lemma bitfieldGeneric_ok:
  fixes found :: "'x robj option"
  assumes found: "key_obj found" and args: "\<forall>a \<in> set args. arg_obj a"
  shows "\<exists>rs ob n. bitfieldGeneric junk found args flag = Some (rs, ob, n) \<and> key_obj ob \<and> (flag \<longrightarrow> ob = found \<and> n = 0)"
proof -
  obtain r where r: "bitfield_parse args BFOVERFLOW_WRAP [] True 0 = Some r" "parse_ok r"
    using bitfield_parse_ok [OF args, of "[]" True 0] by (auto simp: bit_limit_def)
  show ?thesis
  proof (cases r)
    case (Inl e)
    then show ?thesis
      using r found by (simp add: bitfieldGeneric_def)
  next
    case (Inr x)
    obtain ops ro h where x: "x = (ops, ro, h)"
      by (cases x)
    have ops: "\<forall>bop \<in> set ops. op_ok ro h bop" "h < bit_limit + 64"
      using r(2) Inr x by (simp_all add: parse_ok_def)
    note run = bitfieldGeneric_def r(1) Inr x bind.bind_lunit sum.case prod.case
    show ?thesis
    proof (cases ro)
      case True
      obtain rs ob n where "bitfield_exec junk found ops = Some (rs, ob, n)" "key_obj ob" "ob = found \<and> n = 0"
        using bitfield_exec_ok [OF ops(1) found] True by blast
      moreover have "(case found of Some ob \<Rightarrow> if checkType ob OBJ_STRING then Inl (Reply_error wrongtypeerr) else Inr found | None \<Rightarrow> Inr None) =
          (Inr found :: reply + 'x robj option)"
        using found by (auto simp: key_obj_def checkType_def str_obj_def split: option.split)
      ultimately show ?thesis
        unfolding run using True found by simp
    next
      case False
      have "h div 8 < 512 * 1024 * 1024 + 8"
        using ops(2) by (simp add: bit_limit_def div8_less)
      then obtain ob s where ob: "lookupStringForBitCommand junk found h = Some (Inr ob)" "optr ob = Ptr_sds s" "sds_ok s"
        "sds_str s = found_str found @ replicate (h div 8 + 1 - length (found_str found)) 0"
        "str_obj ob" "oenc ob = OBJ_ENCODING_RAW" "refcount ob = 1"
        using lookupString_correct [OF found] by metis
      have "h div 8 < sh_len s"
        using sds_str_len [OF ob(3)] ob(4) by simp
      then have "write_obj h (Some ob)" "key_obj (Some ob)"
        using ob by (simp_all add: write_obj_def key_obj_def div8_less OBJ_STATIC_REFCOUNT_def OBJ_SHARED_REFCOUNT_def)
      then obtain rs ob' n where "bitfield_exec junk (Some ob) ops = Some (rs, ob', n)" "key_obj ob'"
        using bitfield_exec_ok [OF ops(1), of "Some ob" junk] by blast
      then show ?thesis
        unfolding run using False ob(1) found by simp
    qed
  qed
qed

section \<open>Properties\<close>

lemma get_bits_loop_numeral:
  "get_bits_loop p offset (numeral k) v =
     do { b \<leftarrow> mem_get p (offset div 8);
          get_bits_loop p (u64 (offset + 1)) (pred_numeral k) (push_bit 1 v OR (drop_bit (7 - offset mod 8) (ucast b) AND 1)) }"
  unfolding numeral_eq_Suc [of k] get_bits_loop.simps Let_def ..

lemmas field_eval = getUnsignedBitfield_def get_bits_loop_numeral mem_get_def u64_def

text \<open>C18: INCRBY of BITFIELD adds to the integer in the field and answers the sum, wrapped around, at the limit or without
  any change as the overflow type says; afterwards the field holds the answer, and every other bit is as before. This holds
  for signed fields of up to 64 and unsigned fields of up to 63 bits.\<close>

theorem bitfield_incrby_correct:
  assumes "field_ok bop" "bf_opcode bop = BITFIELDOP_INCRBY" "int64_range (bf_i64 bop)"
    and "bf_offset bop + bf_bits bop \<le> 8 * length p" "bf_offset bop + bf_bits bop < 2 ^ 64"
  shows "\<exists>old. field_at p bop = Some old \<and>
    (case bounded (field_min bop) (field_max bop) (bf_owtype bop) (old + bf_i64 bop) of
       None \<Rightarrow> bitfield_write p bop = Some (Reply_null, p)
     | Some new \<Rightarrow> \<exists>p'. bitfield_write p bop = Some (Reply_int new, p') \<and> length p' = length p \<and> field_at p' bop = Some new \<and>
         same_outside p p' (bf_offset bop) (bf_bits bop))"
proof (cases "bf_sign bop")
  case True
  then show ?thesis
    by (rule incrby_signed [OF _ assms])
next
  case False
  then show ?thesis
    by (rule incrby_unsigned [OF _ assms])
qed

definition incrby_example :: "bf_overflow \<Rightarrow> bitfieldOp" where
  "incrby_example ow = \<lparr>bf_offset = 4, bf_i64 = 10, bf_opcode = BITFIELDOP_INCRBY, bf_owtype = ow, bf_bits = 4, bf_sign = False\<rparr>"

theorem bitfield_incrby_correct_witness:
  "(\<exists>p'. bitfield_write [7, 255] (incrby_example BFOVERFLOW_WRAP) = Some (Reply_int 1, p')) \<and>
   bitfield_write [7, 255] (incrby_example BFOVERFLOW_FAIL) = Some (Reply_null, [7, 255])"
proof -
  have f: "field_at [7, 255] (incrby_example ow) = Some 7" for ow
  proof -
    have "getUnsignedBitfield [7, 255] 4 4 = Some 7"
      by (simp add: field_eval)
    then show ?thesis
      by (simp add: field_at_def incrby_example_def)
  qed
  have ok: "field_ok (incrby_example ow)" "int64_range (bf_i64 (incrby_example ow))" for ow
    by (simp_all add: field_ok_def incrby_example_def int64_range_def)
  have b: "bounded (field_min (incrby_example ow)) (field_max (incrby_example ow)) (bf_owtype (incrby_example ow))
      (7 + bf_i64 (incrby_example ow)) = (case ow of BFOVERFLOW_WRAP \<Rightarrow> Some 1 | BFOVERFLOW_SAT \<Rightarrow> Some 15 | BFOVERFLOW_FAIL \<Rightarrow> None)" for ow
    by (cases ow) (simp_all add: bounded_def field_min_def field_max_def incrby_example_def)
  have room: "bf_opcode (incrby_example ow) = BITFIELDOP_INCRBY"
      "bf_offset (incrby_example ow) + bf_bits (incrby_example ow) \<le> 8 * length [7 :: byte, 255]"
      "bf_offset (incrby_example ow) + bf_bits (incrby_example ow) < 2 ^ 64" for ow
    by (simp_all add: incrby_example_def)
  note run = bitfield_incrby_correct [OF ok(1) room(1) ok(2) room(2,3)]
  show ?thesis
    using run [of BFOVERFLOW_WRAP] run [of BFOVERFLOW_FAIL] by (auto simp: f b)
qed

text \<open>GET of BITFIELD answers the integer in the field of the zero-padded string, at any offset, also behind the end of
  the string or over its end.\<close>

theorem bitfield_get_padded:
  assumes "field_ok bop" "bf_offset bop < bit_limit" "src_for src str"
  shows "\<exists>v. padded_field str bop = Some v \<and> bitfield_get (Some src) bop = Some (Reply_int v)"
  using bitfield_get_correct [OF assms(1,2), where src = "Some src" and str = str] assms(3) by simp

theorem bitfield_get_padded_witness:
  "bitfield_get (Some ([7, 255, 0], 2)) \<lparr>bf_offset = 12, bf_i64 = 0, bf_opcode = BITFIELDOP_GET, bf_owtype = BFOVERFLOW_WRAP,
     bf_bits = 8, bf_sign = True\<rparr> = Some (Reply_int (- 16))"
proof -
  let ?op = "\<lparr>bf_offset = 12, bf_i64 = 0, bf_opcode = BITFIELDOP_GET, bf_owtype = BFOVERFLOW_WRAP, bf_bits = 8, bf_sign = True\<rparr>"
  have "getUnsignedBitfield ([7, 255] @ replicate 20 0) 12 8 = Some 240"
    by (simp add: field_eval nth_append)
  moreover have "sint (240 OR NOT (mask 8) :: 64 word) = - 16"
    by code_simp
  ultimately have "padded_field [7, 255] ?op = Some (- 16)"
    by (simp add: padded_field_def field_at_def getSignedBitfield_def)
  then show ?thesis
    using bitfield_get_padded [of ?op "([7, 255, 0], 2)" "[7, 255]"] by (simp add: field_ok_def bit_limit_def src_for_def)
qed

text \<open>C9: Whatever its arguments are, BITFIELD returns and never reads or writes outside of the string: the string is grown
  to the highest offset of all writes first, and stays well-formed. BITFIELD_RO returns too, and changes neither the
  string nor the number of changes.\<close>

theorem bitfieldCommand_safe:
  assumes "key_obj found" "\<forall>a \<in> set args. arg_obj a"
  shows "(\<exists>rs ob n. bitfieldCommand junk found args = Some (rs, ob, n) \<and> key_obj ob) \<and>
    (\<exists>rs. bitfieldroCommand junk found args = Some (rs, found, 0))"
  using bitfieldGeneric_ok [OF assms, of junk False] bitfieldGeneric_ok [OF assms, of junk True]
  by (auto simp: bitfieldCommand_def bitfieldroCommand_def)

theorem bitfieldCommand_safe_witness:
  "\<exists>rs ob n. bitfieldCommand (\<lambda>_. 0) None [text_obj [115, 101, 116], text_obj [105, 56], text_obj [49], text_obj [49, 48]] = Some (rs, ob, n) \<and>
    key_obj ob"
  using bitfieldCommand_safe [of None "[text_obj [115, 101, 116], text_obj [105, 56], text_obj [49], text_obj [49, 48]]" "\<lambda>_. 0"]
  by (simp add: text_obj_ok key_obj_def)


end
