(* ===== verification/Set_Type.thy ===== *)
theory Set_Type
  imports Object Dict_Iter Intset "HOL-Library.Signed_Division"
begin

text \<open>
  The set values of \<open>redis-6.0.10/src/t_set.c\<close> (the functions \<open>setType...\<close>), with their creation in \<open>object.c\<close> and
  \<open>htNeedsResize\<close> of \<open>server.c\<close>. A set is an object with the encoding \<open>INTSET\<close>, an integer set, or \<open>HT\<close>, a dictionary
  whose keys are the members. A string is represented by its bytes, as in the dictionary types, so a copy of a string is
  the string. An operation returns the object it leaves; \<open>None\<close> is an access outside of a memory block, a failed assertion or a panic.
\<close>

section \<open>Data\<close>

datatype set_data = Set_dict "(sds_key, unit) dict" | Set_intset intset

type_synonym set_obj = "set_data robj"

text \<open>
  What the operations read of the server: the configuration \<open>set-max-intset-entries\<close>, the seed of the hash function,
  the flag \<open>dict_can_resize\<close>, and the contents of fresh memory and of a fingerprint that is not initialised.
\<close>

record set_env =
  set_max_intset_entries :: nat
  hash_seed :: bytes
  can_resize :: bool
  mem_junk :: "nat \<Rightarrow> byte"
  fp_junk :: "64 word"

definition set_ht :: "set_obj \<Rightarrow> (sds_key, unit) dict option" where
  "set_ht ob = (case optr ob of Ptr_data (Set_dict d) \<Rightarrow> Some d | _ \<Rightarrow> None)"

definition set_is :: "set_obj \<Rightarrow> intset option" where
  "set_is ob = (case optr ob of Ptr_data (Set_intset is) \<Rightarrow> Some is | _ \<Rightarrow> None)"

definition put_set_ht :: "set_obj \<Rightarrow> (sds_key, unit) dict \<Rightarrow> set_obj" where
  "put_set_ht ob d = ob\<lparr>optr := Ptr_data (Set_dict d)\<rparr>"

definition put_set_is :: "set_obj \<Rightarrow> intset \<Rightarrow> set_obj" where
  "put_set_is ob is = ob\<lparr>optr := Ptr_data (Set_intset is)\<rparr>"

text \<open>A string as a member: its bytes. A string of \<open>2 ^ 31\<close> bytes or more has none.\<close>

definition sds_key_of :: "bytes \<Rightarrow> sds_key option" where
  "sds_key_of bs = (if length bs < 2 ^ 31 then Some (Sds_key bs) else None)"

definition key_from_ll :: "set_env \<Rightarrow> int \<Rightarrow> sds_key option" where
  "key_from_ll env v =
     do { s \<leftarrow> sdsfromlonglong (mem_junk env) v; bs \<leftarrow> mem_read (sh_buf s) 0 (sdslen s); sds_key_of bs }"

text \<open>\<open>isSdsRepresentableAsLongLong\<close> on the string of a member.\<close>

definition key_ll :: "sds_key \<Rightarrow> int option" where
  "key_ll value = string2ll (key_bytes value)"

section \<open>Operations\<close>

definition createSetObject :: "set_env \<Rightarrow> set_obj" where
  "createSetObject env =
     (createObject OBJ_SET (Ptr_data (Set_dict (dictCreate (setDictType (hash_seed env))))))\<lparr>oenc := OBJ_ENCODING_HT\<rparr>"

definition createIntsetObject :: "set_obj" where
  "createIntsetObject = (createObject OBJ_SET (Ptr_data (Set_intset intsetNew)))\<lparr>oenc := OBJ_ENCODING_INTSET\<rparr>"

definition setTypeCreate :: "set_env \<Rightarrow> sds_key \<Rightarrow> set_obj" where
  "setTypeCreate env value = (if key_ll value \<noteq> None then createIntsetObject else createSetObject env)"

definition HASHTABLE_MIN_FILL :: int where
  "HASHTABLE_MIN_FILL = 10"

definition htNeedsResize :: "('k, 'v) dict \<Rightarrow> bool" where
  "htNeedsResize d =
     (let size = s64 (int (dictSlots d)); used = s64 (int (dictSize d)) in
      size > int DICT_HT_INITIAL_SIZE \<and> s64 (used * 100) sdiv size < HASHTABLE_MIN_FILL)"

text \<open>\<open>dictSetKey\<close> on the entry at a location.\<close>

definition dictSetKey :: "('k, 'v) dict \<Rightarrow> 'k de_ref \<Rightarrow> 'k \<Rightarrow> ('k, 'v) dict option" where
  "dictSetKey d r key =
     (case r of (t, i, k) \<Rightarrow>
        let key = (case keyDup (dtype d) of Some dup \<Rightarrow> dup key | None \<Rightarrow> key) in
        do { b \<leftarrow> bucket (get_ht d t) i;
             if k \<in> fst ` set b
             then Some (put_ht d t (bucket_put (get_ht d t) i (map (\<lambda>e. if fst e = k then (key, snd e) else e) b)))
             else None })"

text \<open>The iterator has the encoding of the set that it was made for. Its subject is an argument of the operations.\<close>

datatype setTypeIterator = Iter_ht "sds_key dictIterator" | Iter_intset int

text \<open>What \<open>setTypeNext\<close> stores, \<open>sdsele\<close> or \<open>llele\<close>, by the encoding that it returns.\<close>

datatype set_elem = Ele_sds sds_key | Ele_ll int

definition setTypeInitIterator :: "set_env \<Rightarrow> set_obj \<Rightarrow> setTypeIterator option" where
  "setTypeInitIterator env ob =
     (if oenc ob = OBJ_ENCODING_HT then Some (Iter_ht (dictGetIterator (fp_junk env)))
      else if oenc ob = OBJ_ENCODING_INTSET then Some (Iter_intset 0)
      else None)"

text \<open>The argument \<open>addr\<close> has the addresses of the bucket arrays, which the fingerprint of the iterator depends on. The
  overflow of the \<open>int\<close> position is \<open>None\<close>.\<close>

definition setTypeReleaseIterator :: "64 word \<times> 64 word \<Rightarrow> set_obj \<Rightarrow> setTypeIterator \<Rightarrow> set_obj option" where
  "setTypeReleaseIterator addr ob si =
     (case si of
        Iter_ht di \<Rightarrow> do { d \<leftarrow> set_ht ob; d \<leftarrow> dictReleaseIterator addr d di; Some (put_set_ht ob d) }
      | Iter_intset ii \<Rightarrow> Some ob)"

definition setTypeNext :: "64 word \<times> 64 word \<Rightarrow> set_obj \<Rightarrow> setTypeIterator \<Rightarrow>
    (set_obj \<times> setTypeIterator \<times> set_elem option) option" where
  "setTypeNext addr ob si =
     (case si of
        Iter_ht di \<Rightarrow>
          do { d \<leftarrow> set_ht ob;
               (d, di, de) \<leftarrow> dictNext addr d di;
               Some (put_set_ht ob d, Iter_ht di, map_option (\<lambda>(t, i, key). Ele_sds key) de) }
      | Iter_intset ii \<Rightarrow>
          do { is \<leftarrow> set_is ob;
               if ii = 2 ^ 31 - 1 then None
               else do { v \<leftarrow> intsetGet is (nat (ii mod 2 ^ 32));
                         Some (ob, Iter_intset (ii + 1), map_option Ele_ll v) } })"

text \<open>A new string for the member; a copy has the same bytes.\<close>

definition elem_object :: "set_env \<Rightarrow> set_elem \<Rightarrow> sds_key option" where
  "elem_object env e = (case e of Ele_ll v \<Rightarrow> key_from_ll env v | Ele_sds key \<Rightarrow> Some key)"

definition setTypeNextObject :: "set_env \<Rightarrow> 64 word \<times> 64 word \<Rightarrow> set_obj \<Rightarrow> setTypeIterator \<Rightarrow>
    (set_obj \<times> setTypeIterator \<times> sds_key option) option" where
  "setTypeNextObject env addr ob si =
     do { (ob, si, e) \<leftarrow> setTypeNext addr ob si;
          case e of
            None \<Rightarrow> Some (ob, si, None)
          | Some e \<Rightarrow> do { ele \<leftarrow> elem_object env e; Some (ob, si, Some ele) } }"

text \<open>
  The results of \<open>random()\<close> are the argument \<open>random\<close>, and \<open>rnd\<close> is the result of \<open>rand()\<close>. The missing entry of an
  empty set, which is read, is \<open>None\<close>.
\<close>

definition setTypeRandomElement :: "(nat \<Rightarrow> nat) \<Rightarrow> nat \<Rightarrow> set_obj \<Rightarrow> (set_obj \<times> set_elem) option" where
  "setTypeRandomElement random rnd ob =
     (if oenc ob = OBJ_ENCODING_HT then
        do { d \<leftarrow> set_ht ob;
             (d, de) \<leftarrow> dictGetFairRandomKey random rnd d;
             e \<leftarrow> de;
             Some (put_set_ht ob d, Ele_sds (fst e)) }
      else if oenc ob = OBJ_ENCODING_INTSET then
        do { is \<leftarrow> set_is ob; v \<leftarrow> intsetRandom is rnd; Some (ob, Ele_ll v) }
      else None)"

definition setTypeSize :: "set_obj \<Rightarrow> nat option" where
  "setTypeSize ob =
     (if oenc ob = OBJ_ENCODING_HT then do { d \<leftarrow> set_ht ob; Some (dictSize d) }
      else if oenc ob = OBJ_ENCODING_INTSET then do { is \<leftarrow> set_is ob; Some (intsetLen is) }
      else None)"

text \<open>The loop of the conversion; \<open>None\<close> is a failing assertion.\<close>

partial_function (option) convert_loop :: "set_env \<Rightarrow> 64 word \<times> 64 word \<Rightarrow> set_obj \<Rightarrow> setTypeIterator \<Rightarrow>
    (sds_key, unit) dict \<Rightarrow> (set_obj \<times> setTypeIterator \<times> (sds_key, unit) dict) option" where
  "convert_loop env addr ob si d =
     Option.bind (setTypeNext addr ob si) (\<lambda>(ob, si, e).
       case e of
         None \<Rightarrow> Some (ob, si, d)
       | Some e \<Rightarrow> (case e of
           Ele_sds _ \<Rightarrow> None
         | Ele_ll intele \<Rightarrow>
             Option.bind (key_from_ll env intele) (\<lambda>element.
             Option.bind (dictAdd (can_resize env) () d element ()) (\<lambda>(d, added).
               if added then convert_loop env addr ob si d else None))))"

definition setTypeConvert :: "set_env \<Rightarrow> set_obj \<Rightarrow> obj_encoding \<Rightarrow> set_obj option" where
  "setTypeConvert env ob enc =
     (if \<not> (otype ob = OBJ_SET \<and> oenc ob = OBJ_ENCODING_INTSET) then None
      else if enc = OBJ_ENCODING_HT then
        do { is \<leftarrow> set_is ob;
             (d, _) \<leftarrow> dictExpand (dictCreate (setDictType (hash_seed env))) (intsetLen is);
             si \<leftarrow> setTypeInitIterator env ob;
             (ob, si, d) \<leftarrow> convert_loop env (0, 0) ob si d;
             ob \<leftarrow> setTypeReleaseIterator (0, 0) ob si;
             Some (put_set_ht (ob\<lparr>oenc := OBJ_ENCODING_HT\<rparr>) d) }
      else None)"

definition setTypeAdd :: "set_env \<Rightarrow> set_obj \<Rightarrow> sds_key \<Rightarrow> (set_obj \<times> bool) option" where
  "setTypeAdd env ob value =
     (if oenc ob = OBJ_ENCODING_HT then
        do { d \<leftarrow> set_ht ob;
             (d, de, _) \<leftarrow> dictAddRaw (can_resize env) () d value;
             case de of
               Some de \<Rightarrow> do { d \<leftarrow> dictSetKey d de value; d \<leftarrow> dictSetVal d de (); Some (put_set_ht ob d, True) }
             | None \<Rightarrow> Some (put_set_ht ob d, False) }
      else if oenc ob = OBJ_ENCODING_INTSET then
        (case key_ll value of
           Some llval \<Rightarrow>
             do { is \<leftarrow> set_is ob;
                  (is, success) \<leftarrow> intsetAdd (mem_junk env) is llval;
                  let ob = put_set_is ob is;
                  if success then
                    do { ob \<leftarrow> (if intsetLen is > set_max_intset_entries env
                                 then setTypeConvert env ob OBJ_ENCODING_HT else Some ob);
                         Some (ob, True) }
                  else Some (ob, False) }
         | None \<Rightarrow>
             do { ob \<leftarrow> setTypeConvert env ob OBJ_ENCODING_HT;
                  d \<leftarrow> set_ht ob;
                  (d, added) \<leftarrow> dictAdd (can_resize env) () d value ();
                  if added then Some (put_set_ht ob d, True) else None })
      else None)"

definition setTypeRemove :: "set_env \<Rightarrow> set_obj \<Rightarrow> sds_key \<Rightarrow> (set_obj \<times> bool) option" where
  "setTypeRemove env ob value =
     (if oenc ob = OBJ_ENCODING_HT then
        do { d \<leftarrow> set_ht ob;
             (d, deleted) \<leftarrow> dictDelete d value;
             if deleted then
               do { d \<leftarrow> (if htNeedsResize d then map_option fst (dictResize (can_resize env) d) else Some d);
                    Some (put_set_ht ob d, True) }
             else Some (put_set_ht ob d, False) }
      else if oenc ob = OBJ_ENCODING_INTSET then
        (case key_ll value of
           Some llval \<Rightarrow>
             do { is \<leftarrow> set_is ob;
                  (is, success) \<leftarrow> intsetRemove (mem_junk env) is llval;
                  Some (put_set_is ob is, success) }
         | None \<Rightarrow> Some (ob, False))
      else None)"

definition setTypeIsMember :: "set_obj \<Rightarrow> sds_key \<Rightarrow> (set_obj \<times> bool) option" where
  "setTypeIsMember ob value =
     (if oenc ob = OBJ_ENCODING_HT then
        do { d \<leftarrow> set_ht ob; (d, de) \<leftarrow> dictFind d value; Some (put_set_ht ob d, de \<noteq> None) }
      else if oenc ob = OBJ_ENCODING_INTSET then
        (case key_ll value of
           Some llval \<Rightarrow> do { is \<leftarrow> set_is ob; r \<leftarrow> intsetFind is llval; Some (ob, r) }
         | None \<Rightarrow> Some (ob, False))
      else None)"

section \<open>Dictionaries of members\<close>

definition dict_members :: "(sds_key, unit) dict \<Rightarrow> sds_key set" where
  "dict_members d = fst ` set (dict_entries d)"

definition set_dict_ok :: "set_env \<Rightarrow> (sds_key, unit) dict \<Rightarrow> bool" where
  "set_dict_ok env d \<longleftrightarrow>
     dict_wf d \<and> dtype d = setDictType (hash_seed env) \<and> length (dict_entries d) \<le> 2 ^ 59"

lemma set_dict_okD:
  assumes "set_dict_ok env d"
  shows "dict_wf d" "dtype d = setDictType (hash_seed env)" "length (dict_entries d) \<le> 2 ^ 59"
  using assms by (simp_all add: set_dict_ok_def)

lemma key_dup_set [simp]: "key_dup (setDictType seed) k = k"
  by (simp add: key_dup_def setDictType_def)

lemma dict_entry_member:
  assumes "set_dict_ok env d"
  shows "dict_entry d k \<noteq> None \<longleftrightarrow> k \<in> dict_members d"
  using assms
  by (simp add: dict_entry_def entry_for_def set_dict_ok_def key_eq_setDictType find_None_iff dict_members_def image_iff Bex_def
      del: split_paired_Ex split_paired_All)

lemma dict_map_member:
  assumes "set_dict_ok env d"
  shows "dict_map d k \<noteq> None \<longleftrightarrow> k \<in> dict_members d"
  using dict_entry_member [OF assms] by (simp add: dict_map_def)

lemma finite_dict_members [simp]: "finite (dict_members d)"
  by (simp add: dict_members_def)

lemma card_dict_members:
  assumes "dict_wf d"
  shows "card (dict_members d) = length (dict_entries d)"
proof -
  have "distinct (map fst (dict_entries d))"
    using assms by (intro keys_differ_distinct) (auto simp: dict_wf_def)
  then show ?thesis using distinct_card [of "map fst (dict_entries d)"] by (simp add: dict_members_def)
qed

lemma same_entries_members:
  assumes "same_entries d d'" and "set_dict_ok env d"
  shows "set_dict_ok env d'" "dict_members d' = dict_members d"
  using sds_dict.same_entries_wf [OF assms(1) set_dict_okD(2) [OF assms(2)]] assms(2) by (simp_all add: set_dict_ok_def dict_members_def)

lemma put_same_bucket:
  assumes "bucket (get_ht d t) i = Some b" and "t \<le> 1"
  shows "put_ht d t (bucket_put (get_ht d t) i b) = d"
proof -
  obtain tb where "ht_table (get_ht d t) = Some tb" "i < length tb" "tb ! i = b"
    using assms(1) by (auto simp: bucket_def split: option.splits if_splits)
  then have "bucket_put (get_ht d t) i b = get_ht d t" by (auto simp: bucket_put_def)
  then show ?thesis using assms(2) by (simp add: put_ht_def get_ht_def)
qed

lemma dictSetKey_same:
  assumes "bucket (get_ht d t) i = Some b" and "t \<le> 1" and "(k, v) \<in> set b" and "keyDup (dtype d) = None"
  shows "dictSetKey d (t, i, k) k = Some d"
proof -
  have "map (\<lambda>e. if fst e = k then (k, snd e) else e) b = b" by (intro map_idI) auto
  moreover have "k \<in> fst ` set b" using assms(3) by (auto simp: image_iff intro: bexI [of _ "(k, v)"])
  ultimately show ?thesis using assms put_same_bucket [OF assms(1,2)] by (simp add: dictSetKey_def)
qed

text \<open>The three steps of adding a member to a hash table.\<close>

lemma set_dict_add_raw:
  assumes ok: "set_dict_ok env d" and sz: "length (dict_entries d) < 2 ^ 59"
  shows "\<exists>d' de x. dictAddRaw c () d k = Some (d', de, x) \<and>
    (if k \<in> dict_members d then de = None \<and> set_dict_ok env d' \<and> dict_members d' = dict_members d
     else \<exists>r d''. de = Some r \<and> dictSetKey d' r k = Some d' \<and> dictSetVal d' r () = Some d'' \<and>
       set_dict_ok env d'' \<and> dict_members d'' = insert k (dict_members d))"
proof (cases "dict_entry d k")
  case (Some e)
  then have "k \<in> dict_members d" using dict_entry_member [OF ok, of k] by simp
  then show ?thesis
    using sds_dict.dictAddRaw_correct [where k = k and c = c and junk = "()", OF set_dict_okD(1,2) [OF ok] sz] Some same_entries_members [OF _ ok]
    by auto
next
  case None
  let ?T = "setDictType (hash_seed env) :: (sds_key, unit) dictType"
  have k: "k \<notin> dict_members d" using None dict_entry_member [OF ok, of k] by simp
  obtain d1 t i b where d1: "dictAddRaw c () d k = Some (d1, Some (t, i, k), None)"
      "dict_wf d1" "dtype d1 = ?T" "mset (dict_entries d1) = add_mset (k, ()) (mset (dict_entries d))"
      "t \<le> 1" "bucket (get_ht d1 t) i = Some b" "(k, ()) \<in> set b"
    using sds_dict.dictAddRaw_correct [where k = k and c = c and junk = "()", OF set_dict_okD(1,2) [OF ok] sz] None by auto
  have dup: "keyDup (dtype d1) = None" using d1(3) by (simp add: setDictType_def)
  obtain d2 where d2: "dictSetVal d1 (t, i, k) () = Some d2" "dict_wf d2" "dtype d2 = ?T"
      "add_mset (k, ()) (mset (dict_entries d2)) = add_mset (k, ()) (mset (dict_entries d1))"
    using sds_dict.dictSetVal_correct [OF d1(2,3,5,6,7), of "()"] by auto
  have ms: "mset (dict_entries d2) = add_mset (k, ()) (mset (dict_entries d))" using d2(4) d1(4) by simp
  have "length (dict_entries d2) = Suc (length (dict_entries d))" using arg_cong [OF ms, of size] by simp
  moreover have "set (dict_entries d2) = insert (k, ()) (set (dict_entries d))"
    using arg_cong [OF ms, of set_mset] by simp
  ultimately show ?thesis
    using k d1 d2 dictSetKey_same [OF d1(6,5,7) dup] sz by (auto simp: set_dict_ok_def dict_members_def)
qed

lemma set_dict_add:
  assumes "set_dict_ok env d" and "length (dict_entries d) < 2 ^ 59"
  shows "\<exists>d'. dictAdd c () d k () = Some (d', k \<notin> dict_members d) \<and> set_dict_ok env d' \<and>
    dict_members d' = insert k (dict_members d)"
proof -
  obtain d' de x where *: "dictAddRaw c () d k = Some (d', de, x)"
    "if k \<in> dict_members d then de = None \<and> set_dict_ok env d' \<and> dict_members d' = dict_members d
     else \<exists>r d''. de = Some r \<and> dictSetKey d' r k = Some d' \<and> dictSetVal d' r () = Some d'' \<and>
       set_dict_ok env d'' \<and> dict_members d'' = insert k (dict_members d)"
    using set_dict_add_raw [OF assms] by blast
  show ?thesis
    using * by (cases "k \<in> dict_members d") (auto simp: dictAdd_def insert_absorb)
qed

lemma set_dict_delete:
  assumes ok: "set_dict_ok env d"
  shows "\<exists>d'. dictDelete d k = Some (d', k \<in> dict_members d) \<and> set_dict_ok env d' \<and>
    dict_members d' = dict_members d - {k}"
proof -
  obtain d' where d': "dictDelete d k = Some (d', dict_map d k \<noteq> None)" "dict_wf d'"
      "dtype d' = setDictType (hash_seed env)" "length (dict_entries d') \<le> length (dict_entries d)"
      "dict_map d' = map_upd (key_eq (setDictType (hash_seed env) :: (sds_key, unit) dictType)) k None (dict_map d)"
    using sds_dict.dictDelete_map [OF set_dict_okD(1,2) [OF ok], of k] by blast
  then have ok': "set_dict_ok env d'" using ok by (simp add: set_dict_ok_def)
  have "dict_map d' x \<noteq> None \<longleftrightarrow> dict_map d x \<noteq> None \<and> k \<noteq> x" for x
    unfolding d'(5) map_upd_def key_eq_setDictType by simp
  then have "x \<in> dict_members d' \<longleftrightarrow> x \<in> dict_members d - {k}" for x
    unfolding dict_map_member [OF ok] dict_map_member [OF ok'] by auto
  then show ?thesis using d'(1) ok' dict_map_member [OF ok, of k] by auto
qed

lemma set_dict_find:
  assumes ok: "set_dict_ok env d"
  shows "\<exists>d' r. dictFind d k = Some (d', r) \<and> (r \<noteq> None) = (k \<in> dict_members d) \<and> set_dict_ok env d' \<and>
    dict_members d' = dict_members d"
proof -
  obtain d' r where r: "dictFind d k = Some (d', r)" "same_entries d d'" "map_option (snd \<circ> snd) r = dict_entry d k"
    using sds_dict.dictFind_correct [OF set_dict_okD(1,2) [OF ok]] by blast
  then have "(r \<noteq> None) = (k \<in> dict_members d)" using dict_entry_member [OF ok, of k] by (metis option.map_disc_iff)
  then show ?thesis using r(1) same_entries_members [OF r(2) ok] by simp
qed

lemma set_dict_resize:
  assumes ok: "set_dict_ok env d"
  shows "\<exists>d' r. dictResize c d = Some (d', r) \<and> set_dict_ok env d' \<and> dict_members d' = dict_members d"
proof (cases "\<not> c \<or> dictIsRehashing d")
  case True
  then show ?thesis using ok by (auto simp: dictResize_def)
next
  case False
  have "used (ht0 d) = length (ht_entries (ht0 d))"
    using set_dict_okD(1) [OF ok] by (auto simp: dict_wf_def ht_ok_def ht_entries_def split: option.splits)
  then have "used (ht0 d) \<le> length (dict_entries d)" by (simp add: dict_entries_def)
  then have "(if used (ht0 d) < DICT_HT_INITIAL_SIZE then DICT_HT_INITIAL_SIZE else used (ht0 d)) \<le> 2 ^ 60"
    using set_dict_okD(3) [OF ok] by (simp add: DICT_HT_INITIAL_SIZE_def)
  from sds_dict.dictExpand_correct [OF set_dict_okD(1,2) [OF ok] this] False show ?thesis
    using same_entries_members [OF _ ok] by (auto simp: dictResize_def Let_def)
qed

lemma set_dict_create: "set_dict_ok env (dictCreate (setDictType (hash_seed env)))"
  "dict_members (dictCreate (setDictType (hash_seed env))) = {}"
  by (auto simp: set_dict_ok_def dict_members_def dict_wf_create dict_entries_create)
    (simp add: dictCreate_def dictInit_def)

section \<open>Sets\<close>

definition ll_key :: "int \<Rightarrow> sds_key" where
  "ll_key v = Sds_key (dec_string v)"

definition set_members :: "set_obj \<Rightarrow> sds_key set" where
  "set_members ob =
     (case optr ob of
        Ptr_data (Set_dict d) \<Rightarrow> dict_members d
      | Ptr_data (Set_intset is) \<Rightarrow> ll_key ` set (intset_vals is)
      | _ \<Rightarrow> {})"

definition set_ok :: "set_env \<Rightarrow> set_obj \<Rightarrow> bool" where
  "set_ok env ob \<longleftrightarrow> otype ob = OBJ_SET \<and>
     (case optr ob of
        Ptr_data (Set_dict d) \<Rightarrow> oenc ob = OBJ_ENCODING_HT \<and> set_dict_ok env d
      | Ptr_data (Set_intset is) \<Rightarrow>
          oenc ob = OBJ_ENCODING_INTSET \<and> intset_ok is \<and> intsetLen is \<le> set_max_intset_entries env
      | _ \<Rightarrow> False)"

text \<open>The members that a set can get: an integer set of the widest encoding is limited by the size of its block.\<close>

definition set_capacity :: "set_env \<Rightarrow> nat" where
  "set_capacity env = (if set_max_intset_entries env < 2 ^ 29 - 1 then 2 ^ 59 else 2 ^ 29 - 1)"

lemma key_bytes_ll_key:
  assumes "int64_range v"
  shows "key_bytes (ll_key v) = dec_string v"
  using length_dec_string_le [OF assms] by (simp add: ll_key_def Sds_key_inverse)

lemma key_ll_ll_key: "int64_range v \<Longrightarrow> key_ll (ll_key v) = Some v"
  by (simp add: key_ll_def key_bytes_ll_key string2ll_complete)

lemma key_ll_Some:
  assumes "key_ll k = Some v"
  shows "int64_range v" "k = ll_key v"
proof -
  have "int64_range v \<and> key_bytes k = dec_string v" using assms string2ll_sound by (simp add: key_ll_def)
  then show "int64_range v" "k = ll_key v"
    using key_bytes_inject [of k "ll_key v"] key_bytes_ll_key by auto
qed

lemma key_ll_None: "key_ll k = None \<Longrightarrow> int64_range v \<Longrightarrow> k \<noteq> ll_key v"
  using key_ll_ll_key by auto

lemma ll_key_inj: "int64_range v \<Longrightarrow> int64_range w \<Longrightarrow> ll_key v = ll_key w \<longleftrightarrow> v = w"
  using key_ll_ll_key by (metis option.inject)

lemma key_from_ll_correct:
  assumes "int64_range v"
  shows "key_from_ll env v = Some (ll_key v)"
proof -
  obtain s where s: "sdsfromlonglong (mem_junk env) v = Some s" "sds_ok s" "sds_str s = dec_string v"
    using sdsfromlonglong_correct [OF assms] by blast
  then show ?thesis
    using length_dec_string_le [OF assms] by (simp add: key_from_ll_def sds_bytes sds_key_of_def ll_key_def)
qed

lemma intset_ok_range:
  assumes "intset_ok is" and "v \<in> set (intset_vals is)"
  shows "int64_range v"
  using assms wf_rep [of "is"]
  by (auto simp: intset_ok_def intset_rep_def list_all_iff in_enc_def int64_range_def dest!: bspec)

lemma inj_ll_key: "intset_ok is \<Longrightarrow> inj_on ll_key (set (intset_vals is))"
  by (rule inj_onI) (meson intset_ok_range ll_key_inj)

lemma set_ok_cases:
  assumes "set_ok env ob"
  obtains (Dict) d where "otype ob = OBJ_SET" "oenc ob = OBJ_ENCODING_HT" "optr ob = Ptr_data (Set_dict d)"
      "set_ht ob = Some d" "set_dict_ok env d" "set_members ob = dict_members d"
    | (Intset) "is" where "otype ob = OBJ_SET" "oenc ob = OBJ_ENCODING_INTSET" "optr ob = Ptr_data (Set_intset is)"
      "set_is ob = Some is" "intset_ok is" "intsetLen is \<le> set_max_intset_entries env"
      "set_members ob = ll_key ` set (intset_vals is)"
  using assms
  by (auto simp: set_ok_def set_members_def set_ht_def set_is_def split: obj_ptr.splits set_data.splits)

lemma put_set_simps [simp]:
  "otype (put_set_ht ob d) = otype ob" "oenc (put_set_ht ob d) = oenc ob"
  "otype (put_set_is ob is) = otype ob" "oenc (put_set_is ob is) = oenc ob"
  "set_ht (put_set_ht ob d) = Some d" "set_is (put_set_is ob is) = Some is"
  "set_members (put_set_ht ob d) = dict_members d"
  "set_members (put_set_is ob is) = ll_key ` set (intset_vals is)"
  "refcount (put_set_ht ob d) = refcount ob" "refcount (put_set_is ob is) = refcount ob"
  by (simp_all add: put_set_ht_def put_set_is_def set_ht_def set_is_def set_members_def)

lemma set_ok_put:
  "set_ok env (put_set_ht ob d) \<longleftrightarrow> otype ob = OBJ_SET \<and> oenc ob = OBJ_ENCODING_HT \<and> set_dict_ok env d"
  "set_ok env (put_set_is ob is) \<longleftrightarrow> otype ob = OBJ_SET \<and> oenc ob = OBJ_ENCODING_INTSET \<and> intset_ok is \<and>
     intsetLen is \<le> set_max_intset_entries env"
  by (simp_all add: set_ok_def put_set_ht_def put_set_is_def)

lemma put_set_same: "optr ob = Ptr_data (Set_dict d) \<Longrightarrow> put_set_ht ob d = ob"
  by (simp add: put_set_ht_def)

lemma finite_set_members [simp]: "finite (set_members ob)"
  by (auto simp: set_members_def split: obj_ptr.splits set_data.splits)

lemma setTypeSize_correct:
  assumes "set_ok env ob"
  shows "setTypeSize ob = Some (card (set_members ob))"
  using assms
proof (cases rule: set_ok_cases)
  case (Dict d)
  then show ?thesis
    using dictSize_eq [OF set_dict_okD(1) [OF Dict(5)]] card_dict_members [OF set_dict_okD(1) [OF Dict(5)]]
    by (simp add: setTypeSize_def)
next
  case (Intset "is")
  then show ?thesis
    using card_image [OF inj_ll_key [OF Intset(5)]] wf_card [of "is"]
    by (simp add: setTypeSize_def intsetLen_def intset_ok_def)
qed

lemma create_set_ok:
  "set_ok env (createSetObject env)" "set_members (createSetObject env) = {}"
  "set_ok env createIntsetObject" "set_members createIntsetObject = {}"
  "set_ok env (setTypeCreate env k)" "set_members (setTypeCreate env k) = {}"
  using set_dict_create [of env] ints.inv_empty ints.elems_empty
  by (auto simp: createSetObject_def createIntsetObject_def setTypeCreate_def createObject_def set_ok_def set_members_def
      intsetLen_def intsetNew_def)

section \<open>Iterating\<close>

definition elem_key :: "set_elem \<Rightarrow> sds_key" where
  "elem_key e = (case e of Ele_sds k \<Rightarrow> k | Ele_ll v \<Rightarrow> ll_key v)"

definition elem_ok :: "set_elem \<Rightarrow> bool" where
  "elem_ok e = (case e of Ele_sds k \<Rightarrow> True | Ele_ll v \<Rightarrow> int64_range v)"

text \<open>The elements in the order of the iteration, and that an iterator has still to return some elements.\<close>

definition set_elems :: "set_obj \<Rightarrow> set_elem list" where
  "set_elems ob =
     (case optr ob of
        Ptr_data (Set_dict d) \<Rightarrow> map (\<lambda>e. Ele_sds (fst e)) (dict_entries d)
      | Ptr_data (Set_intset is) \<Rightarrow> map Ele_ll (intset_vals is)
      | _ \<Rightarrow> [])"

definition set_todo :: "64 word \<times> 64 word \<Rightarrow> set_obj \<Rightarrow> setTypeIterator \<Rightarrow> set_elem list \<Rightarrow> bool" where
  "set_todo addr ob si els =
     (case si of
        Iter_ht di \<Rightarrow> \<exists>d es. set_ht ob = Some d \<and> iter_todo d di es \<and> iter_started addr d d di \<and> \<not> it_safe di \<and>
          els = map (\<lambda>e. Ele_sds (fst e)) es
      | Iter_intset ii \<Rightarrow> \<exists>is. set_is ob = Some is \<and> 0 \<le> ii \<and> nat ii \<le> length (intset_vals is) \<and>
          els = map Ele_ll (drop (nat ii) (intset_vals is)))"

lemma elem_key_simps [simp]: "elem_key (Ele_sds k) = k" "elem_key (Ele_ll v) = ll_key v"
  "elem_ok (Ele_sds k)" "elem_ok (Ele_ll v) = int64_range v"
  by (simp_all add: elem_key_def elem_ok_def)

lemma elem_object_correct: "elem_ok e \<Longrightarrow> elem_object env e = Some (elem_key e)"
  by (cases e) (simp_all add: elem_object_def key_from_ll_correct)

lemma set_elems_correct:
  assumes "set_ok env ob"
  shows "elem_key ` set (set_elems ob) = set_members ob" (is ?m) and "distinct (map elem_key (set_elems ob))" (is ?d)
    and "list_all elem_ok (set_elems ob)" (is ?o)
proof -
  from assms have "?m \<and> ?d \<and> ?o"
  proof (cases rule: set_ok_cases)
    case (Dict d)
    have "distinct (map fst (dict_entries d))"
      using set_dict_okD(1) [OF Dict(5)] by (intro keys_differ_distinct) (auto simp: dict_wf_def)
    then show ?thesis
      using Dict by (simp add: set_elems_def dict_members_def comp_def image_image list_all_iff)
  next
    case (Intset "is")
    have "distinct (intset_vals is)"
      using Intset(5) wf_rep [of "is"] by (simp add: intset_ok_def intset_rep_def strict_sorted_iff)
    then show ?thesis
      using Intset intset_ok_range [OF Intset(5)] inj_ll_key [OF Intset(5)]
      by (simp add: set_elems_def comp_def image_image distinct_map list_all_iff)
  qed
  then show ?m ?d ?o by simp_all
qed

lemma set_elems_length:
  assumes "set_ok env ob"
  shows "length (set_elems ob) = card (set_members ob)"
  using set_elems_correct [OF assms] distinct_card [of "map elem_key (set_elems ob)"] by simp

lemma setTypeInitIterator_correct:
  assumes "set_ok env ob"
  shows "\<exists>si. setTypeInitIterator env ob = Some si \<and> set_todo addr ob si (set_elems ob)"
  using assms
proof (cases rule: set_ok_cases)
  case (Dict d)
  have "ht_entries (ht1 d) = []" if "\<not> dictIsRehashing d"
    using that set_dict_okD(1) [OF Dict(5)] by (simp add: dict_wf_def ht_entries_def)
  then have "iter_todo d (dictGetIterator (fp_junk env)) (dict_entries d)"
    "iter_started addr d d (dictGetIterator (fp_junk env))" "\<not> it_safe (dictGetIterator (fp_junk env))"
    by (auto simp: iter_todo_def iter_started_def dictGetIterator_def entries_after_def dict_entries_def ht_entries_def
        get_ht_def split: option.split)
  then show ?thesis using Dict by (auto simp: setTypeInitIterator_def set_todo_def set_elems_def)
next
  case (Intset "is")
  then show ?thesis by (auto simp: setTypeInitIterator_def set_todo_def set_elems_def)
qed

lemma intset_ok_get:
  assumes "intset_ok is"
  shows "intsetGet is pos = Some (if pos < length (intset_vals is) then Some (intset_vals is ! pos) else None)"
    "length (intset_vals is) < 2 ^ 29"
proof -
  have rep: "intset_rep is (intset_vals is)" and fits: "intset_fits is"
    using assms by (auto simp: intset_ok_def wf_rep)
  have n: "is_length is = length (intset_vals is)" using rep by (simp add: intset_rep_def)
  show l: "length (intset_vals is) < 2 ^ 29" using fits n by (simp add: intset_fits_def)
  have "intsetGet_at is (s32 i) = Some (intset_vals is ! i)" if "i < length (intset_vals is)" for i
    using that l rep_get [OF rep that] by (simp add: s32_id)
  then show "intsetGet is pos = Some (if pos < length (intset_vals is) then Some (intset_vals is ! pos) else None)"
    using n by (simp add: intsetGet_def)
qed

lemma setTypeNext_correct:
  assumes ok: "set_ok env ob" and todo: "set_todo addr ob si els"
  shows "\<exists>si'. setTypeNext addr ob si = Some (ob, si', case els of [] \<Rightarrow> None | e # _ \<Rightarrow> Some e) \<and>
    (case els of [] \<Rightarrow> setTypeReleaseIterator addr ob si' = Some ob | e # els' \<Rightarrow> set_todo addr ob si' els')"
  using ok
proof (cases rule: set_ok_cases)
  case (Dict d)
  then have "set_is ob = None" by (simp add: set_is_def)
  then obtain di es where di: "si = Iter_ht di" "iter_todo d di es" "iter_started addr d d di" "\<not> it_safe di"
      "els = map (\<lambda>e. Ele_sds (fst e)) es"
    using todo Dict(4) by (auto simp: set_todo_def split: setTypeIterator.splits)
  obtain d' di' r where n: "dictNext addr d di = Some (d', di', r)" "iter_started addr d d' di'" "\<not> it_safe di'"
     "0 \<le> it_index di'"
     "case es of [] \<Rightarrow> r = None
     | e # es' \<Rightarrow> (\<exists>t i. r = Some (t, i, fst e)) \<and> iter_todo d' di' es'"
    using dictNext_correct [OF set_dict_okD(1) [OF Dict(5)] di(2,3)] di(4) by (cases es) fastforce+
  have d': "d' = d" using n(2,3) by (auto simp: iter_started_def split: if_splits)
  have rel: "dictReleaseIterator addr d di' = Some d"
    using n(2,3) d' by (auto simp: dictReleaseIterator_def iter_started_def split: if_splits)
  show ?thesis
  proof (cases es)
    case Nil
    then show ?thesis
      using n(1,5) d' di Dict rel by (simp add: setTypeNext_def setTypeReleaseIterator_def put_set_same)
  next
    case (Cons e es')
    then obtain t i where r: "r = Some (t, i, fst e)" "iter_todo d di' es'" using n(5) d' by auto
    then show ?thesis
      using n(1,2,3) d' di Dict Cons by (auto simp: setTypeNext_def set_todo_def put_set_same)
  qed
next
  case (Intset "is")
  then have "set_ht ob = None" by (simp add: set_ht_def)
  then obtain ii where ii: "si = Iter_intset ii" "0 \<le> ii" "nat ii \<le> length (intset_vals is)"
      "els = map Ele_ll (drop (nat ii) (intset_vals is))"
    using todo Intset(4) by (auto simp: set_todo_def split: setTypeIterator.splits)
  note g = intset_ok_get [OF Intset(5)]
  have "nat ii < 2 ^ 29" using ii(3) g(2) by (rule le_less_trans)
  then have lt: "ii < 2 ^ 29" by simp
  then have m: "ii mod 4294967296 = ii" "ii \<noteq> 2147483647" using ii(2) by simp_all
  have "nat (ii + 1) = Suc (nat ii)" using ii(2) by simp
  then show ?thesis
    using ii m Intset(4) g(1) [of "nat ii"]
    by (cases "nat ii < length (intset_vals is)")
      (auto simp: setTypeNext_def set_todo_def setTypeReleaseIterator_def Cons_nth_drop_Suc [symmetric])
qed

section \<open>Operations\<close>

lemma convert_loop_correct:
  assumes "set_ok env' ob" and "set_todo addr ob si els" and "set_dict_ok env d"
    and "\<forall>e \<in> set els. \<exists>v. e = Ele_ll v \<and> int64_range v" and "distinct (map elem_key els)"
    and "elem_key ` set els \<inter> dict_members d = {}" and "length (dict_entries d) + length els \<le> 2 ^ 59"
  shows "\<exists>si' d'. convert_loop env addr ob si d = Some (ob, si', d') \<and> setTypeReleaseIterator addr ob si' = Some ob \<and>
    set_dict_ok env d' \<and> dict_members d' = dict_members d \<union> elem_key ` set els"
  using assms(2-)
proof (induction els arbitrary: si d)
  case Nil
  then show ?case using setTypeNext_correct [OF assms(1) Nil.prems(1)] by (subst convert_loop.simps) auto
next
  case (Cons e els)
  obtain v where v: "e = Ele_ll v" "int64_range v" using Cons.prems(3) by auto
  obtain si' where si': "setTypeNext addr ob si = Some (ob, si', Some e)" "set_todo addr ob si' els"
    using setTypeNext_correct [OF assms(1) Cons.prems(1)] by auto
  have new: "ll_key v \<notin> dict_members d" using Cons.prems(5) v(1) by auto
  obtain d' where d': "dictAdd (can_resize env) () d (ll_key v) () = Some (d', True)" "set_dict_ok env d'"
      "dict_members d' = insert (ll_key v) (dict_members d)"
    using set_dict_add [OF Cons.prems(2), of "can_resize env" "ll_key v"] Cons.prems(6) new by auto
  have "length (dict_entries d') = Suc (length (dict_entries d))"
    using card_dict_members [OF set_dict_okD(1)] d'(2,3) new Cons.prems(2) by (metis card_insert_disjoint finite_dict_members)
  then have "length (dict_entries d') + length els \<le> 2 ^ 59" using Cons.prems(6) by simp
  moreover have "elem_key ` set els \<inter> dict_members d' = {}"
    using Cons.prems(4,5) d'(3) v(1) by auto
  ultimately obtain si'' d'' where "convert_loop env addr ob si' d' = Some (ob, si'', d'')"
      "setTypeReleaseIterator addr ob si'' = Some ob" "set_dict_ok env d''"
      "dict_members d'' = dict_members d' \<union> elem_key ` set els"
    using Cons.IH [OF si'(2) d'(2)] Cons.prems(3,4) by auto
  then show ?case
    using si'(1) v d' by (subst convert_loop.simps) (auto simp: key_from_ll_correct)
qed

text \<open>An integer set with one element more than the configuration allows can be converted.\<close>

lemma setTypeConvert_correct:
  assumes "otype ob = OBJ_SET" "oenc ob = OBJ_ENCODING_INTSET" "set_is ob = Some is" "intset_ok is"
  shows "\<exists>ob' d. setTypeConvert env ob OBJ_ENCODING_HT = Some ob' \<and> set_ok env ob' \<and> set_ht ob' = Some d \<and>
    oenc ob' = OBJ_ENCODING_HT \<and> refcount ob' = refcount ob \<and> set_members ob' = ll_key ` set (intset_vals is)"
proof -
  let ?env = "env\<lparr>set_max_intset_entries := intsetLen is\<rparr>" and ?d0 = "dictCreate (setDictType (hash_seed env)) :: (sds_key, unit) dict"
  have ptr: "optr ob = Ptr_data (Set_intset is)"
    using assms(3) by (auto simp: set_is_def split: obj_ptr.splits set_data.splits)
  have ok: "set_ok ?env ob" using assms ptr by (simp add: set_ok_def)
  have els: "set_elems ob = map Ele_ll (intset_vals is)" using ptr by (simp add: set_elems_def)
  obtain d r where d: "dictExpand ?d0 (intsetLen is) = Some (d, r)" "same_entries ?d0 d"
  proof -
    have "intsetLen is \<le> 2 ^ 60"
      using intset_ok_get(2) [OF assms(4)] assms(4) wf_rep [of "is"] by (simp add: intset_ok_def intsetLen_def intset_rep_def)
    then show ?thesis
      using that sds_dict.dictExpand_correct [OF set_dict_okD(1,2) [OF set_dict_create(1)]] by blast
  qed
  note dm = same_entries_members [OF d(2) set_dict_create(1)]
  have dn: "dict_members d = {}" "dict_entries d = []"
    using dm set_dict_create(2) by (simp_all add: dict_members_def)
  obtain si where si: "setTypeInitIterator env ob = Some si" "set_todo (0, 0) ob si (set_elems ob)"
    using setTypeInitIterator_correct [OF ok, of "(0, 0)"] assms(2) by (auto simp: setTypeInitIterator_def)
  have "\<exists>si' d'. convert_loop env (0, 0) ob si d = Some (ob, si', d') \<and>
      setTypeReleaseIterator (0, 0) ob si' = Some ob \<and>
      set_dict_ok env d' \<and> dict_members d' = dict_members d \<union> elem_key ` set (set_elems ob)"
    using set_elems_correct [OF ok] intset_ok_range [OF assms(4)] intset_ok_get(2) [OF assms(4)] dm dn
    by (intro convert_loop_correct [OF ok si(2)]) (auto simp: els)
  moreover have "set_members ob = ll_key ` set (intset_vals is)" using ptr by (simp add: set_members_def)
  ultimately show ?thesis
    using assms(1,2,3) d(1) si(1) dn set_elems_correct(1) [OF ok] by (auto simp: setTypeConvert_def set_ok_put)
qed

lemma intset_ok_add:
  assumes "intset_ok is" and "int64_range v" and "card (set (intset_vals is)) < 2 ^ 29 - 1"
  shows "\<exists>is'. intsetAdd junk is v = Some (is', v \<notin> set (intset_vals is)) \<and> intset_ok is' \<and>
    set (intset_vals is') = insert v (set (intset_vals is))"
  using ints.add_law [OF assms(1,2,3)] by blast

lemma intset_ok_len: "intset_ok is \<Longrightarrow> intsetLen is = card (set (intset_vals is))"
  by (simp add: intset_ok_def intsetLen_def wf_card)

lemma setTypeAdd_correct:
  assumes ok: "set_ok env ob" and cap: "card (set_members ob) < set_capacity env"
  shows "\<exists>ob'. setTypeAdd env ob k = Some (ob', k \<notin> set_members ob) \<and> set_ok env ob' \<and>
    set_members ob' = insert k (set_members ob) \<and> refcount ob' = refcount ob"
  using ok
proof (cases rule: set_ok_cases)
  case (Dict d)
  have "card (set_members ob) < 2 ^ 59" using cap by (simp add: set_capacity_def split: if_splits)
  then have sz: "length (dict_entries d) < 2 ^ 59"
    using card_dict_members [OF set_dict_okD(1) [OF Dict(5)]] Dict(6) by simp
  obtain d' de x where *: "dictAddRaw (can_resize env) () d k = Some (d', de, x)"
    "if k \<in> dict_members d then de = None \<and> set_dict_ok env d' \<and> dict_members d' = dict_members d
     else \<exists>r d''. de = Some r \<and> dictSetKey d' r k = Some d' \<and> dictSetVal d' r () = Some d'' \<and>
       set_dict_ok env d'' \<and> dict_members d'' = insert k (dict_members d)"
    using set_dict_add_raw [OF Dict(5) sz] by blast
  then show ?thesis
    using Dict by (cases "k \<in> dict_members d") (auto simp: setTypeAdd_def set_ok_put insert_absorb)
next
  case (Intset "is")
  have n: "intsetLen is = card (set_members ob)"
    using intset_ok_len [OF Intset(5)] card_image [OF inj_ll_key [OF Intset(5)]] Intset(7) by simp
  show ?thesis
  proof (cases "key_ll k")
    case None
    then have k: "k \<notin> set_members ob"
      using Intset(7) intset_ok_range [OF Intset(5)] key_ll_None by auto
    obtain ob1 d where c: "setTypeConvert env ob OBJ_ENCODING_HT = Some ob1" "set_ok env ob1" "set_ht ob1 = Some d"
        "oenc ob1 = OBJ_ENCODING_HT" "refcount ob1 = refcount ob" "set_members ob1 = set_members ob"
      using setTypeConvert_correct [OF Intset(1,2,4,5)] Intset(7) by metis
    from c(2) have d: "otype ob1 = OBJ_SET" "set_dict_ok env d" "dict_members d = set_members ob"
      using c(3,4,6) by (cases rule: set_ok_cases; simp)+
    have "card (set_members ob) < 2 ^ 59" using cap by (simp add: set_capacity_def split: if_splits)
    then have "length (dict_entries d) < 2 ^ 59"
      using card_dict_members [OF set_dict_okD(1) [OF d(2)]] d(3) by simp
    from set_dict_add [OF d(2) this, of "can_resize env" k] show ?thesis
      using None k c d Intset(1,2) by (auto simp: setTypeAdd_def set_ok_put)
  next
    case (Some v)
    note v = key_ll_Some [OF Some]
    have mem: "k \<in> set_members ob \<longleftrightarrow> v \<in> set (intset_vals is)"
      using v Intset(5,7) intset_ok_range ll_key_inj by (auto simp: image_iff)
    have "card (set (intset_vals is)) < 2 ^ 29 - 1"
      using cap n intset_ok_len [OF Intset(5)] Intset(6) by (simp add: set_capacity_def split: if_splits)
    then obtain is' where is': "intsetAdd (mem_junk env) is v = Some (is', k \<notin> set_members ob)" "intset_ok is'"
        "set (intset_vals is') = insert v (set (intset_vals is))"
      using intset_ok_add [OF Intset(5) v(1)] mem by auto
    have mem': "set_members (put_set_is ob is') = insert k (set_members ob)" using is'(3) Intset(7) v(2) by simp
    show ?thesis
    proof (cases "k \<notin> set_members ob \<and> intsetLen is' > set_max_intset_entries env")
      case True
      have "\<exists>ob' d. setTypeConvert env (put_set_is ob is') OBJ_ENCODING_HT = Some ob' \<and> set_ok env ob' \<and> set_ht ob' = Some d \<and>
          oenc ob' = OBJ_ENCODING_HT \<and> refcount ob' = refcount ob \<and> set_members ob' = ll_key ` set (intset_vals is')"
        using setTypeConvert_correct [of "put_set_is ob is'" is' env] Intset(1,2) is'(2) by simp
      then show ?thesis
        using True is' Some Intset(2,4) mem' by (auto simp: setTypeAdd_def Let_def)
    next
      case False
      have "intsetLen is' = intsetLen is" if "k \<in> set_members ob"
        using that mem is'(3) intset_ok_len [OF is'(2)] intset_ok_len [OF Intset(5)] by (simp add: insert_absorb)
      then have "intsetLen is' \<le> set_max_intset_entries env" using False Intset(6) by force
      then show ?thesis
        using False is' Some Intset(1,2,4) mem' by (auto simp: setTypeAdd_def Let_def set_ok_put)
    qed
  qed
qed

lemma setTypeRemove_correct:
  assumes ok: "set_ok env ob"
  shows "\<exists>ob'. setTypeRemove env ob k = Some (ob', k \<in> set_members ob) \<and> set_ok env ob' \<and>
    set_members ob' = set_members ob - {k} \<and> refcount ob' = refcount ob"
  using ok
proof (cases rule: set_ok_cases)
  case (Dict d)
  obtain d' where d': "dictDelete d k = Some (d', k \<in> dict_members d)" "set_dict_ok env d'"
      "dict_members d' = dict_members d - {k}"
    using set_dict_delete [OF Dict(5)] by blast
  obtain d2 r where d2: "dictResize (can_resize env) d' = Some (d2, r)" "set_dict_ok env d2"
      "dict_members d2 = dict_members d'"
    using set_dict_resize [OF d'(2)] by blast
  show ?thesis
    using d' d2 Dict by (cases "k \<in> dict_members d"; cases "htNeedsResize d'") (auto simp: setTypeRemove_def set_ok_put)
next
  case (Intset "is")
  show ?thesis
  proof (cases "key_ll k")
    case None
    then have "k \<notin> set_members ob"
      using Intset(7) intset_ok_range [OF Intset(5)] key_ll_None by auto
    then show ?thesis using None Intset(2) ok by (simp add: setTypeRemove_def)
  next
    case (Some v)
    note v = key_ll_Some [OF Some]
    have mem: "k \<in> set_members ob \<longleftrightarrow> v \<in> set (intset_vals is)"
      using v Intset(5,7) intset_ok_range ll_key_inj by (auto simp: image_iff)
    obtain is' where is': "intsetRemove (mem_junk env) is v = Some (is', v \<in> set (intset_vals is))" "intset_ok is'"
        "set (intset_vals is') = set (intset_vals is) - {v}"
      using ints.del_law [OF Intset(5) v(1)] by blast
    have "intsetLen is' \<le> intsetLen is"
      using is'(3) by (simp add: intset_ok_len is'(2) Intset(5) card_mono)
    moreover have "ll_key ` (set (intset_vals is) - {v}) = ll_key ` set (intset_vals is) - {k}"
      using v(1) Intset(5) intset_ok_range ll_key_inj unfolding v(2) by blast
    ultimately show ?thesis
      using is' Intset Some mem by (auto simp: setTypeRemove_def set_ok_put)
  qed
qed

lemma setTypeIsMember_correct:
  assumes ok: "set_ok env ob"
  shows "\<exists>ob'. setTypeIsMember ob k = Some (ob', k \<in> set_members ob) \<and> set_ok env ob' \<and>
    set_members ob' = set_members ob \<and> refcount ob' = refcount ob"
  using ok
proof (cases rule: set_ok_cases)
  case (Dict d)
  then show ?thesis
    using set_dict_find [OF Dict(5), of k] by (auto simp: setTypeIsMember_def set_ok_put)
next
  case (Intset "is")
  show ?thesis
  proof (cases "key_ll k")
    case None
    then have "k \<notin> set_members ob"
      using Intset(7) intset_ok_range [OF Intset(5)] key_ll_None by auto
    then show ?thesis using None Intset(2) ok by (simp add: setTypeIsMember_def)
  next
    case (Some v)
    note v = key_ll_Some [OF Some]
    have "k \<in> set_members ob \<longleftrightarrow> v \<in> set (intset_vals is)"
      using v Intset(5,7) intset_ok_range ll_key_inj by (auto simp: image_iff)
    then show ?thesis
      using ints.mem_law [OF Intset(5) v(1)] Some Intset(2,4) ok by (auto simp: setTypeIsMember_def)
  qed
qed

interpretation set_values: bounded_set "set_ok env" set_members "\<lambda>_. True" "set_capacity env" "setTypeCreate env k"
  "setTypeAdd env" "setTypeRemove env" setTypeIsMember
proof
  show "set_ok env (setTypeCreate env k)" "set_members (setTypeCreate env k) = {}" by (rule create_set_ok)+
next
  fix ob x assume ok: "set_ok env ob"
  show "finite (set_members ob)" by simp
  show "\<exists>ob'. setTypeRemove env ob x = Some (ob', x \<in> set_members ob) \<and> set_ok env ob' \<and>
      set_members ob' = set_members ob - {x}"
    using setTypeRemove_correct [OF ok] by blast
  show "\<exists>ob'. setTypeIsMember ob x = Some (ob', x \<in> set_members ob) \<and> set_ok env ob' \<and>
      set_members ob' = set_members ob"
    using setTypeIsMember_correct [OF ok] by blast
  assume "card (set_members ob) < set_capacity env"
  then show "\<exists>ob'. setTypeAdd env ob x = Some (ob', x \<notin> set_members ob) \<and> set_ok env ob' \<and>
      set_members ob' = insert x (set_members ob)"
    using setTypeAdd_correct [OF ok] by blast
qed

section \<open>A random member\<close>

text \<open>The bound on the tables of the dictionary that the results of \<open>random()\<close> can reach.\<close>

definition set_slots :: "set_obj \<Rightarrow> nat" where
  "set_slots ob = (case set_ht ob of None \<Rightarrow> 0 | Some d \<Rightarrow> ht_size (ht0 d) + ht_size (ht1 d))"

lemma intset_ok_random:
  assumes "intset_ok is" and "intset_vals is \<noteq> []"
  shows "\<exists>x \<in> set (intset_vals is). intsetRandom is rnd = Some x"
proof -
  have rep: "intset_rep is (intset_vals is)" using assms(1) by (auto simp: intset_ok_def wf_rep)
  have n: "is_length is = length (intset_vals is)" using rep by (simp add: intset_rep_def)
  have i: "rnd mod length (intset_vals is) < length (intset_vals is)" using assms(2) by simp
  then have "intsetGet is (rnd mod length (intset_vals is)) = Some (Some (intset_vals is ! (rnd mod length (intset_vals is))))"
    using intset_ok_get(1) [OF assms(1)] by simp
  then have "intsetRandom is rnd = Some (intset_vals is ! (rnd mod length (intset_vals is)))"
    using i n assms(2) by (auto simp: intsetGet_def intsetRandom_def)
  then show ?thesis using i by (auto intro: nth_mem)
qed

lemma setTypeRandomElement_correct:
  assumes ok: "set_ok env ob" and ne: "set_members ob \<noteq> {}" and sl: "set_slots ob \<le> 2 ^ 31"
    and r: "\<forall>n. random_hits (\<lambda>i. random (n + i))"
  shows "\<exists>ob' e. setTypeRandomElement random rnd ob = Some (ob', e) \<and> set_ok env ob' \<and> set_members ob' = set_members ob \<and>
    elem_ok e \<and> elem_key e \<in> set_members ob \<and> oenc ob' = oenc ob \<and>
    (case e of Ele_ll v \<Rightarrow> oenc ob = OBJ_ENCODING_INTSET | Ele_sds k \<Rightarrow> oenc ob = OBJ_ENCODING_HT)"
  using ok
proof (cases rule: set_ok_cases)
  case (Dict d)
  obtain d' e where d': "dictGetFairRandomKey random rnd d = Some (d', e)" "same_entries d d'"
      "case e of None \<Rightarrow> dict_entries d = [] | Some e \<Rightarrow> e \<in> set (dict_entries d)"
    using sds_dict.dictGetFairRandomKey_correct [OF set_dict_okD(1,2) [OF Dict(5)] _ r, of rnd] sl Dict(4)
    by (auto simp: set_slots_def)
  have "dict_entries d \<noteq> []" using ne Dict(6) by (simp add: dict_members_def)
  then obtain x where "e = Some x" "x \<in> set (dict_entries d)" using d'(3) by (cases e) auto
  then show ?thesis
    using d'(1) Dict same_entries_members [OF d'(2) Dict(5)]
    by (auto simp: setTypeRandomElement_def set_ok_put dict_members_def image_iff intro!: bexI [of _ x])
next
  case (Intset "is")
  then have "intset_vals is \<noteq> []" using ne by auto
  then show ?thesis
    using intset_ok_random [OF Intset(5), of rnd] Intset ok intset_ok_range [OF Intset(5)]
    by (auto simp: setTypeRandomElement_def)
qed

section \<open>Properties\<close>

text \<open>C2: Every sequence of insertions, deletions and membership tests of strings on a new set, as long as it may not exceed the
  capacity, answers as the mathematical set does and keeps the set well formed, whatever the conversions from an integer set to
  a hash table, the resizing and the rehashing on the way.\<close>

theorem set_type_ops_correct:
  assumes "length os \<le> set_capacity env"
  shows "\<exists>ob. run_ops (setTypeAdd env) (setTypeRemove env) setTypeIsMember (setTypeCreate env k) os =
      Some (ob, snd (set_ops {} os)) \<and> set_ok env ob \<and> set_members ob = fst (set_ops {} os)"
  using set_values.run_ops_from_empty [of os env k] assms by auto

definition small_env :: set_env where
  "small_env = \<lparr>set_max_intset_entries = 1, hash_seed = replicate 16 0, can_resize = True, mem_junk = \<lambda>_. 0, fp_junk = 0\<rparr>"

theorem set_type_ops_correct_witness:
  "\<exists>ob. run_ops (setTypeAdd small_env) (setTypeRemove small_env) setTypeIsMember (setTypeCreate small_env (ll_key 5))
      [Add (ll_key 5), Add (ll_key 5), Add (ll_key 6), Test (ll_key 6), Del (ll_key 6), Test (ll_key 6)] =
      Some (ob, [True, False, True, True, True, False]) \<and> set_ok small_env ob \<and> set_members ob = {ll_key 5}"
  using set_type_ops_correct [of "[Add (ll_key 5), Add (ll_key 5), Add (ll_key 6), Test (ll_key 6), Del (ll_key 6), Test (ll_key 6)]"
      small_env "ll_key 5"]
  by (simp add: set_capacity_def small_env_def ll_key_inj int64_range_def insert_Diff_if del: run_ops.simps)

end
