(* ===== verification/Spec2Isabelle.thy ===== *)
theory Spec2Isabelle
  imports Util_Num Glob_Match Intset Dict_Scan Dict_Iter Sds_Text Adlist Bitfield_Command Set_Type
begin

text \<open>
  A verification development for the Redis 6.0.10 server that the file manager application of this repository ships under
  \<open>src/redis-6.0.10/\<close>. File names below are relative to \<open>src/redis-6.0.10/src/\<close>.

  \<^bold>\<open>The program.\<close> Redis keeps a dictionary from keys to objects in memory. Keys and string values are dynamic strings
  (\<open>sds.c\<close>), dictionaries are hash tables with incremental rehashing (\<open>dict.c\<close>) over a keyed hash function (\<open>siphash.c\<close>),
  sets of integers are sorted blocks of memory (\<open>intset.c\<close>), and the server threads its clients, replies and jobs on doubly
  linked lists (\<open>adlist.c\<close>). Values are reference-counted objects with several encodings (\<open>object.c\<close>). A command parses its
  arguments with the conversions of \<open>util.c\<close>, changes the object under its key and sends a reply; the bit commands of
  \<open>bitops.c\<close> do so on strings. The development models these data structures bottom-up and then the bit commands on top of
  strings and objects.

  \<^bold>\<open>Conventions\<close> (theory \<open>Redis_Prelude\<close>). A struct is a record, an enumeration a datatype, and a function of the source a
  definition of the same name; the loops of a function are definitions of their own, named after it. A byte is an \<open>8 word\<close>.
  Unsigned and signed integers are \<open>nat\<close> and \<open>int\<close> with the reductions \<open>u32\<close>, \<open>u64\<close>, \<open>s32\<close> and \<open>s64\<close> written where the source
  stores a result, and words where the source works with bits. A block of memory is the list of its bytes; an access outside of
  it, a failed assertion and a panic are the result \<open>None\<close>, so that a theorem with \<open>Some\<close> on its right side states memory
  safety too. What \<open>malloc\<close> leaves in a fresh block is an argument (\<open>junk\<close>), as are addresses, clocks and random numbers. The
  allocator does not fail, as \<open>zmalloc\<close> aborts the process then. The model is the 64-bit little-endian build.

  \<^bold>\<open>Theories and what they show.\<close>
  \<^item> \<open>Util_Num\<close>: \<open>digits10\<close>, \<open>ll2string\<close>, \<open>string2ll\<close> of \<open>util.c\<close>. The printer writes exactly the decimal notation and stays in
    the buffer; the parser accepts exactly the decimal notations of 64-bit integers; the two are inverse.
  \<^item> \<open>Glob_Match\<close>: \<open>stringmatchlen\<close> of \<open>util.c\<close>, with every read of the pattern. It returns, never reads outside of the
    pattern, and decides the match of the parsed pattern; the pattern of stars does not match the empty string.
  \<^item> \<open>Set_Interface\<close>, \<open>Intset\<close>: the locale \<open>bounded_set\<close> is the contract of a set; \<open>intset.c\<close> on its bytes, with the upgrades of
    the encoding, is an instance. Its binary search, insertion and deletion keep the strictly sorted list. A set of more than
    \<open>2 ^ 29\<close> members of 8 bytes overflows its size.
  \<^item> \<open>Map_Interface\<close>, \<open>Dict\<close>, \<open>Dict_Map\<close>, \<open>Dict_Types\<close>, \<open>Siphash\<close>: \<open>dict.c\<close> as a finite map. \<open>Dict\<close> has the operations, \<open>Dict_Map\<close> the
    invariant and, in the locale \<open>dict_type\<close> (the contract of a \<open>dictType\<close>), that each operation keeps it and acts on the map;
    a \<open>sublocale\<close> gives the interface \<open>bounded_map\<close>. \<open>Dict_Types\<close> interprets the locale on the types of \<open>server.c\<close> with the hash
    functions of \<open>siphash.c\<close>.
  \<^item> \<open>Dict_Scan\<close>: \<open>dictScan\<close> with its bit-reversed cursor. Every entry that stays in the dictionary during a full scan is
    emitted, whatever insertions, deletions, resizes and rehashing steps happen between the calls, and the scan ends.
  \<^item> \<open>Dict_Iter\<close>: iterators with their fingerprint, clearing, and random sampling.
  \<^item> \<open>Sds\<close>, \<open>Sds_Text\<close>: \<open>sds.c\<close> with its five headers. Every operation keeps the invariant \<open>sds_ok\<close> and acts on the byte string
    \<open>sds_str\<close>; splitting and joining, quoting and parsing of arguments are inverse; formatted output is the specified text. The
    locale \<open>string_buffer\<close> is what joining needs of a string.
  \<^item> \<open>Adlist\<close>: \<open>adlist.c\<close> on a heap of nodes. The locale \<open>value_sequence\<close> is the contract of a sequence, and the list its instance.
  \<^item> \<open>Object\<close>: string objects of \<open>object.c\<close>. Changes of the encoding keep the text, and comparison is equality of the texts.
  \<^item> \<open>Bitops\<close>, \<open>Bitfield\<close>: the word-parallel population count and bit search, and fields of any width with their overflow checks,
    against bit by bit specifications.
  \<^item> \<open>Bit_Commands\<close>, \<open>Bitfield_Command\<close>: SETBIT, GETBIT, BITOP, BITCOUNT, BITPOS and BITFIELD as functions from the arguments and
    the object under the key to the reply and the new object. The theorems compose those on strings, objects and bits.

  \<^item> \<open>Set_Type\<close>: the set values of \<open>t_set.c\<close>, an integer set that is converted to a hash table when it gets a member that is
    no integer or too many members. The locale \<open>bounded_set\<close> is interpreted on them, from the interpretations on the integer set and
    the dictionary, and the iterator returns every member once.

  \<^bold>\<open>Termination, fuel and bounds.\<close> No definition has fuel. Loops that count down are structural, other loops have a measure, and
  loops whose end depends on the data are \<open>partial_function (option)\<close> with theorems that they return. Hypotheses on sizes are
  those that keep a C integer from wrapping: strings below \<open>2 ^ 32\<close> bytes for objects (the server limits them to 512 MB), a
  dictionary (or set) of at most \<open>2 ^ 59\<close> entries, an intset below the overflow above. Where an overflow is reachable, a theorem shows what
  happens.

  \<^bold>\<open>Not modelled.\<close> The other value types and their commands, persistence, networking, replication, cluster, scripting and the
  modules; the JavaScript application, whose code calls external packages; the third-party code under \<open>deps/\<close>. Of the
  modelled files: memory that is only released (\<open>sdsfree\<close>, destructors), output for debugging, floating point conversions (they
  rest on the C library), the field \<open>lru\<close> of objects, and notifications of key changes. The lookup of a key is an argument of a
  command, not a call of \<open>db.c\<close>.
\<close>

end
